(* ===== verification/Fio_Prelude.thy ===== *)
theory Fio_Prelude
  imports Main "HOL-Library.Word"
begin

text \<open>
  Shared vocabulary of the fio development: the machine integer types of the C code, bounds
  checked accesses to a block of memory, and the generic facts on words, lists and bit
  masks that the component theories share.

  Memory is a list of bytes. A C access outside an object is undefined behaviour; the
  functions \<open>mem_read\<close> and \<open>mem_write\<close> return \<open>None\<close> for it, so that a
  theorem which shows a result of the form \<open>Some _\<close> also shows that the code stays
  inside its objects.
\<close>

unbundle bit_operations_syntax

type_synonym u8 = "8 word"
type_synonym u16 = "16 word"
type_synonym u32 = "32 word"
type_synonym u64 = "64 word"
type_synonym bytes = "u8 list"

named_theorems word_nat \<comment> \<open>facts that move a word expression to \<open>nat\<close>\<close>

section \<open>Memory\<close>

definition mem_read :: "'a list \<Rightarrow> nat \<Rightarrow> nat \<Rightarrow> 'a list option" where
  "mem_read buf off n = (if off + n \<le> length buf then Some (take n (drop off buf)) else None)"

definition mem_write :: "'a list \<Rightarrow> nat \<Rightarrow> 'a list \<Rightarrow> 'a list option" where
  "mem_write buf off src =
     (if off + length src \<le> length buf
      then Some (take off buf @ src @ drop (off + length src) buf) else None)"

definition arr_get :: "'a list \<Rightarrow> nat \<Rightarrow> 'a option" where
  "arr_get xs i = (if i < length xs then Some (xs ! i) else None)"

lemma arr_get_Some [simp]: "i < length xs \<Longrightarrow> arr_get xs i = Some (xs ! i)"
  by (simp add: arr_get_def)

lemma mem_read_Some [simp]: "off + n \<le> length buf \<Longrightarrow> mem_read buf off n = Some (take n (drop off buf))"
  by (simp add: mem_read_def)

lemma mem_write_Some [simp]:
  "off + length src \<le> length buf
    \<Longrightarrow> mem_write buf off src = Some (take off buf @ src @ drop (off + length src) buf)"
  by (simp add: mem_write_def)

lemma mem_write_length: "mem_write buf off src = Some buf' \<Longrightarrow> length buf' = length buf"
  by (auto simp: mem_write_def split: if_splits)

lemma mem_write_nth:
  "mem_write buf off src = Some buf' \<Longrightarrow> i < length buf \<Longrightarrow>
    buf' ! i = (if off \<le> i \<and> i < off + length src then src ! (i - off) else buf ! i)"
  by (auto simp: mem_write_def nth_append min_def split: if_splits)

lemma mem_read_write_same:
  "mem_write buf off src = Some buf' \<Longrightarrow> mem_read buf' off (length src) = Some src"
  by (auto simp: mem_write_def split: if_splits)

text \<open>Reads and writes of disjoint regions do not interfere.\<close>

lemma mem_write_ok: "off + length src \<le> length buf \<Longrightarrow> \<exists>buf'. mem_write buf off src = Some buf' \<and> length buf' = length buf"
  by simp

definition agree :: "'a list \<Rightarrow> 'a list \<Rightarrow> nat \<Rightarrow> nat \<Rightarrow> bool" where
  "agree B B' a n \<longleftrightarrow> length B = length B' \<and> (\<forall>i < length B. a \<le> i \<and> i < a + n \<longrightarrow> B ! i = B' ! i)"

lemma agree_refl [simp]: "agree B B a n"
  by (simp add: agree_def)

lemma agree_sym: "agree B B' a n \<Longrightarrow> agree B' B a n"
  by (auto simp: agree_def)

lemma agree_trans: "agree B B' a n \<Longrightarrow> agree B' B'' a n \<Longrightarrow> agree B B'' a n"
  by (auto simp: agree_def)

lemma agree_sub: "agree B B' a n \<Longrightarrow> a \<le> a' \<Longrightarrow> a' + n' \<le> a + n \<Longrightarrow> agree B B' a' n'"
  by (auto simp: agree_def)

lemma mem_read_agree: "agree B B' a n \<Longrightarrow> a \<le> off \<Longrightarrow> off + m \<le> a + n \<Longrightarrow> mem_read B' off m = mem_read B off m"
  by (auto simp: agree_def mem_read_def intro!: nth_equalityI)

lemma mem_write_agree:
  "mem_write B off src = Some B' \<Longrightarrow> off + length src \<le> a \<or> a + n \<le> off \<Longrightarrow> agree B B' a n"
  using mem_write_length[of B off src B'] by (auto simp: agree_def mem_write_nth)

lemma mem_read_write_other:
  "mem_write B off src = Some B' \<Longrightarrow> off + length src \<le> a \<or> a + n \<le> off \<Longrightarrow> mem_read B' a n = mem_read B a n"
  by (rule mem_read_agree[OF mem_write_agree]) auto

text \<open>\<open>frame B B' p n\<close>: nothing changed outside the \<open>n\<close> bytes at \<open>p\<close>.\<close>

definition frame :: "'a list \<Rightarrow> 'a list \<Rightarrow> nat \<Rightarrow> nat \<Rightarrow> bool" where
  "frame B B' p n \<longleftrightarrow> length B = length B' \<and> (\<forall>i < length B. i < p \<or> p + n \<le> i \<longrightarrow> B ! i = B' ! i)"

lemma frame_refl [simp]: "frame B B p n"
  by (simp add: frame_def)

lemma frame_trans: "frame B B' p n \<Longrightarrow> frame B' B'' p n \<Longrightarrow> frame B B'' p n"
  by (auto simp: frame_def)

lemma frame_mono: "frame B B' p n \<Longrightarrow> q \<le> p \<Longrightarrow> p + n \<le> q + m \<Longrightarrow> frame B B' q m"
  by (auto simp: frame_def)

lemma frame_agree: "frame B B' p n \<Longrightarrow> a + m \<le> p \<or> p + n \<le> a \<Longrightarrow> agree B B' a m"
  by (auto simp: frame_def agree_def)

lemma mem_write_frame:
  "mem_write B off src = Some B' \<Longrightarrow> p \<le> off \<Longrightarrow> off + length src \<le> p + n \<Longrightarrow> frame B B' p n"
  using mem_write_length[of B off src B'] by (auto simp: frame_def mem_write_nth)

section \<open>Words\<close>

lemma unat_lt: "unat w < 2 ^ LENGTH('a)" for w :: "'a::len word"
  by (rule unsigned_less)

lemma sint_small: "unat w < 2 ^ (LENGTH('a) - 1) \<Longrightarrow> sint w = int (unat w)" for w :: "'a::len word"
proof -
  assume "unat w < 2 ^ (LENGTH('a) - 1)"
  then have "int (unat w) < int (2 ^ (LENGTH('a) - 1))" by (simp only: of_nat_less_iff)
  then have "uint w < 2 ^ (LENGTH('a) - 1)" by simp
  then have "signed_take_bit (LENGTH('a) - 1) (uint w) = uint w"
    by (intro signed_take_bit_int_eq_self) (auto intro: order_trans[of _ 0])
  then show ?thesis by (simp add: sint_uint)
qed

lemma take_bit_zero_iff: "take_bit n w = 0 \<longleftrightarrow> (\<forall>j < n. \<not> bit w j)" for w :: "'a::len word"
  by (auto simp: bit_eq_iff bit_take_bit_iff dest: bit_imp_le_length)

lemma byte_mask: "(0xff :: 'a::len word) = mask 8"
  by (simp add: mask_eq_exp_minus_1)

lemma unat_low_byte: "unat (c AND 0xff) < 256" for c :: "'a::len word"
proof -
  have "c AND 0xff = take_bit 8 c" by (simp add: byte_mask take_bit_eq_mask)
  then show ?thesis using take_bit_nat_less_exp[of 8 "unat c"] by (simp add: unsigned_take_bit_eq)
qed

lemma xor_cancel [simp]:
  "x XOR a = x XOR b \<longleftrightarrow> a = b" "a XOR x = b XOR x \<longleftrightarrow> a = b" for a b x :: "'a::len word"
  by (metis xor.assoc xor_self_eq xor.left_neutral) (metis xor.assoc xor_self_eq xor.right_neutral)

lemma xor_zero_iff: "a XOR b = 0 \<longleftrightarrow> a = b" for a b :: "'a::len word"
  using xor_cancel(1)[of b a b] by (simp add: xor.commute)

lemma unat_ucast_small:
  "unat x < 2 ^ LENGTH('b) \<Longrightarrow> unat (ucast x :: 'b::len word) = unat x" for x :: "'a::len word"
  by (simp add: unsigned_ucast_eq take_bit_nat_eq_self)

lemma unat_power_two:
  "k < LENGTH('a::len) \<Longrightarrow> unat ((2 :: 'a word) ^ k) = 2 ^ k"
proof -
  assume "k < LENGTH('a)"
  moreover have "unat (word_of_nat (2 ^ k) :: 'a word) = 2 ^ k mod 2 ^ LENGTH('a)"
    by (rule unat_of_nat)
  ultimately show ?thesis by simp
qed

lemma word_and_mask_mod [word_nat]:
  fixes x s :: "'a::len word"
  assumes "s = 2 ^ k" and "k < LENGTH('a)"
  shows "unat (x AND (s - 1)) = unat x mod unat s"
proof -
  have "x AND (s - 1) = take_bit k x"
    by (simp add: assms(1) take_bit_eq_mask mask_eq_exp_minus_1)
  then have "unat (x AND (s - 1)) = take_bit k (unat x)"
    by (simp add: unsigned_take_bit_eq)
  with assms show ?thesis
    by (simp add: take_bit_eq_mod unat_power_two)
qed

lemma unat_add_mod:
  fixes x y :: "'a::len word"
  assumes "S dvd 2 ^ LENGTH('a)"
  shows "unat (x + y) mod S = (unat x + unat y) mod S"
  using assms by (simp add: unat_word_ariths mod_mod_cancel)

definition word_min :: "'a::len word \<Rightarrow> 'a word \<Rightarrow> 'a word" where
  "word_min x y = (if x < y then x else y)"

lemma unat_word_min [word_nat]: "unat (word_min x y) = min (unat x) (unat y)"
  by (auto simp: word_min_def word_less_nat_alt min_def)

section \<open>Little endian words in memory\<close>

fun le_dec :: "bytes \<Rightarrow> 'a::len word" where
  "le_dec [] = 0"
| "le_dec (b # bs) = ucast b OR push_bit 8 (le_dec bs)"

definition le_enc :: "nat \<Rightarrow> 'a::len word \<Rightarrow> bytes" where
  "le_enc n w = map (\<lambda>i. ucast (drop_bit (8 * i) w)) [0..<n]"

lemma length_le_enc [simp]: "length (le_enc n w) = n"
  by (simp add: le_enc_def)

lemma bit_le_dec:
  "bit (le_dec bs :: 'a::len word) j \<longleftrightarrow> j < LENGTH('a) \<and> j < 8 * length bs \<and> bit (bs ! (j div 8)) (j mod 8)"
proof (induction bs arbitrary: j)
  case (Cons b bs)
  have "bit (le_dec (b # bs) :: 'a word) j \<longleftrightarrow> j < LENGTH('a) \<and> (if j < 8 then bit b j else bit (le_dec bs :: 'a word) (j - 8))"
    by (auto simp: bit_or_iff bit_ucast_iff bit_push_bit_iff dest: bit_imp_le_length)
  also have "\<dots> \<longleftrightarrow> j < LENGTH('a) \<and> j < 8 * length (b # bs) \<and> bit ((b # bs) ! (j div 8)) (j mod 8)"
    by (cases "j < 8") (auto simp: Cons.IH le_div_geq le_mod_geq not_less)
  finally show ?case .
qed simp

lemma le_dec_enc [simp]: "8 * n = LENGTH('a) \<Longrightarrow> le_dec (le_enc n w) = w" for w :: "'a::len word"
proof (rule bit_word_eqI)
  fix j assume "8 * n = LENGTH('a)" "j < LENGTH('a)"
  moreover from this have "j div 8 < n" by linarith
  ultimately show "bit (le_dec (le_enc n w) :: 'a word) j = bit w j"
    by (simp add: bit_le_dec le_enc_def bit_ucast_iff bit_drop_bit_eq)
qed

lemma le_enc_dec [simp]: "8 * length bs = LENGTH('a) \<Longrightarrow> le_enc (length bs) (le_dec bs :: 'a::len word) = bs"
proof (rule nth_equalityI)
  fix i assume "8 * length bs = LENGTH('a)" "i < length (le_enc (length bs) (le_dec bs :: 'a word))"
  then show "le_enc (length bs) (le_dec bs :: 'a word) ! i = bs ! i"
    by (intro bit_word_eqI) (auto simp: le_enc_def bit_ucast_iff bit_drop_bit_eq bit_le_dec)
qed simp

section \<open>Invariants of transition systems\<close>

text \<open>A component with steps promises an invariant: it holds at the start and every step keeps it. What
  follows for whole runs is proved once.\<close>

locale invariant_system =
  fixes init :: "'s \<Rightarrow> bool" and step :: "'s \<Rightarrow> 's \<Rightarrow> bool" and inv :: "'s \<Rightarrow> bool"
  assumes inv_init: "init s \<Longrightarrow> inv s"
    and inv_step: "inv s \<Longrightarrow> step s s' \<Longrightarrow> inv s'"
begin

lemma inv_steps: "step\<^sup>*\<^sup>* s s' \<Longrightarrow> inv s \<Longrightarrow> inv s'"
  by (induction rule: rtranclp_induct) (auto intro: inv_step)

lemma inv_reachable: "init s \<Longrightarrow> step\<^sup>*\<^sup>* s s' \<Longrightarrow> inv s'"
  by (auto intro: inv_init inv_steps)

end

section \<open>Counting threads\<close>

text \<open>The number of threads whose local state satisfies a predicate.\<close>

definition finitely :: "('a \<Rightarrow> bool) \<Rightarrow> ('t \<Rightarrow> 'a) \<Rightarrow> bool" where
  "finitely P f \<longleftrightarrow> finite {u. P (f u)}"

definition tally :: "('a \<Rightarrow> bool) \<Rightarrow> ('t \<Rightarrow> 'a) \<Rightarrow> int" where
  "tally P f = int (card {u. P (f u)})"

lemma finitely_upd [simp]: "finitely P f \<Longrightarrow> finitely P (f(t := x))"
  unfolding finitely_def by (rule finite_subset[of _ "insert t {u. P (f u)}"]) auto

lemma tally_upd [simp]:
  assumes "finitely P f"
  shows "tally P (f(t := x)) = tally P f + of_bool (P x) - of_bool (P (f t))"
proof -
  let ?A = "{u. P (f u)}"
  have e: "{u. P ((f(t := x)) u)} = (if P x then insert t (?A - {t}) else ?A - {t})" by auto
  have "int (card (?A - {t})) = int (card ?A) - of_bool (P (f t))"
  proof (cases "P (f t)")
    case True
    hence "0 < card ?A" using assms by (auto simp: card_gt_0_iff finitely_def)
    thus ?thesis using True assms by (simp add: of_nat_diff finitely_def)
  qed simp
  thus ?thesis unfolding tally_def e using assms by (simp add: card_insert_if finitely_def)
qed

lemma tally_nonneg [simp]: "0 \<le> tally P f"
  by (simp add: tally_def)

lemma tally_const [simp]: "\<not> P x \<Longrightarrow> finitely P (\<lambda>_. x)" "\<not> P x \<Longrightarrow> tally P (\<lambda>_. x) = 0"
  by (simp_all add: tally_def finitely_def)

lemma tally_pos:
  assumes "finitely P f" "P (f t)"
  shows "0 < tally P f"
  using assms by (auto simp: tally_def finitely_def card_gt_0_iff)

lemma tally_le_one:
  assumes "finitely P f" "tally P f \<le> 1" "P (f t)" "P (f u)"
  shows "t = u"
  using assms by (auto simp: tally_def finitely_def card_le_Suc0_iff_eq)

end
