(* ===== verification/Bits_Lib.thy ===== *)
theory Bits_Lib
  imports Fio_Prelude
begin

text \<open>
  Bit scanning and byte order: \<open>lib/ffz.h\<close>, \<open>lib/fls.h\<close>, \<open>lib/bswap.h\<close> and
  \<open>is_power_of_2\<close> of \<open>fio.h\<close>, for the 64 bit little endian build.
\<close>

section \<open>Powers of two\<close>

definition is_power_of_2 :: "u32 \<Rightarrow> bool" where
  "is_power_of_2 val \<longleftrightarrow> val \<noteq> 0 \<and> val AND (val - 1) = 0"

lemma is_power_of_2_D:
  assumes "is_power_of_2 val"
  obtains k where "k < 32" "val = 2 ^ k"
proof -
  have val: "val \<noteq> 0" "val AND (val - 1) = 0"
    using assms by (simp_all add: is_power_of_2_def)
  then have "1 \<le> unat val" by (simp add: Suc_le_eq unat_gt_0)
  then obtain k where k: "2 ^ k \<le> unat val" "unat val < 2 ^ (k + 1)"
    using ex_power_ivl1[of 2 "unat val"] by auto
  have k32: "k < 32"
  proof (rule ccontr)
    assume "\<not> k < 32"
    then have "(2::nat) ^ 32 \<le> 2 ^ k" using power_increasing[of 32 k "2::nat"] by simp
    with k(1) have "2 ^ 32 \<le> unat val" by linarith
    then show False using unat_lt[of val] by simp
  qed
  have "unat val = 2 ^ k"
  proof (rule ccontr)
    assume ne: "unat val \<noteq> 2 ^ k"
    have sub: "unat (val - 1) = unat val - 1" using val(1) by (rule unat_minus_one)
    have "unat val div 2 ^ k = 1" "(unat val - 1) div 2 ^ k = 1"
      using k ne by (auto intro!: div_nat_eqI)
    then have "bit (unat val) k" "bit (unat (val - 1)) k"
      by (simp_all add: bit_iff_odd sub)
    then have "bit (val AND (val - 1)) k"
      using k32 by (simp add: bit_and_iff bit_unsigned_iff)
    with val(2) show False by simp
  qed
  then have "val = 2 ^ k"
    using k32 by (simp add: word_unat_eq_iff unat_power_two)
  with k32 that show ?thesis by blast
qed

lemma is_power_of_2_I: "k < 32 \<Longrightarrow> is_power_of_2 (2 ^ k)"
proof -
  assume "k < 32"
  then have "unat ((2::u32) ^ k) = 2 ^ k" by (simp add: unat_power_two)
  then have "(2::u32) ^ k \<noteq> 0" by (metis power_not_zero unat_0 zero_neq_numeral)
  moreover have "(2::u32) ^ k AND (2 ^ k - 1) = take_bit k (2 ^ k)"
    by (simp add: take_bit_eq_mask mask_eq_exp_minus_1)
  ultimately show ?thesis by (simp add: is_power_of_2_def take_bit_zero_iff bit_exp_iff)
qed

lemma is_power_of_2_iff: "is_power_of_2 val \<longleftrightarrow> (\<exists>k < 32. val = 2 ^ k)"
  by (metis is_power_of_2_D is_power_of_2_I)

section \<open>Finding bits\<close>

definition c_ffs :: "u64 \<Rightarrow> nat" where
  "c_ffs word =
     (let r = 0;
          (r, word) = (if word AND 0xffffffff = 0 then (r + 32, drop_bit 32 word) else (r, word));
          (r, word) = (if word AND 0xffff = 0 then (r + 16, drop_bit 16 word) else (r, word));
          (r, word) = (if word AND 0xff = 0 then (r + 8, drop_bit 8 word) else (r, word));
          (r, word) = (if word AND 0xf = 0 then (r + 4, drop_bit 4 word) else (r, word));
          (r, word) = (if word AND 3 = 0 then (r + 2, drop_bit 2 word) else (r, word));
          (r, word) = (if word AND 1 = 0 then (r + 1, drop_bit 1 word) else (r, word))
      in r)"

definition ffz :: "u64 \<Rightarrow> nat" where
  "ffz bitmask = c_ffs (NOT bitmask)"

text \<open>One halving step of the scan, and what it keeps: the remaining word is the original
  one shifted by the count so far, and nothing below the count was set.\<close>

definition ffs_step :: "nat \<Rightarrow> nat \<times> u64 \<Rightarrow> nat \<times> u64" where
  "ffs_step n s = (if take_bit n (snd s) = 0 then (fst s + n, drop_bit n (snd s)) else s)"

definition ffs_ok :: "u64 \<Rightarrow> nat \<Rightarrow> nat \<times> u64 \<Rightarrow> bool" where
  "ffs_ok w n s \<longleftrightarrow> snd s = drop_bit (fst s) w \<and> (\<forall>j < fst s. \<not> bit w j) \<and>
     (\<exists>j < n. bit w (fst s + j))"

lemma ffs_step_ok:
  assumes "ffs_ok w (n + n) s"
  shows "ffs_ok w n (ffs_step n s)"
proof -
  have s: "snd s = drop_bit (fst s) w" and low: "\<forall>j < fst s. \<not> bit w j"
    and ex: "\<exists>j < n + n. bit w (fst s + j)"
    using assms by (simp_all add: ffs_ok_def)
  have zero: "take_bit n (snd s) = 0 \<longleftrightarrow> (\<forall>j < n. \<not> bit w (fst s + j))"
    by (simp add: take_bit_zero_iff s bit_drop_bit_eq)
  show ?thesis
  proof (cases "take_bit n (snd s) = 0")
    case False
    then have "\<exists>j < n. bit w (fst s + j)" by (simp add: zero)
    with False s low show ?thesis by (simp add: ffs_ok_def ffs_step_def)
  next
    case True
    with zero have n: "\<forall>j < n. \<not> bit w (fst s + j)" by simp
    obtain j where j: "j < n + n" "bit w (fst s + j)" using ex by blast
    with n have "n \<le> j" by (meson not_le)
    with j have "j - n < n \<and> bit w (fst s + n + (j - n))" by simp
    then have "\<exists>j < n. bit w (fst s + n + j)" by blast
    moreover have "\<forall>j < fst s + n. \<not> bit w j"
      using low n by (metis add_diff_inverse_nat nat_add_left_cancel_less)
    ultimately show ?thesis
      using True s by (simp add: ffs_ok_def ffs_step_def drop_bit_drop_bit add.commute)
  qed
qed

lemma ffs_step_mask:
  "(if word AND 0xffffffff = 0 then (r + 32, drop_bit 32 word) else (r, word)) = ffs_step 32 (r, word)"
  "(if word AND 0xffff = 0 then (r + 16, drop_bit 16 word) else (r, word)) = ffs_step 16 (r, word)"
  "(if word AND 0xff = 0 then (r + 8, drop_bit 8 word) else (r, word)) = ffs_step 8 (r, word)"
  "(if word AND 0xf = 0 then (r + 4, drop_bit 4 word) else (r, word)) = ffs_step 4 (r, word)"
  "(if word AND 3 = 0 then (r + 2, drop_bit 2 word) else (r, word)) = ffs_step 2 (r, word)"
  "(if word AND 1 = 0 then (r + 1, drop_bit 1 word) else (r, word)) = ffs_step 1 (r, word)"
  by (simp_all add: ffs_step_def take_bit_eq_mask mask_eq_exp_minus_1)

lemma c_ffs_steps:
  "c_ffs word = fst (ffs_step 1 (ffs_step 2 (ffs_step 4 (ffs_step 8 (ffs_step 16 (ffs_step 32 (0, word)))))))"
  unfolding c_ffs_def Let_def ffs_step_mask by (simp only: case_prod_beta prod.collapse)

lemma c_ffs_ok:
  assumes "word \<noteq> 0"
  shows "ffs_ok word 1 (ffs_step 1 (ffs_step 2 (ffs_step 4 (ffs_step 8 (ffs_step 16 (ffs_step 32 (0, word)))))))"
proof -
  have "take_bit 64 word \<noteq> 0"
    using assms by (simp add: take_bit_word_eq_self)
  then have "\<exists>j < 64. bit word j" by (simp add: take_bit_zero_iff)
  then have "ffs_ok word 64 (0, word)" by (simp add: ffs_ok_def)
  then show ?thesis
    by (intro ffs_step_ok[of word 1, unfolded one_add_one] ffs_step_ok[of word 2, simplified]
        ffs_step_ok[of word 4, simplified] ffs_step_ok[of word 8, simplified]
        ffs_step_ok[of word 16, simplified] ffs_step_ok[of word 32, simplified])
qed

lemma c_ffs_least:
  assumes "word \<noteq> 0"
  shows "bit word (c_ffs word)" and "j < c_ffs word \<Longrightarrow> \<not> bit word j"
  using c_ffs_ok[OF assms] by (simp_all add: ffs_ok_def c_ffs_steps)

lemma ffz_least:
  assumes "w \<noteq> -1"
  shows "ffz w < 64" and "\<not> bit w (ffz w)" and "j < ffz w \<Longrightarrow> bit w j"
proof -
  have "NOT w \<noteq> 0" using assms by (metis bit.double_compl bit.compl_zero)
  note least = c_ffs_least[OF this]
  show "ffz w < 64" using least(1) bit_imp_le_length[of "NOT w"] by (fastforce simp: ffz_def)
  then show "\<not> bit w (ffz w)" using least(1) by (simp add: ffz_def bit_not_iff)
  show "bit w j" if "j < ffz w"
    using least(2)[of j] that \<open>ffz w < 64\<close> by (simp add: ffz_def bit_not_iff)
qed

definition c_fls :: "u32 \<Rightarrow> nat" where
  "c_fls x =
     (let r = 32 in
      if x = 0 then 0 else
      (let (r, x) = (if x AND 0xffff0000 = 0 then (r - 16, push_bit 16 x) else (r, x));
           (r, x) = (if x AND 0xff000000 = 0 then (r - 8, push_bit 8 x) else (r, x));
           (r, x) = (if x AND 0xf0000000 = 0 then (r - 4, push_bit 4 x) else (r, x));
           (r, x) = (if x AND 0xc0000000 = 0 then (r - 2, push_bit 2 x) else (r, x));
           (r, x) = (if x AND 0x80000000 = 0 then (r - 1, push_bit 1 x) else (r, x))
       in r))"

definition fls_step :: "nat \<Rightarrow> nat \<times> u32 \<Rightarrow> nat \<times> u32" where
  "fls_step n s = (if (\<forall>j < 32. 32 - n \<le> j \<longrightarrow> \<not> bit (snd s) j)
     then (fst s - n, push_bit n (snd s)) else s)"

definition fls_ok :: "u32 \<Rightarrow> nat \<Rightarrow> nat \<times> u32 \<Rightarrow> bool" where
  "fls_ok x n s \<longleftrightarrow> fst s \<le> 32 \<and> snd s = push_bit (32 - fst s) x \<and> (\<forall>j. fst s \<le> j \<longrightarrow> \<not> bit x j) \<and>
     (\<exists>j < fst s. bit x j \<and> fst s \<le> j + n)"

lemma fls_step_ok:
  assumes "fls_ok x (n + n) s" and "n \<le> 16"
  shows "fls_ok x n (fls_step n s)"
proof -
  obtain r y where s: "s = (r, y)" by (cases s)
  have r: "r \<le> 32" and y: "y = push_bit (32 - r) x" and hi: "\<forall>j. r \<le> j \<longrightarrow> \<not> bit x j"
    using assms(1) by (simp_all add: fls_ok_def s)
  obtain i where i: "i < r" "bit x i" "r \<le> i + (n + n)"
    using assms(1) by (auto simp: fls_ok_def s)
  have zero: "(\<forall>j < 32. 32 - n \<le> j \<longrightarrow> \<not> bit y j) \<longleftrightarrow> (\<forall>j. r \<le> j + n \<longrightarrow> \<not> bit x j)" (is "?L \<longleftrightarrow> ?R")
  proof
    assume L: ?L
    show ?R
    proof (intro allI impI notI)
      fix j assume j: "r \<le> j + n" "bit x j"
      with hi have "j < r" by (meson not_le)
      then have "bit y (j + (32 - r))" "j + (32 - r) < 32" "32 - n \<le> j + (32 - r)"
        using j r by (auto simp: y bit_push_bit_iff)
      with L show False by blast
    qed
  next
    assume R: ?R
    show ?L
    proof (intro allI impI notI)
      fix j assume j: "j < 32" "32 - n \<le> j" "bit y j"
      then have "bit x (j - (32 - r))" "32 - r \<le> j" by (auto simp: y bit_push_bit_iff)
      moreover have "r \<le> j - (32 - r) + n" using j r \<open>32 - r \<le> j\<close> assms(2) by linarith
      ultimately show False using R by blast
    qed
  qed
  show ?thesis
  proof (cases "\<forall>j < 32. 32 - n \<le> j \<longrightarrow> \<not> bit y j")
    case False
    then obtain j where "r \<le> j + n" "bit x j" using zero by blast
    moreover from this hi have "j < r" by (meson not_le)
    ultimately show ?thesis using False r y hi by (auto simp: fls_ok_def fls_step_def s)
  next
    case True
    with zero have z: "\<forall>j. r \<le> j + n \<longrightarrow> \<not> bit x j" by blast
    with i have "i < r - n" by (meson less_diff_conv not_le)
    moreover have "push_bit n y = push_bit (32 - (r - n)) x"
      using r \<open>i < r - n\<close> by (simp add: y push_bit_push_bit algebra_simps)
    ultimately show ?thesis
      using True r z i by (auto simp: fls_ok_def fls_step_def s)
  qed
qed

lemma high_mask_zero_iff:
  "n \<le> 32 \<Longrightarrow> x AND push_bit (32 - n) (mask n) = 0 \<longleftrightarrow> (\<forall>j < 32. 32 - n \<le> j \<longrightarrow> \<not> bit x j)"
  for x :: u32
  by (auto simp: bit_eq_iff bit_and_iff bit_push_bit_iff bit_mask_iff)

lemma fls_step_mask:
  "(if x AND 0xffff0000 = 0 then (r - 16, push_bit 16 x) else (r, x)) = fls_step 16 (r, x)"
  "(if x AND 0xff000000 = 0 then (r - 8, push_bit 8 x) else (r, x)) = fls_step 8 (r, x)"
  "(if x AND 0xf0000000 = 0 then (r - 4, push_bit 4 x) else (r, x)) = fls_step 4 (r, x)"
  "(if x AND 0xc0000000 = 0 then (r - 2, push_bit 2 x) else (r, x)) = fls_step 2 (r, x)"
  "(if x AND 0x80000000 = 0 then (r - 1, push_bit 1 x) else (r, x)) = fls_step 1 (r, x)"
  using high_mask_zero_iff[of 16 x] high_mask_zero_iff[of 8 x] high_mask_zero_iff[of 4 x]
    high_mask_zero_iff[of 2 x] high_mask_zero_iff[of 1 x]
  by (auto simp: fls_step_def mask_eq_exp_minus_1)

lemma c_fls_steps:
  "x \<noteq> 0 \<Longrightarrow> c_fls x = fst (fls_step 1 (fls_step 2 (fls_step 4 (fls_step 8 (fls_step 16 (32, x))))))"
  unfolding c_fls_def Let_def fls_step_mask by (simp only: case_prod_beta prod.collapse if_False)

lemma c_fls_ok:
  assumes "x \<noteq> 0"
  shows "fls_ok x 1 (fls_step 1 (fls_step 2 (fls_step 4 (fls_step 8 (fls_step 16 (32, x))))))"
proof -
  have "take_bit 32 x \<noteq> 0" using assms by (simp add: take_bit_word_eq_self)
  then have "\<exists>j < 32. bit x j" by (simp add: take_bit_zero_iff)
  moreover have "\<not> bit x j" if "32 \<le> j" for j using that bit_imp_le_length[of x j] by fastforce
  ultimately have "fls_ok x 32 (32, x)" by (auto simp: fls_ok_def)
  then show ?thesis
    by (intro fls_step_ok[of x 1, unfolded one_add_one] fls_step_ok[of x 2, simplified]
        fls_step_ok[of x 4, simplified] fls_step_ok[of x 8, simplified]
        fls_step_ok[of x 16, simplified]) simp_all
qed

lemma c_fls_greatest:
  assumes "x \<noteq> 0"
  shows "1 \<le> c_fls x" "c_fls x \<le> 32" "bit x (c_fls x - 1)" "\<And>j. c_fls x \<le> j \<Longrightarrow> \<not> bit x j"
  using c_fls_ok[OF assms] unfolding fls_ok_def c_fls_steps[OF assms]
  by (auto simp del: One_nat_def) (metis add_diff_cancel_right' le_antisym less_eq_Suc_le Suc_eq_plus1)+

section \<open>Byte order\<close>

definition be32_to_cpu :: "u32 \<Rightarrow> u32" where
  "be32_to_cpu val =
     (let c1 = drop_bit 24 val AND 0xff;
          c2 = drop_bit 16 val AND 0xff;
          c3 = drop_bit 8 val AND 0xff;
          c4 = val AND 0xff
      in c1 OR push_bit 8 c2 OR push_bit 16 c3 OR push_bit 24 c4)"

definition be64_to_cpu :: "u64 \<Rightarrow> u64" where
  "be64_to_cpu val =
     (let c1 = drop_bit 56 val AND 0xff;
          c2 = drop_bit 48 val AND 0xff;
          c3 = drop_bit 40 val AND 0xff;
          c4 = drop_bit 32 val AND 0xff;
          c5 = drop_bit 24 val AND 0xff;
          c6 = drop_bit 16 val AND 0xff;
          c7 = drop_bit 8 val AND 0xff;
          c8 = val AND 0xff
      in c1 OR push_bit 8 c2 OR push_bit 16 c3 OR push_bit 24 c4 OR push_bit 32 c5 OR
         push_bit 40 c6 OR push_bit 48 c7 OR push_bit 56 c8)"

lemma bit_byte_at:
  "bit (push_bit d (drop_bit e val AND 0xff)) n \<longleftrightarrow> n < LENGTH('a) \<and> d \<le> n \<and> n < d + 8 \<and> bit val (e + (n - d))"
  for val :: "'a::len word"
  by (auto simp: byte_mask bit_push_bit_iff bit_and_iff bit_drop_bit_eq bit_mask_iff
      dest: bit_imp_le_length)

lemma bit_byte_low:
  "bit (drop_bit e val AND 0xff) n \<longleftrightarrow> n < LENGTH('a) \<and> n < 8 \<and> bit val (e + n)"
  "bit (push_bit d (val AND 0xff)) n \<longleftrightarrow> n < LENGTH('a) \<and> d \<le> n \<and> n < d + 8 \<and> bit val (n - d)"
  for val :: "'a::len word"
  using bit_byte_at[of 0 e val n] bit_byte_at[of d 0 val n] by (simp_all del: push_bit_and)

lemma byte_index:
  assumes "(n::nat) < 8 * k"
  obtains q r where "n = 8 * q + r" "n div 8 = q" "n mod 8 = r" "r < 8" "q < k"
  using assms by (metis less_mult_imp_div_less mod_less_divisor mult.commute
      mult_div_mod_eq zero_less_numeral)

lemma bit_be32_to_cpu: "n < 32 \<Longrightarrow> bit (be32_to_cpu val) n = bit val (8 * (3 - n div 8) + n mod 8)"
proof -
  assume "n < 32"
  then obtain q r where q: "n = 8 * q + r" "n div 8 = q" "n mod 8 = r" "r < 8" "q < 4"
    using byte_index[of n 4] by auto
  from \<open>q < 4\<close> have "q = 0 \<or> q = 1 \<or> q = 2 \<or> q = 3" by linarith
  with q(1,4) show ?thesis unfolding q(2,3)
    unfolding be32_to_cpu_def Let_def bit_or_iff bit_byte_at bit_byte_low by (elim disjE) (simp_all add: bit_drop_bit_eq)
qed

lemma bit_be64_to_cpu: "n < 64 \<Longrightarrow> bit (be64_to_cpu val) n = bit val (8 * (7 - n div 8) + n mod 8)"
proof -
  assume "n < 64"
  then obtain q r where q: "n = 8 * q + r" "n div 8 = q" "n mod 8 = r" "r < 8" "q < 8"
    using byte_index[of n 8] by auto
  from \<open>q < 8\<close> have "q = 0 \<or> q = 1 \<or> q = 2 \<or> q = 3 \<or> q = 4 \<or> q = 5 \<or> q = 6 \<or> q = 7" by linarith
  with q(1,4) show ?thesis unfolding q(2,3)
    unfolding be64_to_cpu_def Let_def bit_or_iff bit_byte_at bit_byte_low by (elim disjE) (simp_all add: bit_drop_bit_eq)
qed

lemma byte_reverse_index:
  assumes "(n::nat) < 8 * k"
  shows "8 * (k - 1 - n div 8) + n mod 8 < 8 * k"
    and "8 * (k - 1 - (8 * (k - 1 - n div 8) + n mod 8) div 8) + (8 * (k - 1 - n div 8) + n mod 8) mod 8 = n"
proof -
  from assms obtain q r where q: "n = 8 * q + r" "n div 8 = q" "n mod 8 = r" "r < 8" "q < k"
    by (rule byte_index)
  then show "8 * (k - 1 - n div 8) + n mod 8 < 8 * k" by simp
  from q(4) have d: "(8 * (k - 1 - q) + r) div 8 = k - 1 - q" "(8 * (k - 1 - q) + r) mod 8 = r"
    by simp_all
  show "8 * (k - 1 - (8 * (k - 1 - n div 8) + n mod 8) div 8) + (8 * (k - 1 - n div 8) + n mod 8) mod 8 = n"
    unfolding q(2,3) d using q(1,5) by simp
qed

lemma be32_to_cpu_twice: "be32_to_cpu (be32_to_cpu val) = val"
proof (rule bit_word_eqI)
  fix n assume "n < LENGTH(32)"
  then have n: "n < 32" by simp
  have "8 * (3 - n div 8) + n mod 8 < 32"
    using byte_reverse_index(1)[of n 4] n by simp
  then show "bit (be32_to_cpu (be32_to_cpu val)) n = bit val n"
    using byte_reverse_index(2)[of n 4] n by (simp add: bit_be32_to_cpu del: div_mult_self4 mod_mult_self4)
qed

lemma be64_to_cpu_twice: "be64_to_cpu (be64_to_cpu val) = val"
proof (rule bit_word_eqI)
  fix n assume "n < LENGTH(64)"
  then have n: "n < 64" by simp
  have "8 * (7 - n div 8) + n mod 8 < 64"
    using byte_reverse_index(1)[of n 8] n by simp
  then show "bit (be64_to_cpu (be64_to_cpu val)) n = bit val n"
    using byte_reverse_index(2)[of n 8] n by (simp add: bit_be64_to_cpu del: div_mult_self4 mod_mult_self4)
qed

end
