(* ===== verification/Fifo.thy ===== *)
theory Fifo
  imports Bits_Lib "HOL-Library.Monad_Syntax"
begin

text \<open>
  The byte ring of \<open>fifo.c\<close> and \<open>fifo.h\<close>, and the reader of \<open>blktrace.c\<close> that is
  built on it (\<open>refill_fifo\<close>, \<open>trace_fifo_get\<close>, \<open>discard_pdu\<close>).

  The indices \<open>in\<close> and \<open>out\<close> are free running 32 bit counters, the position in the
  buffer is the counter masked with \<open>size - 1\<close>. An operation returns \<open>None\<close> when a
  \<open>memcpy\<close> would leave one of its objects. A \<open>NULL\<close> buffer is the empty block.
\<close>

section \<open>Operations\<close>

record fifo =
  f_buffer :: bytes
  f_size :: u32
  f_in :: u32
  f_out :: u32

definition fifo_alloc :: "bool \<Rightarrow> bytes option \<Rightarrow> u32 \<Rightarrow> fifo option" where
  "fifo_alloc have_fifo malloc_buffer sz =
     (if \<not> have_fifo then None
      else Some \<lparr>f_buffer = (case malloc_buffer of None \<Rightarrow> [] | Some b \<Rightarrow> b),
                 f_size = sz, f_in = 0, f_out = 0\<rparr>)"

definition fifo_len :: "fifo \<Rightarrow> u32" where
  "fifo_len fifo = f_in fifo - f_out fifo"

definition fifo_room :: "fifo \<Rightarrow> u32" where
  "fifo_room fifo = f_size fifo - f_in fifo + f_out fifo"

definition fifo_put :: "fifo \<Rightarrow> bytes \<Rightarrow> u32 \<Rightarrow> (u32 \<times> fifo) option" where
  "fifo_put fifo buffer len0 = do {
     let len = word_min len0 (fifo_room fifo);
     let pos = f_in fifo AND (f_size fifo - 1);
     let l = word_min len (f_size fifo - pos);
     src1 \<leftarrow> mem_read buffer 0 (unat l);
     b1 \<leftarrow> mem_write (f_buffer fifo) (unat pos) src1;
     src2 \<leftarrow> mem_read buffer (unat l) (unat (len - l));
     b2 \<leftarrow> mem_write b1 0 src2;
     Some (len, fifo\<lparr>f_buffer := b2, f_in := f_in fifo + len\<rparr>)
   }"

definition fifo_copy_out :: "fifo \<Rightarrow> bytes \<Rightarrow> u32 \<Rightarrow> bytes option" where
  "fifo_copy_out fifo buf len = do {
     let pos = f_out fifo AND (f_size fifo - 1);
     let l = word_min len (f_size fifo - pos);
     src1 \<leftarrow> mem_read (f_buffer fifo) (unat pos) (unat l);
     buf1 \<leftarrow> mem_write buf 0 src1;
     src2 \<leftarrow> mem_read (f_buffer fifo) 0 (unat (len - l));
     mem_write buf1 (unat l) src2
   }"

definition fifo_get :: "fifo \<Rightarrow> bytes option \<Rightarrow> u32 \<Rightarrow> (u32 \<times> bytes option \<times> fifo) option" where
  "fifo_get fifo buf len0 = do {
     let len = word_min len0 (f_in fifo - f_out fifo);
     buf' \<leftarrow> (case buf of None \<Rightarrow> Some None | Some b \<Rightarrow> map_option Some (fifo_copy_out fifo b len));
     let fifo1 = fifo\<lparr>f_out := f_out fifo + len\<rparr>;
     let fifo2 = (if f_in fifo1 = f_out fifo1 then fifo1\<lparr>f_in := 0, f_out := 0\<rparr> else fifo1);
     Some (len, buf', fifo2)
   }"

section \<open>The ring in natural numbers\<close>

lemma ring_index: "p < S \<Longrightarrow> j < S \<Longrightarrow> (p + j) mod S = (if p + j < S then p + j else p + j - (S::nat))"
  by (simp add: mod_if)

lemma ring_index_inj:
  assumes "(p + i) mod S = (p + j) mod S" "i < S" "j < (S::nat)"
  shows "i = j"
proof -
  define q where "q = p mod S"
  have "(q + i) mod S = (q + j) mod S" "q < S"
    using assms by (simp_all add: q_def mod_add_left_eq)
  then show ?thesis using assms(2,3) by (auto simp: ring_index split: if_splits)
qed

lemma ring_write:
  assumes "p < S" "length b = S" "L \<le> length src" "L \<le> S" and l: "l = min L (S - p)"
    and b1: "mem_write b p (take l src) = Some b1"
    and b2: "mem_write b1 0 (take (L - l) (drop l src)) = Some b2"
  shows "length b2 = S"
    and "j < L \<Longrightarrow> b2 ! ((p + j) mod S) = src ! j"
    and "i < S \<Longrightarrow> (\<And>j. j < L \<Longrightarrow> i \<noteq> (p + j) mod S) \<Longrightarrow> b2 ! i = b ! i"
proof -
  have len: "length b1 = S" "length b2 = S"
    using mem_write_length[OF b1] mem_write_length[OF b2] assms(2) by simp_all
  then show "length b2 = S" by simp
  have lL: "l \<le> L" "length (take l src) = l" "length (take (L - l) (drop l src)) = L - l"
    using assms(3) l by simp_all
  have b1_nth: "b1 ! i = (if p \<le> i \<and> i < p + l then src ! (i - p) else b ! i)" if "i < S" for i
    using mem_write_nth[OF b1, of i] that assms(2) lL(2) by auto
  have b2_nth: "b2 ! i = (if i < L - l then src ! (l + i) else b1 ! i)" if "i < S" for i
    using mem_write_nth[OF b2, of i] that len lL assms(3) by simp
  show "b2 ! ((p + j) mod S) = src ! j" if "j < L"
    using that assms(1,4) l by (auto simp: ring_index b2_nth b1_nth)
  show "b2 ! i = b ! i" if "i < S" and no: "\<And>j. j < L \<Longrightarrow> i \<noteq> (p + j) mod S"
  proof -
    have "\<not> (p \<le> i \<and> i < p + l)"
    proof
      assume "p \<le> i \<and> i < p + l"
      then have "i - p < L" "(p + (i - p)) mod S = i" using that(1) lL(1) by auto
      with no[of "i - p"] show False by simp
    qed
    moreover have "\<not> i < L - l"
    proof
      assume i: "i < L - l"
      then have l': "l = S - p" "l + i < L" using l by (auto simp: min_def split: if_splits)
      then have "(p + (l + i)) mod S = i" using assms(1,4) that(1) by simp
      with no[of "l + i"] l'(2) show False by simp
    qed
    ultimately show ?thesis using b2_nth[OF that(1)] b1_nth[OF that(1)] by auto
  qed
qed

lemma ring_append:
  assumes "p = (out + D) mod S" "D + n \<le> S" "0 < S" "n \<le> length src"
    and new: "\<And>j. j < n \<Longrightarrow> b2 ! ((p + j) mod S) = src ! j"
    and old: "\<And>i. i < S \<Longrightarrow> (\<And>j. j < n \<Longrightarrow> i \<noteq> (p + j) mod S) \<Longrightarrow> b2 ! i = b ! i"
  shows "map (\<lambda>i. b2 ! ((out + i) mod S)) [0..<D + n] = map (\<lambda>i. b ! ((out + i) mod S)) [0..<D] @ take n src"
proof (rule nth_equalityI)
  have pj: "(p + j) mod S = (out + (D + j)) mod S" for j
    by (simp add: assms(1) mod_add_left_eq add.assoc)
  fix i assume "i < length (map (\<lambda>i. b2 ! ((out + i) mod S)) [0..<D + n])"
  then have i: "i < D + n" by simp
  show "map (\<lambda>i. b2 ! ((out + i) mod S)) [0..<D + n] ! i
      = (map (\<lambda>i. b ! ((out + i) mod S)) [0..<D] @ take n src) ! i"
  proof (cases "i < D")
    case True
    have "(out + i) mod S \<noteq> (p + j) mod S" if "j < n" for j
      using ring_index_inj[of out i S "D + j"] True that assms(2) by (auto simp: pj)
    then have "b2 ! ((out + i) mod S) = b ! ((out + i) mod S)" using assms(3) by (intro old) simp_all
    with True show ?thesis by (simp add: nth_append)
  next
    case False
    with i have "b2 ! ((out + i) mod S) = src ! (i - D)" using new[of "i - D"] unfolding pj by simp
    with False i show ?thesis by (simp add: nth_append)
  qed
qed (use assms(4) in simp)

lemma ring_read:
  assumes "p < S" "length b = S" "L \<le> S" and l: "l = min L (S - p)"
  shows "take l (drop p b) @ take (L - l) b = map (\<lambda>j. b ! ((p + j) mod S)) [0..<L]"
  by (rule nth_equalityI) (use assms in \<open>auto simp: nth_append ring_index add.commute\<close>)

section \<open>Invariant and abstraction\<close>

definition fifo_inv :: "fifo \<Rightarrow> bool" where
  "fifo_inv fifo \<longleftrightarrow> is_power_of_2 (f_size fifo) \<and> length (f_buffer fifo) = unat (f_size fifo) \<and>
     fifo_len fifo \<le> f_size fifo"

definition fifo_contents :: "fifo \<Rightarrow> bytes" where
  "fifo_contents fifo = map (\<lambda>i. f_buffer fifo ! ((unat (f_out fifo) + i) mod unat (f_size fifo)))
     [0..<unat (fifo_len fifo)]"

abbreviation fifo_cap :: "fifo \<Rightarrow> nat" where
  "fifo_cap fifo \<equiv> unat (f_size fifo)"

lemma length_fifo_contents [simp]: "length (fifo_contents fifo) = unat (fifo_len fifo)"
  by (simp add: fifo_contents_def)

lemma fifo_invD:
  assumes "fifo_inv fifo"
  shows "0 < fifo_cap fifo" "length (f_buffer fifo) = fifo_cap fifo"
    "unat (fifo_len fifo) \<le> fifo_cap fifo" "fifo_cap fifo dvd 2 ^ 32"
    "\<And>x. unat (x AND (f_size fifo - 1)) = unat x mod fifo_cap fifo"
proof -
  obtain k where k: "k < 32" "f_size fifo = 2 ^ k"
    using assms by (auto simp: fifo_inv_def elim: is_power_of_2_D)
  then have cap: "fifo_cap fifo = 2 ^ k" by (simp add: unat_power_two)
  then show "0 < fifo_cap fifo" "fifo_cap fifo dvd 2 ^ 32"
    using k(1) le_imp_power_dvd[of k 32 "2::nat"] by simp_all
  show "unat (x AND (f_size fifo - 1)) = unat x mod fifo_cap fifo" for x
    using word_and_mask_mod[OF k(2)] k(1) by simp
  show "length (f_buffer fifo) = fifo_cap fifo" "unat (fifo_len fifo) \<le> fifo_cap fifo"
    using assms by (simp_all add: fifo_inv_def word_le_nat_alt)
qed

lemma fifo_in_pos:
  assumes "fifo_inv fifo"
  shows "(unat (f_out fifo) + unat (fifo_len fifo)) mod fifo_cap fifo = unat (f_in fifo) mod fifo_cap fifo"
  using unat_add_mod[of "fifo_cap fifo" "f_out fifo" "fifo_len fifo"] fifo_invD(4)[OF assms]
  by (simp add: fifo_len_def)

lemma unat_fifo_room:
  assumes "fifo_inv fifo"
  shows "unat (fifo_room fifo) = fifo_cap fifo - unat (fifo_len fifo)"
proof -
  have "fifo_room fifo = f_size fifo - fifo_len fifo" by (simp add: fifo_room_def fifo_len_def)
  with assms show ?thesis by (simp add: fifo_inv_def unat_sub)
qed

lemma unat_split_len:
  fixes len sz pos :: u32
  assumes "unat pos < unat sz"
  shows "unat (word_min len (sz - pos)) = min (unat len) (unat sz - unat pos)"
    and "unat (len - word_min len (sz - pos)) = unat len - min (unat len) (unat sz - unat pos)"
proof -
  have "unat (sz - pos) = unat sz - unat pos"
    using assms by (intro unat_sub) (simp add: word_le_nat_alt)
  then show l: "unat (word_min len (sz - pos)) = min (unat len) (unat sz - unat pos)"
    by (simp add: unat_word_min)
  have "word_min len (sz - pos) \<le> len"
    by (auto simp: word_min_def)
  then show "unat (len - word_min len (sz - pos)) = unat len - min (unat len) (unat sz - unat pos)"
    using l by (simp add: unat_sub)
qed

lemma fifo_alloc_ok:
  assumes "is_power_of_2 sz" "length b = unat sz"
  obtains fifo where "fifo_alloc True (Some b) sz = Some fifo" "fifo_inv fifo"
    "fifo_contents fifo = []" "f_size fifo = sz"
  using assms by (auto simp: fifo_alloc_def fifo_inv_def fifo_contents_def fifo_len_def)

section \<open>What put and get do\<close>

lemma fifo_put_ok:
  assumes inv: "fifo_inv fifo" and src: "unat len \<le> length src"
  obtains n fifo' where "fifo_put fifo src len = Some (n, fifo')" "fifo_inv fifo'"
    "f_size fifo' = f_size fifo"
    "unat n = min (unat len) (fifo_cap fifo - unat (fifo_len fifo))"
    "fifo_contents fifo' = fifo_contents fifo @ take (unat n) src"
proof -
  define n where "n = word_min len (fifo_room fifo)"
  define pos where "pos = f_in fifo AND (f_size fifo - 1)"
  define l where "l = word_min n (f_size fifo - pos)"
  define S where "S = fifo_cap fifo"
  note I = fifo_invD[OF inv, folded S_def]
  have n: "unat n = min (unat len) (S - unat (fifo_len fifo))"
    by (simp add: n_def unat_word_min unat_fifo_room[OF inv] S_def)
  have pos: "unat pos = unat (f_in fifo) mod S" "unat pos < S" by (simp_all add: pos_def I)
  have l: "unat l = min (unat n) (S - unat pos)" "unat (n - l) = unat n - unat l"
    using unat_split_len[of pos "f_size fifo" n] pos(2) by (simp_all add: l_def S_def)
  have nS: "unat n \<le> S" "unat n \<le> length src" using n src by simp_all
  obtain b1 where b1: "mem_write (f_buffer fifo) (unat pos) (take (unat l) src) = Some b1"
    using l(1) pos(2) I(2) by simp
  have "length b1 = S" using mem_write_length[OF b1] I(2) by simp
  then obtain b2 where b2: "mem_write b1 0 (take (unat n - unat l) (drop (unat l) src)) = Some b2"
    using nS by simp
  note W = ring_write[OF pos(2) I(2) nS(2,1) l(1) b1 b2]
  define fifo' where "fifo' = fifo\<lparr>f_buffer := b2, f_in := f_in fifo + n\<rparr>"
  have put: "fifo_put fifo src len = Some (n, fifo')"
    using b1 b2 l nS unfolding fifo_put_def fifo'_def
    by (simp add: n_def[symmetric] pos_def[symmetric] l_def[symmetric] Let_def)
  have "fifo_len fifo' = fifo_len fifo + n" by (simp add: fifo_len_def fifo'_def)
  moreover have Dn: "unat (fifo_len fifo) + unat n \<le> S" using n I(3) by simp
  moreover have "S < 2 ^ 32" using unat_lt[of "f_size fifo"] by (simp add: S_def)
  ultimately have len': "unat (fifo_len fifo') = unat (fifo_len fifo) + unat n"
    by (simp add: unat_word_ariths)
  have inv': "fifo_inv fifo'"
    using inv len' Dn I(2) W(1) by (simp add: fifo_inv_def fifo'_def word_le_nat_alt S_def)
  have "fifo_contents fifo' = fifo_contents fifo @ take (unat n) src"
    unfolding fifo_contents_def len' using ring_append[OF _ Dn I(1) nS(2) W(2,3)] fifo_in_pos[OF inv] pos(1)
    by (simp add: S_def fifo'_def)
  with put inv' n show ?thesis
    by (intro that[of n fifo']) (simp_all add: fifo'_def S_def)
qed

lemma fifo_copy_out_ok:
  assumes inv: "fifo_inv fifo" and n: "unat n \<le> unat (fifo_len fifo)" and buf: "unat n \<le> length buf"
  shows "fifo_copy_out fifo buf n = Some (take (unat n) (fifo_contents fifo) @ drop (unat n) buf)"
proof -
  define pos where "pos = f_out fifo AND (f_size fifo - 1)"
  define l where "l = word_min n (f_size fifo - pos)"
  define S where "S = fifo_cap fifo"
  note I = fifo_invD[OF inv, folded S_def]
  have pos: "unat pos = unat (f_out fifo) mod S" "unat pos < S" by (simp_all add: pos_def I)
  have l: "unat l = min (unat n) (S - unat pos)" "unat (n - l) = unat n - unat l"
    using unat_split_len[of pos "f_size fifo" n] pos(2) by (simp_all add: l_def S_def)
  have nS: "unat n \<le> S" using n I(3) by simp
  have "take (unat n) (fifo_contents fifo)
      = map (\<lambda>j. f_buffer fifo ! ((unat pos + j) mod S)) [0..<unat n]"
    using n by (simp add: fifo_contents_def take_map take_upt pos S_def mod_add_left_eq)
  also have "\<dots> = take (unat l) (drop (unat pos) (f_buffer fifo)) @ take (unat n - unat l) (f_buffer fifo)"
    using ring_read[OF pos(2) I(2) nS l(1)] by simp
  finally show ?thesis
    using l nS I(2) buf pos(2) unfolding fifo_copy_out_def Let_def
    by (simp add: pos_def[symmetric] l_def[symmetric])
qed

lemma fifo_contents_advance:
  assumes inv: "fifo_inv fifo" and n: "unat n \<le> unat (fifo_len fifo)"
  defines "fifo1 \<equiv> fifo\<lparr>f_out := f_out fifo + n\<rparr>"
  shows "fifo_inv fifo1" and "fifo_contents fifo1 = drop (unat n) (fifo_contents fifo)"
proof -
  have "fifo_len fifo1 = fifo_len fifo - n" by (simp add: fifo_len_def fifo1_def)
  then have len1: "unat (fifo_len fifo1) = unat (fifo_len fifo) - unat n"
    using n by (simp add: unat_sub word_le_nat_alt)
  then show "fifo_inv fifo1"
    using inv by (auto simp: fifo_inv_def fifo1_def word_le_nat_alt)
  have outn: "unat (f_out fifo + n) mod fifo_cap fifo = (unat (f_out fifo) + unat n) mod fifo_cap fifo"
    using unat_add_mod[of "fifo_cap fifo" "f_out fifo" n] fifo_invD(4)[OF inv] by simp
  have "(unat (f_out fifo + n) + i) mod fifo_cap fifo = (unat (f_out fifo) + (unat n + i)) mod fifo_cap fifo" for i
    using mod_add_cong[OF outn refl, of i] by (simp only: add.assoc)
  then show "fifo_contents fifo1 = drop (unat n) (fifo_contents fifo)"
    using len1 by (intro nth_equalityI) (simp_all add: fifo_contents_def fifo1_def less_diff_conv add.commute)
qed

lemma fifo_get_ok:
  assumes inv: "fifo_inv fifo" and buf: "\<And>b. buf = Some b \<Longrightarrow> unat len \<le> length b"
  obtains n fifo' where
    "fifo_get fifo buf len
      = Some (n, map_option (\<lambda>b. take (unat n) (fifo_contents fifo) @ drop (unat n) b) buf, fifo')"
    "fifo_inv fifo'" "f_size fifo' = f_size fifo" "unat n = min (unat len) (unat (fifo_len fifo))"
    "fifo_contents fifo' = drop (unat n) (fifo_contents fifo)"
proof -
  define n where "n = word_min len (fifo_len fifo)"
  define fifo1 where "fifo1 = fifo\<lparr>f_out := f_out fifo + n\<rparr>"
  define fifo' where "fifo' = (if f_in fifo1 = f_out fifo1 then fifo1\<lparr>f_in := 0, f_out := 0\<rparr> else fifo1)"
  have n: "unat n = min (unat len) (unat (fifo_len fifo))" by (simp add: n_def unat_word_min)
  have adv: "fifo_inv fifo1" "fifo_contents fifo1 = drop (unat n) (fifo_contents fifo)"
    using fifo_contents_advance[OF inv, of n] n by (simp_all add: fifo1_def)
  then have "fifo_inv fifo'" "fifo_contents fifo' = fifo_contents fifo1" "f_size fifo' = f_size fifo"
    by (simp_all add: fifo'_def fifo1_def fifo_inv_def fifo_contents_def fifo_len_def)
  moreover have "fifo_get fifo buf len
      = Some (n, map_option (\<lambda>b. take (unat n) (fifo_contents fifo) @ drop (unat n) b) buf, fifo')"
    using fifo_copy_out_ok[OF inv, of n] n buf
    unfolding fifo_get_def Let_def fifo_len_def[symmetric] n_def[symmetric] fifo1_def[symmetric] fifo'_def[symmetric]
    by (cases buf) simp_all
  ultimately show ?thesis using that n adv(2) by simp
qed

section \<open>The interface of a byte queue\<close>

datatype queue_op = Put bytes | Get u32

fun queue_run :: "('q \<Rightarrow> bytes \<Rightarrow> u32 \<Rightarrow> (u32 \<times> 'q) option) \<Rightarrow>
    ('q \<Rightarrow> bytes option \<Rightarrow> u32 \<Rightarrow> (u32 \<times> bytes option \<times> 'q) option) \<Rightarrow>
    queue_op list \<Rightarrow> 'q \<Rightarrow> (bytes \<times> bytes \<times> 'q) option" where
  "queue_run put get [] q = Some ([], [], q)"
| "queue_run put get (Put src # ops) q = do {
     (n, q1) \<leftarrow> put q src (of_nat (length src));
     (acc, del, q2) \<leftarrow> queue_run put get ops q1;
     Some (take (unat n) src @ acc, del, q2) }"
| "queue_run put get (Get k # ops) q = do {
     (n, buf, q1) \<leftarrow> get q (Some (replicate (unat k) 0)) k;
     (acc, del, q2) \<leftarrow> queue_run put get ops q1;
     Some (acc, take (unat n) (the buf) @ del, q2) }"

fun op_fits :: "queue_op \<Rightarrow> bool" where
  "op_fits (Put src) \<longleftrightarrow> length src < 2 ^ 32"
| "op_fits (Get _) \<longleftrightarrow> True"

locale byte_queue =
  fixes put :: "'q \<Rightarrow> bytes \<Rightarrow> u32 \<Rightarrow> (u32 \<times> 'q) option"
    and get :: "'q \<Rightarrow> bytes option \<Rightarrow> u32 \<Rightarrow> (u32 \<times> bytes option \<times> 'q) option"
    and room :: "'q \<Rightarrow> u32"
    and qinv :: "'q \<Rightarrow> bool"
    and contents :: "'q \<Rightarrow> bytes"
    and cap :: "'q \<Rightarrow> nat"
  assumes room_law: "qinv q \<Longrightarrow> unat (room q) = cap q - length (contents q)"
    and bounded: "qinv q \<Longrightarrow> length (contents q) \<le> cap q"
    and put_law: "qinv q \<Longrightarrow> unat k \<le> length src \<Longrightarrow>
      \<exists>n q'. put q src k = Some (n, q') \<and> qinv q' \<and> cap q' = cap q \<and>
        unat n = min (unat k) (cap q - length (contents q)) \<and>
        contents q' = contents q @ take (unat n) src"
    and get_law: "qinv q \<Longrightarrow> (\<And>b. buf = Some b \<Longrightarrow> unat k \<le> length b) \<Longrightarrow>
      \<exists>n q'. get q buf k
            = Some (n, map_option (\<lambda>b. take (unat n) (contents q) @ drop (unat n) b) buf, q') \<and>
        qinv q' \<and> cap q' = cap q \<and> unat n = min (unat k) (length (contents q)) \<and>
        contents q' = drop (unat n) (contents q)"
begin

lemma put_within_room:
  assumes "qinv q" "unat k = length src" "k \<le> room q"
  shows "\<exists>q'. put q src k = Some (k, q') \<and> qinv q' \<and> cap q' = cap q \<and> contents q' = contents q @ src"
proof -
  obtain n q' where q': "put q src k = Some (n, q')" "qinv q'" "cap q' = cap q"
    "unat n = min (unat k) (cap q - length (contents q))" "contents q' = contents q @ take (unat n) src"
    using put_law[of q k src] assms by auto
  moreover have "unat n = unat k" using q'(4) room_law[OF assms(1)] assms(3) by (simp add: word_le_nat_alt)
  then have "n = k" by (simp add: word_unat_eq_iff)
  ultimately show ?thesis using assms(2) by auto
qed

lemma run_fifo_order:
  assumes "qinv q" "\<forall>op \<in> set ops. op_fits op"
  shows "\<exists>acc del q'. queue_run put get ops q = Some (acc, del, q') \<and> qinv q' \<and> cap q' = cap q \<and>
    contents q @ acc = del @ contents q'"
  using assms
proof (induction ops arbitrary: q)
  case (Cons op ops)
  show ?case
  proof (cases op)
    case (Put src)
    then have "unat (of_nat (length src) :: u32) = length src" using Cons.prems(2) by (simp add: unat_of_nat)
    then obtain n q1 where q1: "put q src (of_nat (length src)) = Some (n, q1)" "qinv q1" "cap q1 = cap q"
      "contents q1 = contents q @ take (unat n) src"
      using put_law[OF Cons.prems(1), of "of_nat (length src)" src] by auto
    with Cons.IH[of q1] Cons.prems(2) obtain acc del q' where
      "queue_run put get ops q1 = Some (acc, del, q')" "qinv q'" "cap q' = cap q1"
      "contents q1 @ acc = del @ contents q'" by auto
    with q1 show ?thesis by (simp add: Put)
  next
    case (Get k)
    obtain n q1 where q1: "get q (Some (replicate (unat k) 0)) k
        = Some (n, Some (take (unat n) (contents q) @ drop (unat n) (replicate (unat k) 0)), q1)"
      "qinv q1" "cap q1 = cap q" "unat n = min (unat k) (length (contents q))"
      "contents q1 = drop (unat n) (contents q)"
      using get_law[OF Cons.prems(1), of "Some (replicate (unat k) 0)" k] by auto
    with Cons.IH[of q1] Cons.prems(2) obtain acc del q' where
      "queue_run put get ops q1 = Some (acc, del, q')" "qinv q'" "cap q' = cap q1"
      "contents q1 @ acc = del @ contents q'" by auto
    moreover from this q1 have "contents q @ acc = take (unat n) (contents q) @ del @ contents q'"
      by (metis append.assoc append_take_drop_id)
    ultimately show ?thesis using q1 by (simp add: Get)
  qed
qed simp

end

interpretation ring: byte_queue fifo_put fifo_get fifo_room fifo_inv fifo_contents fifo_cap
proof unfold_locales
  fix q :: fifo and k :: u32 and src :: bytes and buf :: "bytes option"
  assume inv: "fifo_inv q"
  show "unat (fifo_room q) = fifo_cap q - length (fifo_contents q)"
    using unat_fifo_room[OF inv] by simp
  show "length (fifo_contents q) \<le> fifo_cap q"
    using fifo_invD(3)[OF inv] by simp
  show "\<exists>n q'. fifo_put q src k = Some (n, q') \<and> fifo_inv q' \<and> fifo_cap q' = fifo_cap q \<and>
        unat n = min (unat k) (fifo_cap q - length (fifo_contents q)) \<and>
        fifo_contents q' = fifo_contents q @ take (unat n) src" if "unat k \<le> length src"
    using fifo_put_ok[OF inv that] by (metis length_fifo_contents)
  show "\<exists>n q'. fifo_get q buf k
            = Some (n, map_option (\<lambda>b. take (unat n) (fifo_contents q) @ drop (unat n) b) buf, q') \<and>
        fifo_inv q' \<and> fifo_cap q' = fifo_cap q \<and> unat n = min (unat k) (length (fifo_contents q)) \<and>
        fifo_contents q' = drop (unat n) (fifo_contents q)"
    if "\<And>b. buf = Some b \<Longrightarrow> unat k \<le> length b"
    using fifo_get_ok[OF inv that] by (metis length_fifo_contents)
qed

section \<open>The blktrace reader\<close>

text \<open>The descriptor is a parameter: \<open>rd fd count\<close> is the outcome of \<open>read(2)\<close>, an error
  number or the bytes read, with the descriptor afterwards. \<open>ts_error\<close> is the sticky
  \<open>td->error\<close> that \<open>td_verror\<close> sets.\<close>

record 'fd trace_state =
  ts_fifo :: fifo
  ts_fd :: 'fd
  ts_error :: int

type_synonym 'fd reader = "'fd \<Rightarrow> u32 \<Rightarrow> (int + bytes) \<times> 'fd"

definition TRACE_FIFO_SIZE :: u32 where
  "TRACE_FIFO_SIZE = 8192"

definition trace_verror :: "int \<Rightarrow> 'fd trace_state \<Rightarrow> 'fd trace_state" where
  "trace_verror err ts = (if ts_error ts \<noteq> 0 then ts else ts\<lparr>ts_error := err\<rparr>)"

definition refill_fifo :: "'fd reader \<Rightarrow> 'fd trace_state \<Rightarrow> (int \<times> 'fd trace_state) option" where
  "refill_fifo rd ts = do {
     let total = TRACE_FIFO_SIZE;
     let total = (if total > fifo_room (ts_fifo ts) then fifo_room (ts_fifo ts) else total);
     case rd (ts_fd ts) total of
       (Inl errno, fd') \<Rightarrow> Some (-1, trace_verror errno (ts\<lparr>ts_fd := fd'\<rparr>))
     | (Inr buf, fd') \<Rightarrow>
         if 0 < length buf then do {
           (n, fifo') \<leftarrow> fifo_put (ts_fifo ts) buf (of_nat (length buf));
           Some (sint n, ts\<lparr>ts_fifo := fifo', ts_fd := fd'\<rparr>)
         } else Some (0, ts\<lparr>ts_fd := fd'\<rparr>)
   }"

definition trace_fifo_get ::
    "'fd reader \<Rightarrow> bytes option \<Rightarrow> u32 \<Rightarrow> 'fd trace_state \<Rightarrow> (int \<times> bytes option \<times> 'fd trace_state) option" where
  "trace_fifo_get rd buf len ts = do {
     (ret, ts1) \<leftarrow> (if fifo_len (ts_fifo ts) < len then refill_fifo rd ts else Some (0, ts));
     if ret < 0 then Some (ret, buf, ts1)
     else do {
       (n, buf', fifo') \<leftarrow> fifo_get (ts_fifo ts1) buf len;
       Some (sint n, buf', ts1\<lparr>ts_fifo := fifo'\<rparr>)
     }
   }"

definition discard_pdu :: "'fd reader \<Rightarrow> u16 \<Rightarrow> 'fd trace_state \<Rightarrow> (int \<times> 'fd trace_state) option" where
  "discard_pdu rd pdu_len ts =
     (if pdu_len = 0 then Some (0, ts)
      else do { (ret, _, ts') \<leftarrow> trace_fifo_get rd None (ucast pdu_len) ts; Some (ret, ts') })"

text \<open>What \<open>read(2)\<close> documents: never more than \<open>count\<close> bytes.\<close>

definition read_bounded :: "'fd reader \<Rightarrow> bool" where
  "read_bounded rd \<longleftrightarrow> (\<forall>fd count buf fd'. rd fd count = (Inr buf, fd') \<longrightarrow> length buf \<le> unat count)"

lemma refill_fifo_ok:
  assumes inv: "fifo_inv (ts_fifo ts)" and rd: "read_bounded rd"
  obtains ret ts' buf where "refill_fifo rd ts = Some (ret, ts')" "fifo_inv (ts_fifo ts')"
    "f_size (ts_fifo ts') = f_size (ts_fifo ts)"
    "fifo_contents (ts_fifo ts') = fifo_contents (ts_fifo ts) @ buf"
    "ret = (case fst (rd (ts_fd ts) (word_min TRACE_FIFO_SIZE (fifo_room (ts_fifo ts)))) of
              Inl _ \<Rightarrow> -1 | Inr b \<Rightarrow> int (length b))"
    "buf = (case fst (rd (ts_fd ts) (word_min TRACE_FIFO_SIZE (fifo_room (ts_fifo ts)))) of
              Inl _ \<Rightarrow> [] | Inr b \<Rightarrow> b)"
proof -
  define total where "total = word_min TRACE_FIFO_SIZE (fifo_room (ts_fifo ts))"
  have total: "(if TRACE_FIFO_SIZE > fifo_room (ts_fifo ts) then fifo_room (ts_fifo ts) else TRACE_FIFO_SIZE) = total"
    by (auto simp: total_def word_min_def)
  obtain res fd' where r: "rd (ts_fd ts) total = (res, fd')" by fastforce
  show thesis
  proof (cases res)
    case (Inl e)
    with r inv show ?thesis
      by (intro that[of "-1" "trace_verror e (ts\<lparr>ts_fd := fd'\<rparr>)" "[]"])
        (simp_all add: refill_fifo_def Let_def total total_def[symmetric] trace_verror_def)
  next
    case (Inr b)
    have b: "length b \<le> unat total" using rd r Inr unfolding read_bounded_def by blast
    have bound: "unat total \<le> 8192" by (simp add: total_def unat_word_min TRACE_FIFO_SIZE_def)
    have ub: "unat (of_nat (length b) :: u32) = length b" using b bound by (simp add: unat_of_nat)
    have room: "of_nat (length b) \<le> fifo_room (ts_fifo ts)"
      using b ub by (simp add: word_le_nat_alt total_def unat_word_min)
    obtain q' where q': "fifo_put (ts_fifo ts) b (of_nat (length b)) = Some (of_nat (length b), q')" "fifo_inv q'"
      "fifo_cap q' = fifo_cap (ts_fifo ts)" "fifo_contents q' = fifo_contents (ts_fifo ts) @ b"
      using ring.put_within_room[OF inv ub room] by blast
    have "sint (of_nat (length b) :: u32) = int (length b)"
      using b bound by (simp add: signed_of_nat signed_take_bit_int_eq_self)
    with q' r Inr inv show ?thesis
      by (cases "b = []") (auto simp: refill_fifo_def Let_def total total_def[symmetric] word_unat_eq_iff
          intro: that)
  qed
qed

lemma trace_get_count:
  assumes inv: "fifo_inv q" "f_size q = TRACE_FIFO_SIZE" and len: "unat len \<le> length b"
  shows "\<exists>n q'. fifo_get q (Some b) len
        = Some (n, Some (take (unat n) (fifo_contents q) @ drop (unat n) b), q') \<and>
      fifo_inv q' \<and> f_size q' = f_size q \<and> unat n = min (unat len) (unat (fifo_len q)) \<and>
      fifo_contents q' = drop (unat n) (fifo_contents q) \<and> sint n = int (unat n)"
proof -
  obtain n q' where g: "fifo_get q (Some b) len
        = Some (n, map_option (\<lambda>b. take (unat n) (fifo_contents q) @ drop (unat n) b) (Some b), q')"
      "fifo_inv q'" "f_size q' = f_size q" "unat n = min (unat len) (unat (fifo_len q))"
      "fifo_contents q' = drop (unat n) (fifo_contents q)"
    using fifo_get_ok[OF inv(1), of "Some b" len] len by auto
  have "sint n = int (unat n)"
    using g(4) fifo_invD(3)[OF inv(1)] inv(2)
    by (intro sint_small) (simp add: TRACE_FIFO_SIZE_def del: of_nat_unat)
  with g show ?thesis by (intro exI[of _ n] exI[of _ q']) simp
qed

section \<open>Properties\<close>

text \<open>C1: from an empty ring of a power of two size, any sequence of puts and gets runs
  without leaving an object, whatever the counters wrap to; the bytes accepted by the puts
  are exactly the bytes the gets delivered, in that order, followed by the bytes still in
  the ring, which are never more than the size.\<close>

theorem fifo_delivers_in_order:
  assumes "is_power_of_2 sz" "length b = unat sz" "\<forall>op \<in> set ops. op_fits op"
    and "fifo_alloc True (Some b) sz = Some fifo"
  shows "\<exists>acc del fifo'. queue_run fifo_put fifo_get ops fifo = Some (acc, del, fifo') \<and>
    acc = del @ fifo_contents fifo' \<and> length (fifo_contents fifo') \<le> unat sz"
proof -
  have new: "fifo_inv fifo" "fifo_contents fifo = []" "f_size fifo = sz"
    using assms(4) by (auto intro: fifo_alloc_ok[OF assms(1,2)])
  obtain acc del fifo' where run: "queue_run fifo_put fifo_get ops fifo = Some (acc, del, fifo')"
    "fifo_inv fifo'" "fifo_cap fifo' = fifo_cap fifo" "acc = del @ fifo_contents fifo'"
    using ring.run_fifo_order[OF new(1) assms(3)] new(2) by auto
  with ring.bounded[OF run(2)] new(3) show ?thesis by simp
qed

theorem fifo_delivers_in_order_witness:
  "\<exists>acc del fifo'. queue_run fifo_put fifo_get [Put [1, 2, 3], Get 2, Put [4, 5, 6], Get 9]
      \<lparr>f_buffer = [0, 0, 0, 0], f_size = 4, f_in = 0, f_out = 0\<rparr> = Some (acc, del, fifo') \<and>
    acc = del @ fifo_contents fifo' \<and> length (fifo_contents fifo') \<le> 4"
  using fifo_delivers_in_order[of 4 "[0, 0, 0, 0]" "[Put [1, 2, 3], Get 2, Put [4, 5, 6], Get 9]"
      "\<lparr>f_buffer = [0, 0, 0, 0], f_size = 4, f_in = 0, f_out = 0\<rparr>"]
  by (simp add: is_power_of_2_def fifo_alloc_def)


definition one_byte_reader :: "unit reader" where
  "one_byte_reader fd count = (if 1 \<le> count then Inr [7] else Inr [], fd)"

definition empty_trace :: "unit trace_state" where
  "empty_trace = \<lparr>ts_fifo = \<lparr>f_buffer = replicate 8192 0, f_size = 8192, f_in = 0, f_out = 0\<rparr>,
     ts_fd = (), ts_error = 0\<rparr>"


text \<open>The comments of \<open>fifo.h\<close> give the offsets as \<open>in % size\<close> and \<open>out % size\<close>; the code
  masks with \<open>size - 1\<close>. For a size that is not a power of two, which \<open>fifo_alloc\<close> accepts,
  the second byte put overwrites the first.\<close>

lemma fifo_size_three_overwrites:
  "queue_run fifo_put fifo_get [Put [1], Put [2], Get 2]
     \<lparr>f_buffer = [0, 0, 0], f_size = 3, f_in = 0, f_out = 0\<rparr>
   = Some ([1, 2], [2, 0], \<lparr>f_buffer = [2, 0, 0], f_size = 3, f_in = 0, f_out = 0\<rparr>)"
  by (simp add: fifo_put_def fifo_get_def fifo_copy_out_def fifo_room_def word_min_def mem_read_def mem_write_def)

end
