(* ===== verification/Clock.thy ===== *)
theory Clock
  imports Fio_Prelude "HOL-Library.Monad_Syntax"
begin

text \<open>
  The clock of fio (\<open>gettime.c\<close>) and the elapsed time functions (\<open>time.c\<close>). Seconds and
  microseconds are C \<open>long\<close> values and are kept as integers; the results are the unsigned
  values of the source. The time sources of the system are parameters: a reading is an
  argument of \<open>fio_gettime\<close>, and the waiting functions get the sequence of readings that
  successive calls of \<open>fio_gettime\<close> return.
\<close>

section \<open>Model\<close>

record timeval =
  tv_sec :: int
  tv_usec :: int

definition utime_since :: "timeval \<Rightarrow> timeval \<Rightarrow> u64" where
  "utime_since s e =
     (let sec = tv_sec e - tv_sec s;
          usec = tv_usec e - tv_usec s;
          (sec, usec) = (if sec > 0 \<and> usec < 0 then (sec - 1, usec + 1000000) else (sec, usec))
      in if sec < 0 \<or> sec = 0 \<and> usec < 0 then 0
         else word_of_int sec * 1000000 + word_of_int usec)"

definition mtime_since :: "timeval \<Rightarrow> timeval \<Rightarrow> u64" where
  "mtime_since s e =
     (let sec = tv_sec e - tv_sec s;
          usec = tv_usec e - tv_usec s;
          (sec, usec) = (if sec > 0 \<and> usec < 0 then (sec - 1, usec + 1000000) else (sec, usec))
      in if sec < 0 \<or> sec = 0 \<and> usec < 0 then 0
         else word_of_int sec * 1000 + word_of_int usec div 1000)"

text \<open>The clock sources, and one reading of each: the second of \<open>clock_gettime\<close> is in nanoseconds and
  the call may fail.\<close>

datatype fio_cs = CS_GTOD | CS_CGETTIME | CS_CPUCLOCK | CS_INVALID

record reading =
  r_gtod :: timeval
  r_mono :: "(int \<times> int) option"
  r_cycles :: u64

record gettime_state =
  fio_tv :: "timeval option"
  fio_clock_source :: fio_cs
  last_tv :: timeval
  last_tv_valid :: bool
  last_cycles :: u64
  cycles_per_usec :: u64

text \<open>The first part of \<open>fio_gettime\<close>: what the clock source says. An invalid source leaves the
  caller's structure as it was.\<close>

definition read_source :: "reading \<Rightarrow> timeval \<Rightarrow> gettime_state \<Rightarrow> (timeval \<times> gettime_state) option" where
  "read_source r tp st =
     (case fio_clock_source st of
        CS_GTOD \<Rightarrow> Some (r_gtod r, st)
      | CS_CGETTIME \<Rightarrow>
          (case r_mono r of
             None \<Rightarrow> None
           | Some (s, ns) \<Rightarrow> Some (\<lparr>tv_sec = s, tv_usec = ns div 1000\<rparr>, st))
      | CS_CPUCLOCK \<Rightarrow>
          (let t = (if r_cycles r < last_cycles st then last_cycles st else r_cycles r)
           in if cycles_per_usec st = 0 then None
              else let usecs = t div cycles_per_usec st
                   in Some (\<lparr>tv_sec = uint (usecs div 1000000), tv_usec = uint (usecs mod 1000000)\<rparr>,
                            st\<lparr>last_cycles := t\<rparr>))
      | CS_INVALID \<Rightarrow> Some (tp, st))"

definition fix_drift :: "timeval \<Rightarrow> timeval \<Rightarrow> timeval" where
  "fix_drift lt tp =
     (if tv_sec tp < tv_sec lt then tp\<lparr>tv_sec := tv_sec lt\<rparr>
      else if tv_sec lt = tv_sec tp \<and> tv_usec tp < tv_usec lt then tp\<lparr>tv_usec := tv_usec lt\<rparr>
      else tp)"

definition fio_gettime :: "reading \<Rightarrow> timeval \<Rightarrow> gettime_state \<Rightarrow> (timeval \<times> gettime_state) option" where
  "fio_gettime r tp st =
     (case fio_tv st of
        Some tv \<Rightarrow> Some (tv, st)
      | None \<Rightarrow> do {
          (tp, st) \<leftarrow> read_source r tp st;
          let tp = (if last_tv_valid st then fix_drift (last_tv st) tp else tp);
          Some (tp, st\<lparr>last_tv_valid := True, last_tv := tp\<rparr>)
        })"

definition fio_clock_init :: "u64 \<Rightarrow> gettime_state \<Rightarrow> gettime_state" where
  "fio_clock_init avg st = st\<lparr>last_tv_valid := False, cycles_per_usec := avg\<rparr>"

text \<open>Functions that read the clock get the readings \<open>now\<close> and the number \<open>k\<close> of the next one.\<close>

definition utime_since_now :: "(nat \<Rightarrow> timeval) \<Rightarrow> nat \<Rightarrow> timeval \<Rightarrow> u64" where
  "utime_since_now now k s = utime_since s (now k)"

definition mtime_since_now :: "(nat \<Rightarrow> timeval) \<Rightarrow> nat \<Rightarrow> timeval \<Rightarrow> u64" where
  "mtime_since_now now k s = mtime_since s (now k)"

definition time_since_now :: "(nat \<Rightarrow> timeval) \<Rightarrow> nat \<Rightarrow> timeval \<Rightarrow> u64" where
  "time_since_now now k s = mtime_since_now now k s div 1000"

definition mtime_since_genesis :: "(nat \<Rightarrow> timeval) \<Rightarrow> nat \<Rightarrow> timeval \<Rightarrow> u64" where
  "mtime_since_genesis now k genesis = mtime_since_now now k genesis"

partial_function (option) spin_loop :: "(nat \<Rightarrow> timeval) \<Rightarrow> nat \<Rightarrow> timeval \<Rightarrow> u64 \<Rightarrow> nat option" where
  "spin_loop now k start usec =
     (if utime_since_now now k start < usec then spin_loop now (k + 1) start usec else Some (k + 1))"

definition usec_spin :: "(nat \<Rightarrow> timeval) \<Rightarrow> nat \<Rightarrow> u32 \<Rightarrow> nat option" where
  "usec_spin now k usec = spin_loop now (k + 1) (now k) (ucast usec)"

text \<open>One turn of \<open>usec_sleep\<close> reads the clock before and after the system call, whose outcome for the
  request of seconds and nanoseconds is \<open>nap\<close>, and looks at \<open>terminate\<close> at the end.\<close>

definition sleep_request :: "u64 \<Rightarrow> u64 \<times> u64" where
  "sleep_request ts =
     (let sec = (if ts \<ge> 1000000 then ts div 1000000 else 0) in (sec, (ts - 1000000 * sec) * 1000))"

partial_function (option) usec_sleep ::
  "(nat \<Rightarrow> timeval) \<Rightarrow> (nat \<Rightarrow> u64 \<times> u64 \<Rightarrow> bool) \<Rightarrow> (nat \<Rightarrow> bool) \<Rightarrow> u64 \<Rightarrow> nat \<Rightarrow> u64 \<Rightarrow> nat option" where
  "usec_sleep now nap terminate gran k usec =
     (if usec < gran then usec_spin now k (ucast usec)
      else if \<not> nap k (sleep_request (usec - gran)) then Some (k + 1)
      else let ts = utime_since_now now (k + 1) (now k)
           in if ts \<ge> usec then Some (k + 2)
              else if terminate (k + 2) then Some (k + 2)
              else usec_sleep now nap terminate gran (k + 2) (usec - ts))"

fun sleep_granularity :: "(nat \<Rightarrow> timeval) \<Rightarrow> nat \<Rightarrow> nat \<Rightarrow> u64 \<Rightarrow> u64" where
  "sleep_granularity now k 0 gran = gran"
| "sleep_granularity now k (Suc i) gran =
     (let elapsed = utime_since_now now (k + 1) (now k)
      in sleep_granularity now (k + 2) i (if elapsed > gran then elapsed else gran))"

definition fio_time_init :: "(nat \<Rightarrow> timeval) \<Rightarrow> u64 \<Rightarrow> u64" where
  "fio_time_init now gran = sleep_granularity now 0 10 gran"

section \<open>Elapsed time\<close>

definition normal :: "timeval \<Rightarrow> bool" where
  "normal t \<longleftrightarrow> 0 \<le> tv_usec t \<and> tv_usec t < 1000000"

definition usecs :: "timeval \<Rightarrow> int" where
  "usecs t = tv_sec t * 1000000 + tv_usec t"

lemma uint_word_small: "0 \<le> n \<Longrightarrow> n < 2 ^ 64 \<Longrightarrow> uint (word_of_int n :: u64) = n"
  by (simp add: uint_word_of_int take_bit_int_eq_self_iff)

lemma utime_since_eq:
  assumes "normal s" "normal e"
  shows "utime_since s e = word_of_int (max 0 (usecs e - usecs s))"
proof -
  have "utime_since s e = (if usecs e < usecs s then 0 else word_of_int (usecs e - usecs s))"
    using assms by (auto simp: utime_since_def normal_def usecs_def Let_def algebra_simps)
  thus ?thesis by (simp add: max_def)
qed

lemma uint_utime_since:
  assumes "normal s" "normal e" "usecs e - usecs s < 2 ^ 64"
  shows "uint (utime_since s e) = max 0 (usecs e - usecs s)"
  using assms by (simp add: utime_since_eq uint_word_small)

lemma mtime_since_split:
  assumes "normal s" "normal e" "usecs s \<le> usecs e" "usecs e - usecs s < 2 ^ 63"
  shows "uint (mtime_since s e) = (usecs e - usecs s) div 1000"
proof -
  define sec where "sec = (if tv_usec e < tv_usec s then tv_sec e - tv_sec s - 1 else tv_sec e - tv_sec s)"
  define usec where "usec = (if tv_usec e < tv_usec s then tv_usec e - tv_usec s + 1000000 else tv_usec e - tv_usec s)"
  have d: "usecs e - usecs s = sec * 1000000 + usec" and u: "0 \<le> usec" "usec < 1000000"
    using assms(1,2) by (auto simp: sec_def usec_def usecs_def normal_def)
  have s: "0 \<le> sec" using d u assms(3) by linarith
  have m: "mtime_since s e = word_of_int sec * 1000 + word_of_int usec div 1000"
    using s assms(1,2) by (auto simp: mtime_since_def normal_def Let_def sec_def usec_def split: if_splits)
  have "word_of_int usec div (1000 :: u64) = word_of_int (usec div 1000)"
    using u by (simp add: word_div_def uint_word_small)
  with m have "mtime_since s e = word_of_int (sec * 1000 + usec div 1000)" by simp
  moreover have "0 \<le> sec * 1000 + usec div 1000" "sec * 1000 + usec div 1000 < 2 ^ 64"
    using s u d assms(4) by auto
  moreover have "(usecs e - usecs s) div 1000 = sec * 1000 + usec div 1000" using d by simp
  ultimately show ?thesis by (simp only: uint_word_small)
qed

text \<open>C: on normalised times less than 2^63 microseconds apart, \<open>utime_since\<close> is the difference in
  microseconds and zero when time went backwards, and \<open>mtime_since\<close> is the same difference in whole
  milliseconds.\<close>

theorem elapsed_time:
  assumes "normal s" "normal e" "usecs e - usecs s < 2 ^ 63"
  shows "uint (utime_since s e) = max 0 (usecs e - usecs s) \<and>
    mtime_since s e = utime_since s e div 1000"
proof -
  have u: "uint (utime_since s e) = max 0 (usecs e - usecs s)" using assms by (simp add: uint_utime_since)
  have "uint (mtime_since s e) = max 0 (usecs e - usecs s) div 1000"
  proof (cases "usecs s \<le> usecs e")
    case True
    thus ?thesis using mtime_since_split[OF assms(1,2) True assms(3)] by (simp add: max_def)
  next
    case False
    hence "mtime_since s e = 0"
      using assms(1,2) by (auto simp: mtime_since_def normal_def usecs_def Let_def)
    thus ?thesis using False by (simp add: max_def)
  qed
  hence "uint (mtime_since s e) = uint (utime_since s e div 1000)" using u by (simp add: uint_div)
  thus ?thesis using u by (simp add: word_uint_eq_iff)
qed

theorem elapsed_time_witness:
  "uint (utime_since \<lparr>tv_sec = 3, tv_usec = 900000\<rparr> \<lparr>tv_sec = 5, tv_usec = 100500\<rparr>) = 1200500"
  using elapsed_time[of "\<lparr>tv_sec = 3, tv_usec = 900000\<rparr>" "\<lparr>tv_sec = 5, tv_usec = 100500\<rparr>"]
  by (simp add: normal_def usecs_def)

section \<open>The clock\<close>

lemma usecs_less: "normal s \<Longrightarrow> normal e \<Longrightarrow> usecs s < usecs e \<longleftrightarrow> tv_sec s < tv_sec e \<or> tv_sec s = tv_sec e \<and> tv_usec s < tv_usec e"
  by (auto simp: normal_def usecs_def)

text \<open>C: after a first call, the clock never falls behind the second it has reached, but it returns a time
  before the last one exactly when both the second and the microsecond of the source fell back: the
  correction of the second keeps the microsecond of the source.\<close>

theorem fio_gettime_drift:
  assumes "fio_tv st = None" "last_tv_valid st" "normal (last_tv st)"
    and "read_source r tp st = Some (raw, st1)" "normal raw"
    and "fio_gettime r tp st = Some (t, st')"
  shows "tv_sec (last_tv st) \<le> tv_sec t \<and> last_tv st' = t \<and>
    (usecs t < usecs (last_tv st) \<longleftrightarrow> tv_sec raw < tv_sec (last_tv st) \<and> tv_usec raw < tv_usec (last_tv st))"
proof -
  have valid: "last_tv_valid st1" "last_tv st1 = last_tv st"
    using assms(2,4) by (auto simp: read_source_def Let_def split: fio_cs.splits option.splits if_splits)
  have t: "t = fix_drift (last_tv st) raw" "last_tv st' = t"
    using assms valid by (auto simp: fio_gettime_def Let_def)
  have n: "normal t" using t assms(3,5) by (simp add: fix_drift_def normal_def)
  show ?thesis
    using t usecs_less[OF n assms(3)] by (auto simp: fix_drift_def)
qed

theorem fio_gettime_drift_witness:
  "\<exists>t st'. fio_gettime \<lparr>r_gtod = \<lparr>tv_sec = 9, tv_usec = 300\<rparr>, r_mono = None, r_cycles = 0\<rparr> \<lparr>tv_sec = 0, tv_usec = 0\<rparr>
     \<lparr>fio_tv = None, fio_clock_source = CS_GTOD, last_tv = \<lparr>tv_sec = 10, tv_usec = 500\<rparr>, last_tv_valid = True,
       last_cycles = 0, cycles_per_usec = 1\<rparr> = Some (t, st') \<and> usecs t < usecs \<lparr>tv_sec = 10, tv_usec = 500\<rparr>"
proof -
  let ?r = "\<lparr>r_gtod = \<lparr>tv_sec = 9, tv_usec = 300\<rparr>, r_mono = None, r_cycles = 0\<rparr>"
  let ?st = "\<lparr>fio_tv = None, fio_clock_source = CS_GTOD, last_tv = \<lparr>tv_sec = 10, tv_usec = 500\<rparr>, last_tv_valid = True,
       last_cycles = 0, cycles_per_usec = 1\<rparr>"
  have "fio_gettime ?r \<lparr>tv_sec = 0, tv_usec = 0\<rparr> ?st = Some (\<lparr>tv_sec = 10, tv_usec = 300\<rparr>, ?st\<lparr>last_tv := \<lparr>tv_sec = 10, tv_usec = 300\<rparr>\<rparr>)"
    by (simp add: fio_gettime_def read_source_def fix_drift_def Let_def)
  thus ?thesis
    using fio_gettime_drift[of ?st ?r "\<lparr>tv_sec = 0, tv_usec = 0\<rparr>" "r_gtod ?r" ?st]
    by (simp add: read_source_def normal_def)
qed

section \<open>Waiting\<close>

definition ticking :: "(nat \<Rightarrow> timeval) \<Rightarrow> bool" where
  "ticking now \<longleftrightarrow> (\<forall>i. normal (now i) \<and> 0 < usecs (now (Suc i)) - usecs (now i) \<and> usecs (now (Suc i)) - usecs (now i) \<le> 2 ^ 40)"

lemma tickingD:
  assumes "ticking now"
  shows "normal (now i)" "usecs (now i) < usecs (now (Suc i))" "usecs (now (Suc i)) \<le> usecs (now i) + 2 ^ 40"
  using assms by (auto simp: ticking_def dest: spec[of _ i])

lemma ticking_mono: "ticking now \<Longrightarrow> i \<le> j \<Longrightarrow> usecs (now i) \<le> usecs (now j)"
  by (rule lift_Suc_mono_le[of "\<lambda>i. usecs (now i)"]) (auto dest: tickingD less_imp_le)

lemma spin_loop_ends:
  assumes "ticking now" "normal start" "uint usec < 2 ^ 32"
    and "usecs start \<le> usecs (now k)" "usecs (now k) - usecs start < 2 ^ 41"
  shows "\<exists>k'. spin_loop now k start usec = Some (Suc k') \<and> k \<le> k' \<and> uint usec \<le> usecs (now k') - usecs start"
  using assms
proof (induction "nat (uint usec - (usecs (now k) - usecs start))" arbitrary: k rule: less_induct)
  case less
  have el: "uint (utime_since_now now k start) = usecs (now k) - usecs start"
    using less.prems tickingD(1)[OF less.prems(1)] by (simp add: utime_since_now_def uint_utime_since)
  show ?case
  proof (cases "utime_since_now now k start < usec")
    case False
    thus ?thesis using el by (intro exI[of _ k]) (simp add: spin_loop.simps[of now k] word_less_def)
  next
    case True
    hence lt: "usecs (now k) - usecs start < uint usec" using el by (simp add: word_less_def)
    note tick = tickingD(2,3)[OF less.prems(1), of k]
    have "\<exists>k'. spin_loop now (Suc k) start usec = Some (Suc k') \<and> Suc k \<le> k' \<and> uint usec \<le> usecs (now k') - usecs start"
      by (rule less.hyps) (use less.prems tick lt in auto)
    thus ?thesis using True by (auto simp: spin_loop.simps[of now k])
  qed
qed

lemma usec_spin_ends:
  assumes "ticking now"
  shows "\<exists>k'. usec_spin now k usec = Some (Suc k') \<and> k \<le> k' \<and> uint usec \<le> usecs (now k') - usecs (now k)"
proof -
  have "uint usec < 2 ^ 32" using uint_bounded[of usec] by simp
  moreover from this have "uint (ucast usec :: u64) = uint usec"
    by (simp add: unsigned_ucast_eq take_bit_int_eq_self_iff)
  ultimately show ?thesis
    using spin_loop_ends[of now "now k" "ucast usec" "Suc k"] assms tickingD[OF assms, of k]
    by (fastforce simp: usec_spin_def)
qed



end
