(* ===== verification/Mutex.thy ===== *)
theory Mutex
  imports Clock
begin

text \<open>
  The process shared semaphores and reader-writer locks of \<open>mutex.c\<close>, over the pthread mutex and
  condition variable they are made of. Each operation is modelled by the code it runs while it holds
  the pthread lock: from taking the lock, or from the return of a wait, up to the next wait or the
  return. A step relation over any number of threads puts these sections together: the lock has an
  owner, a signal wakes one waiting thread, and a wait may also end without a signal.
\<close>

section \<open>Operations\<close>

record fio_mutex =
  m_value :: int
  m_waiters :: int

text \<open>The results of the calls that \<open>fio_mutex_init\<close> makes are its arguments.\<close>

definition fio_mutex_init :: "bool \<Rightarrow> int \<Rightarrow> int \<Rightarrow> int \<Rightarrow> int \<Rightarrow> fio_mutex option" where
  "fio_mutex_init mmap_ok attr_ret pshared_ret mutex_ret val =
     (if \<not> mmap_ok then None
      else let mutex = \<lparr>m_value = val, m_waiters = 0\<rparr>
           in if attr_ret \<noteq> 0 then None
              else if pshared_ret \<noteq> 0 then None
              else if mutex_ret \<noteq> 0 then None
              else Some mutex)"

definition fio_mutex_rw_init :: "bool \<Rightarrow> int \<Rightarrow> int \<Rightarrow> int \<Rightarrow> fio_mutex option" where
  "fio_mutex_rw_init mmap_ok attr_ret pshared_ret mutex_ret = fio_mutex_init mmap_ok attr_ret pshared_ret mutex_ret 0"

definition fio_mutex_getval :: "fio_mutex \<Rightarrow> int" where
  "fio_mutex_getval mutex = m_value mutex"

text \<open>How a section ends: it waits on the condition variable, which releases the lock; it unlocks and
  returns; it returns with the lock still held; or it locks the lock it already holds.\<close>

datatype outcome = Block | Ret int | Ret_locked int | Relock

definition ETIMEDOUT :: int where "ETIMEDOUT = 110"

definition mutex_timed_out :: "(nat \<Rightarrow> timeval) \<Rightarrow> nat \<Rightarrow> timeval \<Rightarrow> u32 \<Rightarrow> bool" where
  "mutex_timed_out now k t seconds \<longleftrightarrow> mtime_since_now now k t \<ge> ucast (seconds * 1000)"

text \<open>\<open>ret\<close> is what \<open>pthread_cond_timedwait\<close> returned. The first function is the loop head with what
  follows it, the second the part behind the wait.\<close>

definition fio_mutex_down_timeout :: "int \<Rightarrow> fio_mutex \<Rightarrow> fio_mutex \<times> outcome" where
  "fio_mutex_down_timeout ret mutex =
     (if m_value mutex = 0 \<and> ret = 0 then (mutex\<lparr>m_waiters := m_waiters mutex + 1\<rparr>, Block)
      else if ret = 0 then (mutex\<lparr>m_value := m_value mutex - 1\<rparr>, Ret ret)
      else (mutex, Ret_locked ret))"

definition down_timeout_wake :: "int \<Rightarrow> bool \<Rightarrow> fio_mutex \<Rightarrow> fio_mutex \<times> outcome" where
  "down_timeout_wake ret expired mutex =
     (if ret = ETIMEDOUT \<and> \<not> expired then (mutex, Relock)
      else fio_mutex_down_timeout ret (mutex\<lparr>m_waiters := m_waiters mutex - 1\<rparr>))"

definition fio_mutex_down :: "fio_mutex \<Rightarrow> fio_mutex \<times> outcome" where
  "fio_mutex_down mutex =
     (if m_value mutex = 0 then (mutex\<lparr>m_waiters := m_waiters mutex + 1\<rparr>, Block)
      else (mutex\<lparr>m_value := m_value mutex - 1\<rparr>, Ret 0))"

definition fio_mutex_down_write :: "fio_mutex \<Rightarrow> fio_mutex \<times> outcome" where
  "fio_mutex_down_write mutex =
     (if m_value mutex \<noteq> 0 then (mutex\<lparr>m_waiters := m_waiters mutex + 1\<rparr>, Block)
      else (mutex\<lparr>m_value := m_value mutex - 1\<rparr>, Ret 0))"

definition fio_mutex_down_read :: "fio_mutex \<Rightarrow> fio_mutex \<times> outcome" where
  "fio_mutex_down_read mutex =
     (if m_value mutex < 0 then (mutex\<lparr>m_waiters := m_waiters mutex + 1\<rparr>, Block)
      else (mutex\<lparr>m_value := m_value mutex + 1\<rparr>, Ret 0))"

text \<open>The releasing operations never wait; their second result is whether they signal.\<close>

definition fio_mutex_up :: "fio_mutex \<Rightarrow> fio_mutex \<times> bool" where
  "fio_mutex_up mutex = (mutex\<lparr>m_value := m_value mutex + 1\<rparr>, m_value mutex = 0 \<and> m_waiters mutex \<noteq> 0)"

definition fio_mutex_up_read :: "fio_mutex \<Rightarrow> fio_mutex \<times> bool" where
  "fio_mutex_up_read mutex =
     (let mutex = mutex\<lparr>m_value := m_value mutex - 1\<rparr> in (mutex, m_value mutex \<ge> 0 \<and> m_waiters mutex \<noteq> 0))"

definition fio_mutex_up_write :: "fio_mutex \<Rightarrow> fio_mutex \<times> bool" where
  "fio_mutex_up_write mutex =
     (let mutex = mutex\<lparr>m_value := m_value mutex + 1\<rparr> in (mutex, m_value mutex \<ge> 0 \<and> m_waiters mutex \<noteq> 0))"

datatype acquire = Down | Down_timeout | Down_read | Down_write
datatype release = Up | Up_read | Up_write

fun enter :: "acquire \<Rightarrow> fio_mutex \<Rightarrow> fio_mutex \<times> outcome" where
  "enter Down = fio_mutex_down"
| "enter Down_timeout = fio_mutex_down_timeout 0"
| "enter Down_read = fio_mutex_down_read"
| "enter Down_write = fio_mutex_down_write"

fun resume :: "acquire \<Rightarrow> int \<Rightarrow> bool \<Rightarrow> fio_mutex \<Rightarrow> fio_mutex \<times> outcome" where
  "resume Down_timeout ret expired m = down_timeout_wake ret expired m"
| "resume a ret expired m = enter a (m\<lparr>m_waiters := m_waiters m - 1\<rparr>)"

fun leave :: "release \<Rightarrow> fio_mutex \<Rightarrow> fio_mutex \<times> bool" where
  "leave Up = fio_mutex_up"
| "leave Up_read = fio_mutex_up_read"
| "leave Up_write = fio_mutex_up_write"

fun release_of :: "acquire \<Rightarrow> release" where
  "release_of Down = Up"
| "release_of Down_timeout = Up"
| "release_of Down_read = Up_read"
| "release_of Down_write = Up_write"

section \<open>Threads\<close>

text \<open>Where a thread is: outside; about to lock for an acquiring operation; waiting on the condition
  variable; woken with the result of the wait and about to lock again; inside, after the operation
  returned zero; about to lock for the releasing operation; returned with an error; or hanging on its
  own lock.\<close>

datatype pc = Idle | Enter acquire | Waiting acquire | Woken acquire int | Inside acquire | Leave release | Failed int | Hung

record sys =
  mtx :: fio_mutex
  owner :: "nat option"
  pcs :: "nat \<Rightarrow> pc"

definition start :: "int \<Rightarrow> sys" where
  "start n = \<lparr>mtx = \<lparr>m_value = n, m_waiters = 0\<rparr>, owner = None, pcs = (\<lambda>_. Idle)\<rparr>"

fun after :: "acquire \<Rightarrow> outcome \<Rightarrow> pc" where
  "after a Block = Waiting a"
| "after a (Ret r) = (if r = 0 then Inside a else Failed r)"
| "after a (Ret_locked r) = Failed r"
| "after a Relock = Hung"

fun keeps_lock :: "outcome \<Rightarrow> bool" where
  "keeps_lock (Ret_locked r) = True"
| "keeps_lock Relock = True"
| "keeps_lock _ = False"

definition finish :: "sys \<Rightarrow> nat \<Rightarrow> acquire \<Rightarrow> fio_mutex \<times> outcome \<Rightarrow> sys" where
  "finish s t a res =
     s\<lparr>mtx := fst res, owner := (if keeps_lock (snd res) then Some t else None), pcs := (pcs s)(t := after a (snd res))\<rparr>"

text \<open>The steps of threads that use the acquiring operations \<open>ops\<close> and release what they acquired. A
  section runs in one step, since all it touches is guarded by the lock.\<close>

inductive step :: "acquire set \<Rightarrow> sys \<Rightarrow> sys \<Rightarrow> bool" for ops where
  call: "pcs s t = Idle \<Longrightarrow> a \<in> ops \<Longrightarrow> step ops s (s\<lparr>pcs := (pcs s)(t := Enter a)\<rparr>)"
| acquire: "pcs s t = Enter a \<Longrightarrow> owner s = None \<Longrightarrow> step ops s (finish s t a (enter a (mtx s)))"
| spurious: "pcs s t = Waiting a \<Longrightarrow> step ops s (s\<lparr>pcs := (pcs s)(t := Woken a 0)\<rparr>)"
| timeout: "pcs s t = Waiting Down_timeout \<Longrightarrow> r \<noteq> 0 \<Longrightarrow> step ops s (s\<lparr>pcs := (pcs s)(t := Woken Down_timeout r)\<rparr>)"
| wake: "pcs s t = Woken a r \<Longrightarrow> owner s = None \<Longrightarrow> step ops s (finish s t a (resume a r expired (mtx s)))"
| exit: "pcs s t = Inside a \<Longrightarrow> step ops s (s\<lparr>pcs := (pcs s)(t := Leave (release_of a))\<rparr>)"
| release: "pcs s t = Leave b \<Longrightarrow> owner s = None \<Longrightarrow> leave b (mtx s) = (m, False)
    \<Longrightarrow> step ops s (s\<lparr>mtx := m, pcs := (pcs s)(t := Idle)\<rparr>)"
| release_unheard: "pcs s t = Leave b \<Longrightarrow> owner s = None \<Longrightarrow> leave b (mtx s) = (m, True)
    \<Longrightarrow> (\<forall>w a. pcs s w \<noteq> Waiting a) \<Longrightarrow> step ops s (s\<lparr>mtx := m, pcs := (pcs s)(t := Idle)\<rparr>)"
| release_signal: "pcs s t = Leave b \<Longrightarrow> owner s = None \<Longrightarrow> leave b (mtx s) = (m, True)
    \<Longrightarrow> pcs s w = Waiting a \<Longrightarrow> step ops s (s\<lparr>mtx := m, pcs := (pcs s)(t := Idle, w := Woken a 0)\<rparr>)"

definition reachable :: "acquire set \<Rightarrow> int \<Rightarrow> sys \<Rightarrow> bool" where
  "reachable ops n s \<longleftrightarrow> (step ops)\<^sup>*\<^sup>* (start n) s"

section \<open>Semaphores\<close>

fun uses :: "acquire set \<Rightarrow> pc \<Rightarrow> bool" where
  "uses ops (Enter a) = (a \<in> ops)"
| "uses ops (Waiting a) = (a \<in> ops)"
| "uses ops (Woken a r) = (a \<in> ops)"
| "uses ops (Inside a) = (a \<in> ops)"
| "uses ops (Leave b) = (b \<in> release_of ` ops)"
| "uses ops _ = True"

lemma uses_after: "a \<in> ops \<Longrightarrow> uses ops (after a out)"
  by (cases "(a, out)" rule: after.cases) auto

lemma uses_step: "step ops s s' \<Longrightarrow> \<forall>t. uses ops (pcs s t) \<Longrightarrow> \<forall>t. uses ops (pcs s' t)"
proof (induction rule: step.induct)
  case (release_signal s t b m w a)
  from release_signal(5) spec[OF release_signal(5), of w] release_signal(4) show ?case by simp
next
  case (acquire s t a)
  from spec[OF acquire(3), of t] acquire show ?case by (simp add: finish_def uses_after)
next
  case (wake s t a r expired)
  from spec[OF wake(3), of t] wake show ?case by (simp add: finish_def uses_after)
next
  case (exit s t a)
  from spec[OF exit(2), of t] exit show ?case by simp
next
  case (spurious s t a)
  from spec[OF spurious(2), of t] spurious show ?case by simp
next
  case (timeout s t r)
  from spec[OF timeout(3), of t] timeout show ?case by simp
qed simp_all

fun holds :: "pc \<Rightarrow> bool" where
  "holds (Inside a) = True"
| "holds (Leave b) = True"
| "holds _ = False"

definition sem_ops :: "acquire set" where "sem_ops = {Down, Down_timeout}"

text \<open>What a section of an acquiring operation does to the value: it takes one unit and gets inside, or
  leaves the value alone and does not.\<close>

definition takes :: "fio_mutex \<Rightarrow> acquire \<Rightarrow> fio_mutex \<times> outcome \<Rightarrow> bool" where
  "takes m a res \<longleftrightarrow>
     (if holds (after a (snd res)) then m_value m \<noteq> 0 \<and> m_value (fst res) = m_value m - 1
      else m_value (fst res) = m_value m)"

lemma sem_takes: "a \<in> sem_ops \<Longrightarrow> takes m a (enter a m)" "a \<in> sem_ops \<Longrightarrow> takes m a (resume a r e m)"
  by (cases a; simp add: sem_ops_def takes_def fio_mutex_down_def fio_mutex_down_timeout_def down_timeout_wake_def)
    (cases a; simp add: sem_ops_def takes_def fio_mutex_down_def fio_mutex_down_timeout_def down_timeout_wake_def)

definition sem_inv :: "int \<Rightarrow> sys \<Rightarrow> bool" where
  "sem_inv n s \<longleftrightarrow> (\<forall>t. uses sem_ops (pcs s t)) \<and> finitely holds (pcs s) \<and>
     m_value (mtx s) + tally holds (pcs s) = n \<and> (0 \<le> n \<longrightarrow> 0 \<le> m_value (mtx s))"

lemma sem_inv_finish:
  assumes "sem_inv n s" "\<not> holds (pcs s t)" "takes (mtx s) a res" "\<forall>u. uses sem_ops (pcs (finish s t a res) u)"
  shows "sem_inv n (finish s t a res)"
  using assms by (auto simp: sem_inv_def finish_def takes_def split: if_splits)

lemma sem_inv_step:
  assumes "step sem_ops s s'" "sem_inv n s"
  shows "sem_inv n s'"
proof -
  have u: "\<forall>t. uses sem_ops (pcs s t)" and u': "\<forall>t. uses sem_ops (pcs s' t)"
    using assms uses_step by (auto simp: sem_inv_def)
  from assms(1) show ?thesis
  proof cases
    case (acquire t a)
    moreover have "a \<in> sem_ops" using acquire u[rule_format, of t] by simp
    ultimately show ?thesis using sem_inv_finish[OF assms(2)] sem_takes u' by simp
  next
    case (wake t a r expired)
    moreover have "a \<in> sem_ops" using wake u[rule_format, of t] by simp
    ultimately show ?thesis using sem_inv_finish[OF assms(2)] sem_takes u' by simp
  next
    case (release_signal t b m w a)
    have "b = Up" using release_signal u[rule_format, of t] by (auto simp: sem_ops_def)
    moreover have "t \<noteq> w" using release_signal by auto
    ultimately show ?thesis using release_signal assms(2) u'
      by (auto simp: sem_inv_def fio_mutex_up_def)
  next
    case (release t b m)
    have "b = Up" using release u[rule_format, of t] by (auto simp: sem_ops_def)
    thus ?thesis using release assms(2) u' by (auto simp: sem_inv_def fio_mutex_up_def)
  next
    case (release_unheard t b m)
    have "b = Up" using release_unheard u[rule_format, of t] by (auto simp: sem_ops_def)
    thus ?thesis using release_unheard assms(2) u' by (auto simp: sem_inv_def fio_mutex_up_def)
  qed (use assms(2) u' in \<open>auto simp: sem_inv_def\<close>)
qed

interpretation sem: invariant_system "\<lambda>s. s = start n" "step sem_ops" "sem_inv n" for n
  by unfold_locales (simp add: start_def sem_inv_def, blast intro: sem_inv_step)

text \<open>C: a semaphore that starts at \<open>n\<close> never lets more than \<open>n\<close> threads in, and its value is always \<open>n\<close> minus
  the number of threads between a successful down and the end of their up, whatever the
  interleaving, the wake-ups and the timeouts.\<close>

theorem semaphore_bound:
  assumes "0 \<le> n" "reachable sem_ops n s"
  shows "finitely holds (pcs s) \<and> tally holds (pcs s) \<le> n \<and> fio_mutex_getval (mtx s) = n - tally holds (pcs s)"
proof -
  have "sem_inv n s" by (rule sem.inv_reachable) (use assms in \<open>auto simp: reachable_def\<close>)
  thus ?thesis using assms(1) by (auto simp: sem_inv_def fio_mutex_getval_def)
qed

section \<open>Reader-writer locks\<close>

definition rw_ops :: "acquire set" where "rw_ops = {Down_read, Down_write}"

fun reads :: "pc \<Rightarrow> bool" where
  "reads (Inside Down_read) = True"
| "reads (Leave Up_read) = True"
| "reads _ = False"

fun writes :: "pc \<Rightarrow> bool" where
  "writes (Inside Down_write) = True"
| "writes (Leave Up_write) = True"
| "writes _ = False"

definition rw_inv :: "sys \<Rightarrow> bool" where
  "rw_inv s \<longleftrightarrow> (\<forall>t. uses rw_ops (pcs s t)) \<and> finitely reads (pcs s) \<and> finitely writes (pcs s) \<and>
     m_value (mtx s) = tally reads (pcs s) - tally writes (pcs s) \<and> tally writes (pcs s) \<le> 1 \<and>
     (0 < tally writes (pcs s) \<longrightarrow> tally reads (pcs s) = 0)"

definition rw_takes :: "fio_mutex \<Rightarrow> acquire \<Rightarrow> fio_mutex \<times> outcome \<Rightarrow> bool" where
  "rw_takes m a res \<longleftrightarrow>
     (if reads (after a (snd res)) then 0 \<le> m_value m \<and> m_value (fst res) = m_value m + 1 \<and> \<not> writes (after a (snd res))
      else if writes (after a (snd res)) then m_value m = 0 \<and> m_value (fst res) = - 1
      else m_value (fst res) = m_value m)"

lemma rw_takes_ops: "a \<in> rw_ops \<Longrightarrow> rw_takes m a (enter a m)" "a \<in> rw_ops \<Longrightarrow> rw_takes m a (resume a r e m)"
  by (cases a; simp add: rw_ops_def rw_takes_def fio_mutex_down_read_def fio_mutex_down_write_def)
    (cases a; simp add: rw_ops_def rw_takes_def fio_mutex_down_read_def fio_mutex_down_write_def)

lemma rw_inv_finish:
  assumes "rw_inv s" "\<not> reads (pcs s t)" "\<not> writes (pcs s t)" "rw_takes (mtx s) a res"
    and "\<forall>u. uses rw_ops (pcs (finish s t a res) u)"
  shows "rw_inv (finish s t a res)"
proof -
  have "0 \<le> tally reads (pcs s)" "0 \<le> tally writes (pcs s)" by simp_all
  thus ?thesis using assms by (auto simp: rw_inv_def finish_def rw_takes_def simp del: tally_nonneg split: if_splits)
qed

lemma rw_leave:
  assumes "rw_inv s" "pcs s t = Leave b"
  shows "b = Up_read \<and> fst (leave b (mtx s)) = (mtx s)\<lparr>m_value := m_value (mtx s) - 1\<rparr> \<and> 0 < tally reads (pcs s) \<or>
    b = Up_write \<and> fst (leave b (mtx s)) = (mtx s)\<lparr>m_value := m_value (mtx s) + 1\<rparr> \<and> 0 < tally writes (pcs s)"
proof -
  have u: "uses rw_ops (pcs s t)" using assms(1) by (simp add: rw_inv_def)
  hence "b = Up_read \<or> b = Up_write" using assms(2) by (auto simp: rw_ops_def)
  thus ?thesis
    using assms tally_pos[of reads "pcs s" t] tally_pos[of writes "pcs s" t]
    by (auto simp: rw_inv_def fio_mutex_up_read_def fio_mutex_up_write_def Let_def)
qed

lemma rw_inv_step:
  assumes "step rw_ops s s'" "rw_inv s"
  shows "rw_inv s'"
proof -
  have u: "\<forall>t. uses rw_ops (pcs s t)" and u': "\<forall>t. uses rw_ops (pcs s' t)"
    using assms uses_step by (auto simp: rw_inv_def)
  have pos: "0 \<le> tally reads (pcs s)" "0 \<le> tally writes (pcs s)" by simp_all
  from assms(1) show ?thesis
  proof cases
    case (acquire t a)
    moreover have "a \<in> rw_ops" using acquire u[rule_format, of t] by simp
    ultimately show ?thesis using rw_inv_finish[OF assms(2)] rw_takes_ops u' by simp
  next
    case (wake t a r expired)
    moreover have "a \<in> rw_ops" using wake u[rule_format, of t] by simp
    ultimately show ?thesis using rw_inv_finish[OF assms(2)] rw_takes_ops u' by simp
  next
    case (release_signal t b m w a)
    moreover have "t \<noteq> w" using release_signal by auto
    ultimately show ?thesis using rw_leave[OF assms(2), of t b] assms(2) u' by (auto simp: rw_inv_def)
  next
    case (release t b m)
    thus ?thesis using rw_leave[OF assms(2), of t b] assms(2) u' by (auto simp: rw_inv_def)
  next
    case (release_unheard t b m)
    thus ?thesis using rw_leave[OF assms(2), of t b] assms(2) u' by (auto simp: rw_inv_def)
  next
    case (exit t a)
    moreover have "a \<in> rw_ops" using exit u[rule_format, of t] by simp
    ultimately show ?thesis using assms(2) u' by (auto simp: rw_inv_def rw_ops_def)
  qed (use assms(2) u' in \<open>auto simp: rw_inv_def\<close>)
qed

interpretation rw: invariant_system "\<lambda>s. s = start 0" "step rw_ops" rw_inv
  by unfold_locales (simp add: start_def rw_inv_def, blast intro: rw_inv_step)

text \<open>C: a lock made by \<open>fio_mutex_rw_init\<close> excludes writers: while a thread is inside for writing, no
  other thread is inside for reading or for writing.\<close>

theorem rwlock_excludes:
  assumes "reachable rw_ops 0 s" "pcs s t = Inside Down_write" "pcs s u = Inside a"
  shows "u = t"
proof -
  have inv: "rw_inv s" by (rule rw.inv_reachable) (use assms(1) in \<open>auto simp: reachable_def\<close>)
  have w: "0 < tally writes (pcs s)" using inv assms(2) by (intro tally_pos[of _ _ t]) (auto simp: rw_inv_def)
  have "uses rw_ops (pcs s u)" using inv by (simp add: rw_inv_def)
  then consider "a = Down_read" | "a = Down_write" using assms(3) by (auto simp: rw_ops_def)
  thus ?thesis
  proof cases
    case 1
    hence "0 < tally reads (pcs s)" using inv assms(3) by (intro tally_pos[of _ _ u]) (auto simp: rw_inv_def)
    thus ?thesis using inv w by (simp add: rw_inv_def)
  next
    case 2
    show ?thesis using inv assms(2,3) 2 by (intro tally_le_one[of writes "pcs s"]) (auto simp: rw_inv_def)
  qed
qed

section \<open>Timeouts\<close>

fun stopped :: "pc \<Rightarrow> bool" where
  "stopped Hung = True"
| "stopped (Failed r) = True"
| "stopped _ = False"

definition owner_inv :: "sys \<Rightarrow> bool" where
  "owner_inv s \<longleftrightarrow> (\<forall>t. stopped (pcs s t) \<longleftrightarrow> owner s = Some t)"

lemma owner_inv_upd:
  assumes "owner_inv s" "\<not> stopped (pcs s t)" "\<not> stopped p"
  shows "owner_inv (s\<lparr>pcs := (pcs s)(t := p)\<rparr>)"
  using assms by (auto simp: owner_inv_def)

lemma owner_inv_mtx [simp]: "owner_inv (s\<lparr>mtx := m\<rparr>) = owner_inv s"
  by (simp add: owner_inv_def)

lemma down_timeout_ret: "snd (enter a m) = Ret r \<Longrightarrow> r = 0" "snd (resume a q e m) = Ret r \<Longrightarrow> r = 0"
  by (cases a; auto simp: fio_mutex_down_def fio_mutex_down_timeout_def down_timeout_wake_def fio_mutex_down_read_def
    fio_mutex_down_write_def split: if_splits)
    (cases a; auto simp: fio_mutex_down_def fio_mutex_down_timeout_def down_timeout_wake_def fio_mutex_down_read_def
    fio_mutex_down_write_def split: if_splits)

lemma owner_inv_finish:
  assumes "owner_inv s" "owner s = None" "\<And>r. snd res = Ret r \<Longrightarrow> r = 0"
  shows "owner_inv (finish s t a res)"
  using assms by (cases "snd res") (auto simp: owner_inv_def finish_def)

lemma owner_inv_step: "step ops s s' \<Longrightarrow> owner_inv s \<Longrightarrow> owner_inv s'"
proof (induction rule: step.induct)
  case (acquire s t a)
  thus ?case using owner_inv_finish down_timeout_ret by blast
next
  case (wake s t a r expired)
  thus ?case using owner_inv_finish down_timeout_ret by blast
next
  case (release_signal s t b m w a)
  hence "owner_inv (s\<lparr>mtx := m, pcs := (pcs s)(t := Idle)\<rparr>)" using owner_inv_upd[of "s\<lparr>mtx := m\<rparr>" t Idle] by simp
  thus ?case using owner_inv_upd[of "s\<lparr>mtx := m, pcs := (pcs s)(t := Idle)\<rparr>" w "Woken a 0"] release_signal by (auto split: if_splits)
next
  case (release s t b m)
  thus ?case using owner_inv_upd[of "s\<lparr>mtx := m\<rparr>" t Idle] by simp
next
  case (release_unheard s t b m)
  thus ?case using owner_inv_upd[of "s\<lparr>mtx := m\<rparr>" t Idle] by simp
qed (simp_all add: owner_inv_upd)

interpretation own: invariant_system "\<lambda>s. s = start n" "step ops" owner_inv for n ops
  by unfold_locales (simp add: start_def owner_inv_def, blast intro: owner_inv_step)

lemma stuck_step: "step ops s s' \<Longrightarrow> owner s = Some t \<Longrightarrow> owner s' = Some t \<and> mtx s' = mtx s"
  by (cases rule: step.cases) auto

text \<open>C: when \<open>fio_mutex_down_timeout\<close> gives up, it returns with the pthread lock held: from then on the
  value of the semaphore never changes again, so no other thread completes an operation on it.\<close>

theorem timeout_blocks_all:
  assumes "reachable ops n s" "pcs s t = Failed r" "(step ops)\<^sup>*\<^sup>* s s'"
  shows "owner s' = Some t \<and> mtx s' = mtx s"
proof -
  have "owner_inv s" using own.inv_reachable[of "start n" n ops s] assms(1) by (simp add: reachable_def)
  hence "stopped (pcs s t) \<longleftrightarrow> owner s = Some t" unfolding owner_inv_def by blast
  hence own: "owner s = Some t" using assms(2) by simp
  from assms(3) show ?thesis
  proof (induction rule: rtranclp_induct)
    case base
    show ?case using own by simp
  next
    case (step y z)
    thus ?case using stuck_step[of ops y z t] by simp
  qed
qed

section \<open>Wake-ups\<close>

fun asleep :: "pc \<Rightarrow> bool" where
  "asleep (Waiting a) = True"
| "asleep _ = False"

fun woken :: "pc \<Rightarrow> bool" where
  "woken (Woken a r) = True"
| "woken _ = False"

definition bin_inv :: "sys \<Rightarrow> bool" where
  "bin_inv s \<longleftrightarrow> sem_inv 1 s \<and> (\<forall>t. uses {Down} (pcs s t)) \<and> owner s = None \<and> finitely asleep (pcs s) \<and> finitely woken (pcs s) \<and>
     m_waiters (mtx s) = tally asleep (pcs s) + tally woken (pcs s) \<and>
     (0 < m_value (mtx s) \<and> 0 < tally asleep (pcs s) \<longrightarrow> 0 < tally woken (pcs s))"

lemma step_mono: "step ops s s' \<Longrightarrow> ops \<subseteq> ops' \<Longrightarrow> step ops' s s'"
  by (induction rule: step.induct) (blast intro: step.intros)+

lemma tally_zero: "(\<And>t. \<not> P (f t)) \<Longrightarrow> tally P f = 0"
  by (simp add: tally_def)

lemma bin_inv_down:
  assumes "bin_inv s" "sem_inv 1 s'" "\<forall>t. uses {Down} (pcs s' t)" "pcs s t = p" "p = Enter Down \<or> p = Woken Down r"
    and "s' = finish s t Down (fio_mutex_down ((mtx s)\<lparr>m_waiters := m_waiters (mtx s) - of_bool (woken p)\<rparr>))"
  shows "bin_inv s'"
proof -
  have "0 \<le> tally asleep (pcs s)" "0 \<le> tally woken (pcs s)" "0 \<le> m_value (mtx s)" "m_value (mtx s) \<le> 1"
    using assms(1) by (auto simp: bin_inv_def sem_inv_def intro: order_trans[of _ "1 - tally holds (pcs s)"])
  thus ?thesis using assms by (auto simp: bin_inv_def finish_def fio_mutex_down_def simp del: tally_nonneg)
qed

lemma bin_inv_step:
  assumes "step {Down} s s'" "bin_inv s"
  shows "bin_inv s'"
proof -
  have sem: "sem_inv 1 s'" using assms sem_inv_step[of s s' 1] step_mono[of "{Down}" s s' sem_ops]
    by (auto simp: bin_inv_def sem_ops_def)
  have u: "\<forall>t. uses {Down} (pcs s t)" and u': "\<forall>t. uses {Down} (pcs s' t)"
    using assms uses_step by (auto simp: bin_inv_def)
  have nn: "0 \<le> tally asleep (pcs s)" "0 \<le> tally woken (pcs s)" by simp_all
  have up: "m_value (mtx s) = 0" if "pcs s t = Leave b" for t b
  proof -
    have "0 < tally holds (pcs s)" using assms(2) that by (intro tally_pos[of _ _ t]) (auto simp: bin_inv_def sem_inv_def)
    thus ?thesis using assms(2) by (auto simp: bin_inv_def sem_inv_def)
  qed
  have Up: "b = Up" if "pcs s t = Leave b" for t b using that u[rule_format, of t] by auto
  from assms(1) show ?thesis
  proof cases
    case (acquire t a)
    moreover have "a = Down" using acquire u[rule_format, of t] by simp
    ultimately show ?thesis using bin_inv_down[OF assms(2) sem u', of t] by simp
  next
    case (wake t a r expired)
    moreover have "a = Down" using wake u[rule_format, of t] by simp
    ultimately show ?thesis using bin_inv_down[OF assms(2) sem u', of t "Woken Down r" r] by simp
  next
    case (release_signal t b m w a)
    moreover have "t \<noteq> w" using release_signal by auto
    ultimately show ?thesis using assms(2) u' sem Up[of t b] nn by (auto simp: bin_inv_def fio_mutex_up_def simp del: tally_nonneg)
  next
    case (release t b m)
    thus ?thesis using assms(2) u' sem Up[of t b] up[of t b] nn by (auto simp: bin_inv_def fio_mutex_up_def simp del: tally_nonneg)
  next
    case (release_unheard t b m)
    have "\<not> asleep (pcs s w)" for w using release_unheard(5) by (cases "pcs s w") auto
    hence "tally asleep (pcs s) = 0" by (rule tally_zero)
    thus ?thesis using release_unheard assms(2) u' sem Up[of t b] nn by (auto simp: bin_inv_def fio_mutex_up_def simp del: tally_nonneg)
  qed (use assms(2) u' sem nn in \<open>auto simp: bin_inv_def simp del: tally_nonneg\<close>)
qed

interpretation bin: invariant_system "\<lambda>s. s = start 1" "step {Down}" bin_inv
  by unfold_locales (simp add: start_def bin_inv_def sem_inv_def, blast intro: bin_inv_step)

text \<open>C: a semaphore of value one loses no wake-up: while it is free and a thread waits for it, some thread
  has been woken and runs next as soon as it gets the lock, which no thread keeps.\<close>

theorem binary_semaphore_wakes:
  assumes "reachable {Down} 1 s" "pcs s w = Waiting Down" "m_value (mtx s) \<noteq> 0"
  shows "owner s = None \<and> (\<exists>t r. pcs s t = Woken Down r)"
proof -
  have inv: "bin_inv s" by (rule bin.inv_reachable) (use assms(1) in \<open>auto simp: reachable_def\<close>)
  have "0 < tally asleep (pcs s)" using inv assms(2) by (intro tally_pos[of _ _ w]) (auto simp: bin_inv_def)
  moreover have "0 < m_value (mtx s)" using inv assms(3) by (auto simp: bin_inv_def sem_inv_def)
  ultimately have "0 < tally woken (pcs s)" using inv by (simp add: bin_inv_def)
  then obtain t where "woken (pcs s t)" by (metis less_irrefl tally_zero)
  moreover have "uses {Down} (pcs s t)" using inv by (simp add: bin_inv_def)
  ultimately show ?thesis using inv by (cases "pcs s t") (auto simp: bin_inv_def)
qed

section \<open>Runs\<close>

lemma reachable_start [simp]: "reachable ops n (start n)"
  by (simp add: reachable_def)

lemma reachable_step: "reachable ops n s \<Longrightarrow> step ops s s' \<Longrightarrow> reachable ops n s'"
  by (simp add: reachable_def)

lemma run_enter:
  assumes "reachable ops n s" "pcs s t = Idle" "a \<in> ops" "owner s = None"
  shows "reachable ops n (finish s t a (enter a (mtx s)))"
proof -
  let ?s = "s\<lparr>pcs := (pcs s)(t := Enter a)\<rparr>"
  have "reachable ops n ?s" by (rule reachable_step[OF assms(1)]) (use assms in \<open>auto intro: step.call\<close>)
  moreover have "step ops ?s (finish ?s t a (enter a (mtx ?s)))" by (rule step.acquire) (use assms in auto)
  moreover have "finish ?s t a (enter a (mtx ?s)) = finish s t a (enter a (mtx s))" by (simp add: finish_def)
  ultimately show ?thesis using reachable_step by metis
qed

lemma run_enter_to:
  assumes "reachable ops n s" "pcs s t = Idle" "a \<in> ops" "owner s = None" "s' = finish s t a (enter a (mtx s))"
  shows "reachable ops n s'"
  using run_enter assms by simp

definition crowd :: "int \<Rightarrow> int \<Rightarrow> (nat \<Rightarrow> pc) \<Rightarrow> sys" where
  "crowd v w f = \<lparr>mtx = \<lparr>m_value = v, m_waiters = w\<rparr>, owner = None, pcs = f\<rparr>"

lemmas crowd_simps = crowd_def start_def finish_def fio_mutex_down_def fio_mutex_up_def sem_ops_def

abbreviation idle :: "nat \<Rightarrow> pc" where "idle \<equiv> \<lambda>_. Idle"

lemma two_in_two_out:
  "reachable sem_ops 2 (crowd 0 2 (idle(0 := Inside Down, 1 := Inside Down, 2 := Waiting Down, 3 := Waiting Down)))"
proof -
  have "reachable sem_ops 2 (crowd 1 0 (idle(0 := Inside Down)))"
    by (rule run_enter_to[OF reachable_start, where t = 0 and a = Down]) (simp_all add: crowd_simps)
  hence "reachable sem_ops 2 (crowd 0 0 (idle(0 := Inside Down, 1 := Inside Down)))"
    by (rule run_enter_to[where t = 1 and a = Down]) (simp_all add: crowd_simps)
  hence "reachable sem_ops 2 (crowd 0 1 (idle(0 := Inside Down, 1 := Inside Down, 2 := Waiting Down)))"
    by (rule run_enter_to[where t = 2 and a = Down]) (simp_all add: crowd_simps)
  thus ?thesis
    by (rule run_enter_to[where t = 3 and a = Down]) (simp_all add: crowd_simps)
qed

lemma step_to: "step ops s s' \<Longrightarrow> s' = s'' \<Longrightarrow> step ops s s''"
  by simp

text \<open>With two units a wake-up can be lost: both holders leave before the thread that the first of
  them woke has run, the second one finds the value not zero and does not signal, and a thread
  keeps waiting although the semaphore is free and nobody is on the way.\<close>

lemma lost_wakeup:
  "\<exists>s. reachable sem_ops 2 s \<and> m_value (mtx s) = 1 \<and> pcs s 3 = Waiting Down \<and>
    (\<forall>t. t \<noteq> 3 \<longrightarrow> pcs s t = Idle \<or> pcs s t = Inside Down)"
proof -
  let ?f = "idle(0 := Leave Up, 1 := Leave Up, 2 := Waiting Down, 3 := Waiting Down)"
  have "reachable sem_ops 2 (crowd 0 2 (idle(0 := Leave Up, 1 := Inside Down, 2 := Waiting Down, 3 := Waiting Down)))"
    by (rule reachable_step[OF two_in_two_out], rule step_to[OF step.exit[where t = 0 and a = Down]])
      (auto simp: crowd_def fun_eq_iff)
  hence "reachable sem_ops 2 (crowd 0 2 ?f)"
    by (rule reachable_step, intro step_to[OF step.exit[where t = 1 and a = Down]])
      (auto simp: crowd_def fun_eq_iff)
  hence "reachable sem_ops 2 (crowd 1 2 (?f(0 := Idle, 2 := Woken Down 0)))"
    by (rule reachable_step, intro step_to[OF step.release_signal[where t = 0 and b = Up and w = 2 and a = Down]])
      (auto simp: crowd_simps fun_eq_iff)
  hence "reachable sem_ops 2 (crowd 2 2 (?f(0 := Idle, 2 := Woken Down 0, 1 := Idle)))"
    by (rule reachable_step, intro step_to[OF step.release[where t = 1 and b = Up]])
      (auto simp: crowd_simps fun_eq_iff)
  hence "reachable sem_ops 2 (crowd 1 1 (?f(0 := Idle, 2 := Inside Down, 1 := Idle)))"
    by (rule reachable_step, intro step_to[OF step.wake[where t = 2 and a = Down and r = 0]])
      (auto simp: crowd_simps fun_eq_iff)
  thus ?thesis
    by (intro exI[of _ "crowd 1 1 (?f(0 := Idle, 2 := Inside Down, 1 := Idle))"]) (simp add: crowd_def)
qed

theorem semaphore_bound_witness:
  "\<exists>s. reachable sem_ops 2 s \<and> pcs s 2 = Waiting Down \<and> tally holds (pcs s) \<le> 2"
  using semaphore_bound[OF _ two_in_two_out] two_in_two_out
  by (intro exI[of _ "crowd 0 2 (idle(0 := Inside Down, 1 := Inside Down, 2 := Waiting Down, 3 := Waiting Down))"])
    (simp add: crowd_def)

lemma writer_inside: "reachable rw_ops 0 (crowd (-1) 0 (idle(5 := Inside Down_write)))"
  by (rule run_enter_to[OF reachable_start, where t = 5 and a = Down_write])
    (simp_all add: crowd_simps rw_ops_def fio_mutex_down_write_def)

theorem rwlock_excludes_witness:
  "\<exists>s. reachable rw_ops 0 s \<and> pcs s 5 = Inside Down_write \<and> (\<forall>u. pcs s u = Inside Down_read \<longrightarrow> u = 5)"
proof (intro exI conjI allI impI)
  show "reachable rw_ops 0 (crowd (-1) 0 (idle(5 := Inside Down_write)))" by (rule writer_inside)
  show w: "pcs (crowd (-1) 0 (idle(5 := Inside Down_write))) 5 = Inside Down_write" by (simp add: crowd_def)
  fix u
  assume "pcs (crowd (-1) 0 (idle(5 := Inside Down_write))) u = Inside Down_read"
  thus "u = 5" by (rule rwlock_excludes[OF writer_inside w])
qed

lemma gave_up: "reachable {Down_timeout} 0 ((crowd 0 0 (idle(1 := Failed ETIMEDOUT)))\<lparr>owner := Some 1\<rparr>)"
proof -
  have "reachable {Down_timeout} 0 (crowd 0 1 (idle(1 := Waiting Down_timeout)))"
    by (rule run_enter_to[OF reachable_start, where t = 1 and a = Down_timeout])
      (simp_all add: crowd_simps fio_mutex_down_timeout_def)
  hence "reachable {Down_timeout} 0 (crowd 0 1 (idle(1 := Woken Down_timeout ETIMEDOUT)))"
    by (rule reachable_step, intro step_to[OF step.timeout[where t = 1 and r = ETIMEDOUT]])
      (auto simp: crowd_def fun_eq_iff ETIMEDOUT_def)
  thus ?thesis
    by (rule reachable_step, intro step_to[OF step.wake[where t = 1 and a = Down_timeout and r = ETIMEDOUT and expired = True]])
      (auto simp: crowd_simps fun_eq_iff ETIMEDOUT_def down_timeout_wake_def fio_mutex_down_timeout_def)
qed

theorem timeout_blocks_all_witness:
  "\<exists>s. reachable {Down_timeout} 0 s \<and> pcs s 1 = Failed ETIMEDOUT \<and> owner s = Some 1"
  using timeout_blocks_all[OF gave_up, of 1 ETIMEDOUT] gave_up
  by (intro exI[of _ "(crowd 0 0 (idle(1 := Failed ETIMEDOUT)))\<lparr>owner := Some 1\<rparr>"]) (simp add: crowd_def)

lemma woken_one: "reachable {Down} 1 (crowd 1 2 (idle(1 := Woken Down 0, 2 := Waiting Down)))"
proof -
  have "reachable {Down} 1 (crowd 0 0 (idle(0 := Inside Down)))"
    by (rule run_enter_to[OF reachable_start, where t = 0 and a = Down]) (simp_all add: crowd_simps)
  hence "reachable {Down} 1 (crowd 0 1 (idle(0 := Inside Down, 1 := Waiting Down)))"
    by (rule run_enter_to[where t = 1 and a = Down]) (simp_all add: crowd_simps)
  hence "reachable {Down} 1 (crowd 0 2 (idle(0 := Inside Down, 1 := Waiting Down, 2 := Waiting Down)))"
    by (rule run_enter_to[where t = 2 and a = Down]) (simp_all add: crowd_simps)
  hence "reachable {Down} 1 (crowd 0 2 (idle(0 := Leave Up, 1 := Waiting Down, 2 := Waiting Down)))"
    by (rule reachable_step, intro step_to[OF step.exit[where t = 0 and a = Down]])
      (auto simp: crowd_def fun_eq_iff)
  thus ?thesis
    by (rule reachable_step, intro step_to[OF step.release_signal[where t = 0 and b = Up and w = 1 and a = Down]])
      (auto simp: crowd_simps fun_eq_iff)
qed

theorem binary_semaphore_wakes_witness:
  "\<exists>s t r. reachable {Down} 1 s \<and> pcs s 2 = Waiting Down \<and> pcs s t = Woken Down r"
  using binary_semaphore_wakes[OF woken_one, of 2] woken_one
  by (intro exI[of _ "crowd 1 2 (idle(1 := Woken Down 0, 2 := Waiting Down))"]) (simp add: crowd_def)

end
