(* ===== verification/Io_Ddir.thy ===== *)
theory Io_Ddir
  imports Fio_Prelude
begin

text \<open>
  Data directions (\<open>io_ddir.h\<close>). The many arrays of two elements of the source that are indexed by
  read and write are pairs here, with \<open>at2\<close> and \<open>upd2\<close> for indexing.
\<close>

datatype fio_ddir = DDIR_READ | DDIR_WRITE | DDIR_SYNC | DDIR_DATASYNC | DDIR_SYNC_FILE_RANGE | DDIR_WAIT | DDIR_TRIM | DDIR_INVAL

definition ddir_sync :: "fio_ddir \<Rightarrow> bool" where
  "ddir_sync ddir \<longleftrightarrow> ddir = DDIR_SYNC \<or> ddir = DDIR_DATASYNC \<or> ddir = DDIR_SYNC_FILE_RANGE"

definition ddir_rw :: "fio_ddir \<Rightarrow> bool" where
  "ddir_rw ddir \<longleftrightarrow> ddir = DDIR_READ \<or> ddir = DDIR_WRITE"

text \<open>The other direction, \<open>ddir ^ 1\<close> in the source.\<close>

fun other :: "fio_ddir \<Rightarrow> fio_ddir" where
  "other DDIR_READ = DDIR_WRITE"
| "other DDIR_WRITE = DDIR_READ"
| "other d = d"

definition at2 :: "'a \<times> 'a \<Rightarrow> fio_ddir \<Rightarrow> 'a" where
  "at2 p d = (if d = DDIR_WRITE then snd p else fst p)"

definition upd2 :: "'a \<times> 'a \<Rightarrow> fio_ddir \<Rightarrow> 'a \<Rightarrow> 'a \<times> 'a" where
  "upd2 p d x = (if d = DDIR_WRITE then (fst p, x) else (x, snd p))"

definition map2p :: "('a \<Rightarrow> 'b \<Rightarrow> 'c) \<Rightarrow> 'a \<times> 'a \<Rightarrow> 'b \<times> 'b \<Rightarrow> 'c \<times> 'c" where
  "map2p f p q = (f (fst p) (fst q), f (snd p) (snd q))"

lemma at2_simps [simp]: "at2 p DDIR_READ = fst p" "at2 p DDIR_WRITE = snd p"
  "upd2 p DDIR_READ x = (x, snd p)" "upd2 p DDIR_WRITE x = (fst p, x)"
  by (simp_all add: at2_def upd2_def)

lemma at2_upd2: "ddir_rw d \<Longrightarrow> ddir_rw d' \<Longrightarrow> at2 (upd2 p d x) d' = (if d = d' then x else at2 p d')"
  by (auto simp: ddir_rw_def)

text \<open>The directions of a job, a bit mask in the options.\<close>

definition TD_DDIR_READ :: u32 where "TD_DDIR_READ = 1"
definition TD_DDIR_WRITE :: u32 where "TD_DDIR_WRITE = 2"
definition TD_DDIR_RAND :: u32 where "TD_DDIR_RAND = 4"
definition TD_DDIR_RW :: u32 where "TD_DDIR_RW = TD_DDIR_READ OR TD_DDIR_WRITE"
definition TD_DDIR_RANDREAD :: u32 where "TD_DDIR_RANDREAD = TD_DDIR_READ OR TD_DDIR_RAND"
definition TD_DDIR_RANDWRITE :: u32 where "TD_DDIR_RANDWRITE = TD_DDIR_WRITE OR TD_DDIR_RAND"
definition TD_DDIR_RANDRW :: u32 where "TD_DDIR_RANDRW = TD_DDIR_RW OR TD_DDIR_RAND"

end
