(* ===== verification/Stat.thy ===== *)
theory Stat
  imports Complex_Main Bits_Lib Clock Io_Ddir
begin

text \<open>
  The statistics of \<open>stat.c\<close>: running mean and variance, merging of statistics, the latency
  histogram and its percentiles, the distributions, the sample logs, and the sums over jobs and groups.

  Means and variances are C doubles. The operations on doubles are a parameter (a record of the
  arithmetic operations), so that the definitions say which operations are done in which order;
  the theorems on mean and variance are about the instance \<open>exact\<close>, arithmetic without rounding.
\<close>

section \<open>Floating point operations\<close>

record 'd fp =
  fp_of :: "u64 \<Rightarrow> 'd"
  fp_add :: "'d \<Rightarrow> 'd \<Rightarrow> 'd"
  fp_sub :: "'d \<Rightarrow> 'd \<Rightarrow> 'd"
  fp_mul :: "'d \<Rightarrow> 'd \<Rightarrow> 'd"
  fp_div :: "'d \<Rightarrow> 'd \<Rightarrow> 'd"
  fp_lt :: "'d \<Rightarrow> 'd \<Rightarrow> bool"
  fp_sqrt :: "'d \<Rightarrow> 'd"
  fp_trunc :: "'d \<Rightarrow> u64"

definition val_of :: "u64 \<Rightarrow> real" where
  "val_of w = real (unat w)"

definition exact :: "real fp" where
  "exact = \<lparr>fp_of = val_of, fp_add = (+), fp_sub = (-), fp_mul = (*), fp_div = (/),
     fp_lt = (<), fp_sqrt = sqrt, fp_trunc = (\<lambda>x. word_of_int \<lfloor>x\<rfloor>)\<rparr>"

lemma val_of_numeral [simp]: "val_of 0 = 0" "val_of 1 = 1" "val_of 100 = 100"
  by (simp_all add: val_of_def)

lemma val_of_nonneg [simp]: "0 \<le> val_of w"
  unfolding val_of_def by (rule of_nat_0_le_iff)

lemma exact_ops [simp]:
  "fp_of exact w = val_of w" "fp_add exact x y = x + y" "fp_sub exact x y = x - y"
  "fp_mul exact x y = x * y" "fp_div exact x y = x / y" "fp_lt exact x y = (x < y)" "fp_sqrt exact x = sqrt x"
  by (simp_all add: exact_def)

section \<open>Mean and variance\<close>

record 'd io_stat =
  max_val :: u64
  min_val :: u64
  samples :: u64
  mean :: 'd
  S :: 'd

definition add_stat_sample :: "'d fp \<Rightarrow> u64 \<Rightarrow> 'd io_stat \<Rightarrow> 'd io_stat" where
  "add_stat_sample fp data is =
     (let val = fp_of fp data;
          is = (if data > max_val is then is\<lparr>max_val := data\<rparr> else is);
          is = (if data < min_val is then is\<lparr>min_val := data\<rparr> else is);
          delta = fp_sub fp val (mean is);
          is = (if fp_lt fp delta (fp_of fp 0) \<or> fp_lt fp (fp_of fp 0) delta then
                  let is = is\<lparr>mean := fp_add fp (mean is) (fp_div fp delta (fp_add fp (fp_of fp (samples is)) (fp_of fp 1)))\<rparr>
                  in is\<lparr>S := fp_add fp (S is) (fp_mul fp delta (fp_sub fp val (mean is)))\<rparr>
                else is)
      in is\<lparr>samples := samples is + 1\<rparr>)"

definition reset_io_stat :: "'d fp \<Rightarrow> 'd io_stat \<Rightarrow> 'd io_stat" where
  "reset_io_stat fp ios = ios\<lparr>max_val := 0, min_val := 0, samples := 0, mean := fp_of fp 0, S := fp_of fp 0\<rparr>"

definition calc_lat :: "'d fp \<Rightarrow> 'd io_stat \<Rightarrow> (u64 \<times> u64 \<times> 'd \<times> 'd) option" where
  "calc_lat fp is =
     (if samples is = 0 then None
      else let n = fp_of fp (samples is);
               dev = (if fp_lt fp (fp_of fp 1) n then fp_sqrt fp (fp_div fp (S is) (fp_sub fp n (fp_of fp 1))) else fp_of fp 0)
           in Some (min_val is, max_val is, mean is, dev))"

definition usec_to_msec :: "'d fp \<Rightarrow> u64 \<times> u64 \<times> 'd \<times> 'd \<Rightarrow> int \<times> (u64 \<times> u64 \<times> 'd \<times> 'd)" where
  "usec_to_msec fp v =
     (let (mn, mx, mean, dev) = v; thousand = fp_of fp 1000
      in if mn > 1000 \<and> mx > 1000 \<and> fp_lt fp thousand mean \<and> fp_lt fp thousand dev
         then (0, (mn div 1000, mx div 1000, fp_div fp mean thousand, fp_div fp dev thousand))
         else (1, v))"

definition sum_stat :: "'d fp \<Rightarrow> 'd io_stat \<Rightarrow> 'd io_stat \<Rightarrow> int \<Rightarrow> 'd io_stat" where
  "sum_stat fp dst src nr =
     (if samples src = 0 then dst
      else let dst = dst\<lparr>min_val := word_min (min_val dst) (min_val src)\<rparr>;
               dst = dst\<lparr>max_val := (if max_val dst < max_val src then max_val src else max_val dst)\<rparr>;
               (mean', S') =
                 (if nr = 1 then (mean src, S src)
                  else let delta = fp_sub fp (mean src) (mean dst);
                           tot = fp_of fp (samples dst + samples src)
                       in (fp_div fp (fp_add fp (fp_mul fp (mean src) (fp_of fp (samples src))) (fp_mul fp (mean dst) (fp_of fp (samples dst)))) tot,
                           fp_add fp (fp_add fp (S src) (S dst))
                             (fp_div fp (fp_mul fp (fp_mul fp delta delta) (fp_of fp (samples dst * samples src))) tot)))
           in dst\<lparr>samples := samples dst + samples src, mean := mean', S := S'\<rparr>)"

section \<open>The latency histogram\<close>

abbreviation FIO_IO_U_PLAT_BITS :: nat where "FIO_IO_U_PLAT_BITS \<equiv> 6"
abbreviation FIO_IO_U_PLAT_VAL :: u32 where "FIO_IO_U_PLAT_VAL \<equiv> 64"
abbreviation FIO_IO_U_PLAT_NR :: u32 where "FIO_IO_U_PLAT_NR \<equiv> 1216"

fun nat_msb :: "nat \<Rightarrow> nat" where
  "nat_msb n = (if n < 2 then 0 else Suc (nat_msb (n div 2)))"

declare nat_msb.simps [simp del]

definition builtin_clz :: "u32 \<Rightarrow> nat" where
  "builtin_clz w = 31 - nat_msb (unat w)"

definition plat_val_to_idx :: "u32 \<Rightarrow> u32" where
  "plat_val_to_idx val =
     (let msb = (if val = 0 then 0 else 32 - builtin_clz val - 1)
      in if msb \<le> FIO_IO_U_PLAT_BITS then val
         else let error_bits = msb - FIO_IO_U_PLAT_BITS;
                  base = push_bit FIO_IO_U_PLAT_BITS (of_nat (error_bits + 1));
                  offset = (FIO_IO_U_PLAT_VAL - 1) AND drop_bit error_bits val
              in if base + offset < FIO_IO_U_PLAT_NR - 1 then base + offset else FIO_IO_U_PLAT_NR - 1)"

text \<open>The double \<open>(k + 0.5) * (1 << error_bits)\<close> is exact; adding it and the conversion to an unsigned
  integer drop half a unit at most.\<close>

definition plat_idx_to_val :: "u32 \<Rightarrow> u32 option" where
  "plat_idx_to_val idx =
     (if \<not> idx < FIO_IO_U_PLAT_NR then None
      else if idx < push_bit 1 FIO_IO_U_PLAT_VAL then Some idx
      else let error_bits = unat (drop_bit FIO_IO_U_PLAT_BITS idx) - 1;
               base = push_bit (error_bits + FIO_IO_U_PLAT_BITS) 1;
               k = idx mod FIO_IO_U_PLAT_VAL
           in Some (base + of_nat ((2 * unat k + 1) * 2 ^ error_bits div 2)))"

section \<open>Percentiles\<close>

definition FIO_IO_U_LIST_MAX_LEN :: nat where "FIO_IO_U_LIST_MAX_LEN = 20"

definition fp_nonzero :: "'d fp \<Rightarrow> 'd \<Rightarrow> bool" where
  "fp_nonzero fp x \<longleftrightarrow> fp_lt fp x (fp_of fp 0) \<or> fp_lt fp (fp_of fp 0) x"

definition double_cmp :: "'d fp \<Rightarrow> 'd \<Rightarrow> 'd \<Rightarrow> int" where
  "double_cmp fp a b = (if fp_lt fp b a then 1 else if fp_lt fp a b then - 1 else 0)"

text \<open>\<open>qsort\<close> with \<open>double_cmp\<close>.\<close>

fun fp_insort :: "'d fp \<Rightarrow> 'd \<Rightarrow> 'd list \<Rightarrow> 'd list" where
  "fp_insort fp x [] = [x]"
| "fp_insort fp x (y # ys) = (if double_cmp fp x y \<le> 0 then x # y # ys else y # fp_insort fp x ys)"

definition fp_qsort :: "'d fp \<Rightarrow> 'd list \<Rightarrow> 'd list" where
  "fp_qsort fp xs = foldr (fp_insort fp) xs []"

definition percentile_reached :: "'d fp \<Rightarrow> 'd \<Rightarrow> u64 \<Rightarrow> u64 \<Rightarrow> bool" where
  "percentile_reached fp p nr acc \<longleftrightarrow> \<not> fp_lt fp (fp_of fp acc) (fp_mul fp (fp_div fp p (fp_of fp 100)) (fp_of fp nr))"

record pctl =
  p_ovals :: "u32 list"
  p_maxv :: u32
  p_minv :: u32

text \<open>The inner loop: the position in the list is the number of values found. The flag of the result is
  \<open>is_last\<close>.\<close>

function clat_inner :: "'d fp \<Rightarrow> 'd list \<Rightarrow> u64 \<Rightarrow> u64 \<Rightarrow> nat \<Rightarrow> pctl \<Rightarrow> (bool \<times> pctl) option" where
  "clat_inner fp plist nr acc i st = do {
     let j = length (p_ovals st);
     p \<leftarrow> arr_get plist j;
     if \<not> percentile_reached fp p nr acc then Some (False, st)
     else if fp_lt fp (fp_of fp 100) p then None
     else do {
       v \<leftarrow> plat_idx_to_val (of_nat i);
       let st = st\<lparr>p_ovals := p_ovals st @ [v], p_minv := (if v < p_minv st then v else p_minv st),
                   p_maxv := (if v > p_maxv st then v else p_maxv st)\<rparr>;
       if j = length plist - 1 then Some (True, st) else clat_inner fp plist nr acc i st
     }
   }"
  by pat_completeness auto
termination
  by (relation "measure (\<lambda>(fp, plist, nr, acc, i, st). length plist - length (p_ovals st))")
    (auto simp: arr_get_def split: if_splits)

declare clat_inner.simps [simp del]

fun clat_outer :: "'d fp \<Rightarrow> 'd list \<Rightarrow> u64 \<Rightarrow> u64 \<Rightarrow> nat \<Rightarrow> u32 list \<Rightarrow> pctl \<Rightarrow> pctl option" where
  "clat_outer fp plist nr acc i [] st = Some st"
| "clat_outer fp plist nr acc i (h # hist) st = do {
     let acc = acc + ucast h;
     (is_last, st) \<leftarrow> clat_inner fp plist nr acc i st;
     if is_last then Some st else clat_outer fp plist nr acc (i + 1) hist st
   }"

definition calc_clat_percentiles :: "'d fp \<Rightarrow> u32 list \<Rightarrow> u64 \<Rightarrow> 'd list \<Rightarrow> (nat \<times> pctl) option" where
  "calc_clat_percentiles fp io_u_plat nr plist =
     (let st = \<lparr>p_ovals = [], p_maxv = 0, p_minv = - 1\<rparr>;
          used = takeWhile (fp_nonzero fp) (take FIO_IO_U_LIST_MAX_LEN plist);
          len = length used
      in if len = 0 then Some (0, st)
         else let plist = (if len > 1 then fp_qsort fp used else used)
              in map_option (Pair len) (clat_outer fp plist nr 0 0 io_u_plat st))"

text \<open>What \<open>show_clat_percentiles\<close> prints: the values, in milliseconds when all are large. Reading
  a value that was not computed is outside the array.\<close>

definition show_clat_percentiles :: "'d fp \<Rightarrow> u32 list \<Rightarrow> u64 \<Rightarrow> 'd list \<Rightarrow> (bool \<times> u32 list) option" where
  "show_clat_percentiles fp io_u_plat nr plist = do {
     (len, st) \<leftarrow> calc_clat_percentiles fp io_u_plat nr plist;
     let scale_down = (p_minv st > 2000 \<and> p_maxv st > 99999);
     ovals \<leftarrow> mem_read (p_ovals st) 0 len;
     Some (scale_down, map (\<lambda>v. if scale_down then (v + 999) div 1000 else v) ovals)
   }"

section \<open>Distributions\<close>

definition FIO_IO_U_MAP_NR :: nat where "FIO_IO_U_MAP_NR = 7"
definition FIO_IO_U_LAT_U_NR :: nat where "FIO_IO_U_LAT_U_NR = 10"
definition FIO_IO_U_LAT_M_NR :: nat where "FIO_IO_U_LAT_M_NR = 12"

text \<open>\<open>tenth\<close> and \<open>hundredth\<close> are the double constants 0.1 and 0.01.\<close>

definition share :: "'d fp \<Rightarrow> 'd \<Rightarrow> u64 \<Rightarrow> u32 \<Rightarrow> 'd" where
  "share fp least tot cnt =
     (if tot \<noteq> 0 then
        let d = fp_mul fp (fp_div fp (fp_of fp (ucast cnt)) (fp_of fp tot)) (fp_of fp 100)
        in if fp_lt fp d least \<and> cnt \<noteq> 0 then least else d
      else fp_of fp 0)"

definition stat_calc_dist :: "'d fp \<Rightarrow> 'd \<Rightarrow> u32 list \<Rightarrow> u64 \<Rightarrow> 'd list option" where
  "stat_calc_dist fp tenth m tot = map_option (map (share fp tenth tot)) (mem_read m 0 FIO_IO_U_MAP_NR)"

record 'd thread_stat =
  ts_error :: u32
  ts_groupid :: u32
  ts_members :: u32
  clat_stat :: "'d io_stat \<times> 'd io_stat"
  slat_stat :: "'d io_stat \<times> 'd io_stat"
  lat_stat :: "'d io_stat \<times> 'd io_stat"
  bw_stat :: "'d io_stat \<times> 'd io_stat"
  iops_stat :: "'d io_stat \<times> 'd io_stat"
  usr_time :: u64
  sys_time :: u64
  ctx :: u64
  minf :: u64
  majf :: u64
  clat_percentiles :: u64
  percentile_list :: "'d list"
  io_u_map :: "u32 list"
  io_u_submit :: "u32 list"
  io_u_complete :: "u32 list"
  io_u_lat_u :: "u32 list"
  io_u_lat_m :: "u32 list"
  io_u_plat :: "u32 list \<times> u32 list"
  total_io_u :: "u64 list"
  short_io_u :: "u64 list"
  total_submit :: u64
  total_complete :: u64
  ts_io_bytes :: "u64 \<times> u64"
  runtime :: "u64 \<times> u64"
  total_run_time :: u64
  ts_continue_on_error :: u16
  ts_total_err_count :: u64
  ts_first_error :: u32
  ts_kb_base :: u32

definition ts_total_io_u :: "'d thread_stat \<Rightarrow> u64" where
  "ts_total_io_u ts = total_io_u ts ! 0 + total_io_u ts ! 1"

definition stat_calc_lat :: "'d fp \<Rightarrow> 'd \<Rightarrow> 'd thread_stat \<Rightarrow> u32 list \<Rightarrow> nat \<Rightarrow> 'd list option" where
  "stat_calc_lat fp hundredth ts src nr = map_option (map (share fp hundredth (ts_total_io_u ts))) (mem_read src 0 nr)"

definition stat_calc_lat_u :: "'d fp \<Rightarrow> 'd \<Rightarrow> 'd thread_stat \<Rightarrow> 'd list option" where
  "stat_calc_lat_u fp hundredth ts = stat_calc_lat fp hundredth ts (io_u_lat_u ts) FIO_IO_U_LAT_U_NR"

definition stat_calc_lat_m :: "'d fp \<Rightarrow> 'd \<Rightarrow> 'd thread_stat \<Rightarrow> 'd list option" where
  "stat_calc_lat_m fp hundredth ts = stat_calc_lat fp hundredth ts (io_u_lat_m ts) FIO_IO_U_LAT_M_NR"

section \<open>Counting I/O units by depth and latency\<close>

text \<open>The \<open>switch\<close> statements of \<open>io_u.c\<close> that choose a counter.\<close>

definition arr_inc :: "u32 list \<Rightarrow> nat \<Rightarrow> u32 \<Rightarrow> u32 list option" where
  "arr_inc xs i n = (if i < length xs then Some (xs[i := xs ! i + n]) else None)"

definition map_bucket :: "u32 \<Rightarrow> nat" where
  "map_bucket nr =
     (if 33 \<le> nr \<and> nr \<le> 64 then 5 else if 17 \<le> nr \<and> nr \<le> 32 then 4 else if 9 \<le> nr \<and> nr \<le> 16 then 3
      else if 5 \<le> nr \<and> nr \<le> 8 then 2 else if 1 \<le> nr \<and> nr \<le> 4 then 1 else if nr = 0 then 0 else 6)"

definition io_u_mark_map :: "u32 list \<Rightarrow> u32 \<Rightarrow> u32 list option" where
  "io_u_mark_map m nr = arr_inc m (map_bucket nr) 1"

definition io_u_mark_submit :: "u32 \<Rightarrow> 'd thread_stat \<Rightarrow> 'd thread_stat option" where
  "io_u_mark_submit nr ts = do {
     m \<leftarrow> io_u_mark_map (io_u_submit ts) nr;
     Some (ts\<lparr>io_u_submit := m, total_submit := total_submit ts + 1\<rparr>)
   }"

definition io_u_mark_complete :: "u32 \<Rightarrow> 'd thread_stat \<Rightarrow> 'd thread_stat option" where
  "io_u_mark_complete nr ts = do {
     m \<leftarrow> io_u_mark_map (io_u_complete ts) nr;
     Some (ts\<lparr>io_u_complete := m, total_complete := total_complete ts + 1\<rparr>)
   }"

definition depth_bucket :: "u32 \<Rightarrow> nat" where
  "depth_bucket d =
     (if 32 \<le> d \<and> d \<le> 63 then 5 else if 16 \<le> d \<and> d \<le> 31 then 4 else if 8 \<le> d \<and> d \<le> 15 then 3
      else if 4 \<le> d \<and> d \<le> 7 then 2 else if 2 \<le> d \<and> d \<le> 3 then 1 else if d = 1 then 0 else 6)"

definition io_u_mark_depth :: "u32 \<Rightarrow> u32 \<Rightarrow> 'd thread_stat \<Rightarrow> 'd thread_stat option" where
  "io_u_mark_depth cur_depth nr ts = do {
     m \<leftarrow> arr_inc (io_u_map ts) (depth_bucket cur_depth) nr;
     Some (ts\<lparr>io_u_map := m\<rparr>)
   }"

definition lat_bucket :: "u64 \<Rightarrow> nat" where
  "lat_bucket t =
     (if 750 \<le> t \<and> t \<le> 999 then 9 else if 500 \<le> t \<and> t \<le> 749 then 8 else if 250 \<le> t \<and> t \<le> 499 then 7
      else if 100 \<le> t \<and> t \<le> 249 then 6 else if 50 \<le> t \<and> t \<le> 99 then 5 else if 20 \<le> t \<and> t \<le> 49 then 4
      else if 10 \<le> t \<and> t \<le> 19 then 3 else if 4 \<le> t \<and> t \<le> 9 then 2 else if 2 \<le> t \<and> t \<le> 3 then 1 else 0)"

definition io_u_mark_lat_usec :: "u64 \<Rightarrow> 'd thread_stat \<Rightarrow> 'd thread_stat option" where
  "io_u_mark_lat_usec usec ts =
     (if \<not> usec < 1000 then None
      else do {
        m \<leftarrow> arr_inc (io_u_lat_u ts) (lat_bucket usec) 1;
        Some (ts\<lparr>io_u_lat_u := m\<rparr>)
      })"

definition io_u_mark_lat_msec :: "u64 \<Rightarrow> 'd thread_stat \<Rightarrow> 'd thread_stat option" where
  "io_u_mark_lat_msec msec ts = do {
     m \<leftarrow> arr_inc (io_u_lat_m ts) (if 2000 \<le> msec then 11 else if 1000 \<le> msec then 10 else lat_bucket msec) 1;
     Some (ts\<lparr>io_u_lat_m := m\<rparr>)
   }"

definition io_u_mark_latency :: "u64 \<Rightarrow> 'd thread_stat \<Rightarrow> 'd thread_stat option" where
  "io_u_mark_latency usec ts =
     (if usec < 1000 then io_u_mark_lat_usec usec ts else io_u_mark_lat_msec (usec div 1000) ts)"

definition add_clat_percentile_sample :: "'d thread_stat \<Rightarrow> u64 \<Rightarrow> fio_ddir \<Rightarrow> 'd thread_stat option" where
  "add_clat_percentile_sample ts usec ddir = do {
     let idx = plat_val_to_idx (ucast usec);
     if \<not> idx < FIO_IO_U_PLAT_NR then None
     else do {
       m \<leftarrow> arr_inc (at2 (io_u_plat ts) ddir) (unat idx) 1;
       Some (ts\<lparr>io_u_plat := upd2 (io_u_plat ts) ddir m\<rparr>)
     }
   }"

section \<open>Sums\<close>

definition add_lists :: "'a::plus list \<Rightarrow> 'a list \<Rightarrow> 'a list" where
  "add_lists xs ys = map2 (+) xs ys"

definition sum_thread_stats :: "'d fp \<Rightarrow> 'd thread_stat \<Rightarrow> 'd thread_stat \<Rightarrow> int \<Rightarrow> 'd thread_stat" where
  "sum_thread_stats fp dst src nr = dst\<lparr>
     clat_stat := map2p (\<lambda>d s. sum_stat fp d s nr) (clat_stat dst) (clat_stat src),
     slat_stat := map2p (\<lambda>d s. sum_stat fp d s nr) (slat_stat dst) (slat_stat src),
     lat_stat := map2p (\<lambda>d s. sum_stat fp d s nr) (lat_stat dst) (lat_stat src),
     bw_stat := map2p (\<lambda>d s. sum_stat fp d s nr) (bw_stat dst) (bw_stat src),
     ts_io_bytes := map2p (+) (ts_io_bytes dst) (ts_io_bytes src),
     runtime := map2p (\<lambda>d s. if d < s then s else d) (runtime dst) (runtime src),
     usr_time := usr_time dst + usr_time src,
     sys_time := sys_time dst + sys_time src,
     ctx := ctx dst + ctx src,
     majf := majf dst + majf src,
     minf := minf dst + minf src,
     io_u_map := add_lists (io_u_map dst) (io_u_map src),
     io_u_submit := add_lists (io_u_submit dst) (io_u_submit src),
     io_u_complete := add_lists (io_u_complete dst) (io_u_complete src),
     io_u_lat_u := add_lists (io_u_lat_u dst) (io_u_lat_u src),
     io_u_lat_m := add_lists (io_u_lat_m dst) (io_u_lat_m src),
     total_io_u := add_lists (total_io_u dst) (total_io_u src),
     short_io_u := add_lists (short_io_u dst) (short_io_u src),
     io_u_plat := map2p add_lists (io_u_plat dst) (io_u_plat src),
     total_run_time := total_run_time dst + total_run_time src,
     total_submit := total_submit dst + total_submit src,
     total_complete := total_complete dst + total_complete src\<rparr>"

record group_run_stats =
  max_run :: "u64 \<times> u64"
  min_run :: "u64 \<times> u64"
  max_bw :: "u64 \<times> u64"
  min_bw :: "u64 \<times> u64"
  io_kb :: "u64 \<times> u64"
  agg :: "u64 \<times> u64"
  gs_kb_base :: u32
  gs_groupid :: u32

definition sum_group_stats :: "group_run_stats \<Rightarrow> group_run_stats \<Rightarrow> group_run_stats" where
  "sum_group_stats dst src =
     (let larger = (\<lambda>d s. if d < s then s else d); smaller = (\<lambda>d s. if d \<noteq> 0 \<and> d > s then s else d)
      in dst\<lparr>max_run := map2p larger (max_run dst) (max_run src),
             min_run := map2p smaller (min_run dst) (min_run src),
             max_bw := map2p larger (max_bw dst) (max_bw src),
             min_bw := map2p smaller (min_bw dst) (min_bw src),
             io_kb := map2p (+) (io_kb dst) (io_kb src),
             agg := map2p (+) (agg dst) (agg src)\<rparr>)"

definition init_group_run_stat :: group_run_stats where
  "init_group_run_stat = \<lparr>max_run = (0, 0), min_run = (NOT 0, NOT 0), max_bw = (0, 0), min_bw = (NOT 0, NOT 0),
     io_kb = (0, 0), agg = (0, 0), gs_kb_base = 0, gs_groupid = 0\<rparr>"

definition zero_stat :: "'d fp \<Rightarrow> 'd io_stat" where
  "zero_stat fp = \<lparr>max_val = 0, min_val = 0, samples = 0, mean = fp_of fp 0, S = fp_of fp 0\<rparr>"

definition init_thread_stat :: "'d fp \<Rightarrow> 'd thread_stat" where
  "init_thread_stat fp =
     (let z = (zero_stat fp)\<lparr>min_val := - 1\<rparr>; zz = (z, z)
      in \<lparr>ts_error = 0, ts_groupid = - 1, ts_members = 0, clat_stat = zz, slat_stat = zz, lat_stat = zz, bw_stat = zz,
          iops_stat = (zero_stat fp, zero_stat fp), usr_time = 0, sys_time = 0, ctx = 0, minf = 0, majf = 0,
          clat_percentiles = 0, percentile_list = replicate FIO_IO_U_LIST_MAX_LEN (fp_of fp 0),
          io_u_map = replicate FIO_IO_U_MAP_NR 0, io_u_submit = replicate FIO_IO_U_MAP_NR 0,
          io_u_complete = replicate FIO_IO_U_MAP_NR 0, io_u_lat_u = replicate FIO_IO_U_LAT_U_NR 0,
          io_u_lat_m = replicate FIO_IO_U_LAT_M_NR 0,
          io_u_plat = (replicate (unat FIO_IO_U_PLAT_NR) 0, replicate (unat FIO_IO_U_PLAT_NR) 0),
          total_io_u = replicate 3 0, short_io_u = replicate 3 0, total_submit = 0, total_complete = 0,
          ts_io_bytes = (0, 0), runtime = (0, 0), total_run_time = 0, ts_continue_on_error = 0,
          ts_total_err_count = 0, ts_first_error = 0, ts_kb_base = 0\<rparr>)"

section \<open>Sample logs\<close>

record io_sample =
  is_time :: u64
  is_val :: u64
  is_ddir :: fio_ddir
  is_bs :: u32

record 'd io_log =
  il_nr_samples :: u64
  il_max_samples :: u64
  il_log :: "io_sample list"
  il_avg_window :: "'d io_stat \<times> 'd io_stat"
  il_avg_msec :: u64
  il_avg_last :: u64

text \<open>The array has room for \<open>max_samples\<close> entries; only the first \<open>nr_samples\<close> are in the list.\<close>

definition append_log_sample :: "u64 \<Rightarrow> fio_ddir \<Rightarrow> u32 \<Rightarrow> u64 \<Rightarrow> 'd io_log \<Rightarrow> 'd io_log option" where
  "append_log_sample val ddir bs t iolog =
     (let nr_samples = il_nr_samples iolog;
          iolog = (if nr_samples = 0 then iolog\<lparr>il_avg_last := t\<rparr> else iolog);
          iolog = (if nr_samples = il_max_samples iolog then iolog\<lparr>il_max_samples := push_bit 1 (il_max_samples iolog)\<rparr> else iolog)
      in if \<not> nr_samples < il_max_samples iolog then None
         else Some (iolog\<lparr>il_log := take (unat nr_samples) (il_log iolog) @ [\<lparr>is_time = t, is_val = val, is_ddir = ddir, is_bs = bs\<rparr>],
                          il_nr_samples := nr_samples + 1\<rparr>))"

definition log_window :: "'d fp \<Rightarrow> 'd \<Rightarrow> fio_ddir \<Rightarrow> u64 \<Rightarrow> 'd io_log \<Rightarrow> 'd io_log option" where
  "log_window fp half ddir elapsed iolog =
     (if samples (at2 (il_avg_window iolog) ddir) \<noteq> 0 then
        append_log_sample (fp_trunc fp (fp_add fp (mean (at2 (il_avg_window iolog) ddir)) half)) ddir 0 elapsed iolog
      else Some iolog)"

definition add_log_sample :: "'d fp \<Rightarrow> 'd \<Rightarrow> u64 \<Rightarrow> u64 \<Rightarrow> fio_ddir \<Rightarrow> u32 \<Rightarrow> 'd io_log \<Rightarrow> 'd io_log option" where
  "add_log_sample fp half elapsed val ddir bs iolog =
     (if \<not> ddir_rw ddir then Some iolog
      else if il_avg_msec iolog = 0 then append_log_sample val ddir bs elapsed iolog
      else let iolog = iolog\<lparr>il_avg_window := upd2 (il_avg_window iolog) ddir (add_stat_sample fp val (at2 (il_avg_window iolog) ddir))\<rparr>;
               this_window = elapsed - il_avg_last iolog
           in if this_window < il_avg_msec iolog then Some iolog
              else do {
                iolog \<leftarrow> log_window fp half DDIR_READ elapsed iolog;
                iolog \<leftarrow> log_window fp half DDIR_WRITE elapsed iolog;
                Some (iolog\<lparr>il_avg_window := (reset_io_stat fp (fst (il_avg_window iolog)), reset_io_stat fp (snd (il_avg_window iolog))),
                            il_avg_last := elapsed\<rparr>)
              })"

section \<open>Bucket lemmas\<close>

lemma nat_msb_bounds: "0 < n \<Longrightarrow> 2 ^ nat_msb n \<le> n \<and> n < 2 ^ Suc (nat_msb n)"
proof (induction n rule: nat_msb.induct)
  case (1 n)
  show ?case
  proof (cases "n < 2")
    case True
    thus ?thesis using 1 by (simp add: nat_msb.simps[of n])
  next
    case False
    hence IH: "2 ^ nat_msb (n div 2) \<le> n div 2" "n div 2 < 2 ^ Suc (nat_msb (n div 2))" using 1 by auto
    have m: "nat_msb n = Suc (nat_msb (n div 2))" using False by (simp add: nat_msb.simps[of n])
    show ?thesis unfolding m using IH by (simp add: power_Suc) linarith
  qed
qed

lemma nat_msb_eq: "2 ^ k \<le> n \<Longrightarrow> n < 2 ^ Suc k \<Longrightarrow> nat_msb n = k"
proof (rule antisym)
  assume a: "2 ^ k \<le> n" "n < 2 ^ Suc k"
  have n: "0 < n" using a(1) by (rule less_le_trans[rotated]) simp
  have "(2 :: nat) ^ nat_msb n < 2 ^ Suc k" using nat_msb_bounds[OF n] a(2) by linarith
  thus "nat_msb n \<le> k" by (simp del: power_Suc)
  have "(2 :: nat) ^ k < 2 ^ Suc (nat_msb n)" using nat_msb_bounds[OF n] a(1) by linarith
  thus "k \<le> nat_msb n" by (simp del: power_Suc)
qed

definition bucket :: "nat \<Rightarrow> nat" where
  "bucket n = (if n < 128 then n else let e = nat_msb n - 6 in 64 * e + n div 2 ^ e)"

lemma bucket_group:
  assumes "128 \<le> n"
  obtains e where "nat_msb n = e + 6" "0 < e" "bucket n = 64 * e + n div 2 ^ e" "64 \<le> n div 2 ^ e" "n div 2 ^ e < 128"
proof -
  have b: "2 ^ nat_msb n \<le> n" "n < 2 ^ Suc (nat_msb n)" using nat_msb_bounds[of n] assms by auto
  have m: "7 \<le> nat_msb n"
  proof (rule ccontr)
    assume "\<not> 7 \<le> nat_msb n"
    hence "(2 :: nat) ^ Suc (nat_msb n) \<le> 2 ^ 7" by (intro power_increasing) auto
    thus False using b assms by simp
  qed
  define e where "e = nat_msb n - 6"
  have e: "nat_msb n = e + 6" "0 < e" using m by (auto simp: e_def)
  have "64 * 2 ^ e \<le> n" "n < 128 * 2 ^ e" using b unfolding e(1) by (simp_all add: power_add)
  hence "64 \<le> n div 2 ^ e" "n div 2 ^ e < 128"
    by (simp_all add: less_eq_div_iff_mult_less_eq div_less_iff_less_mult)
  moreover have "bucket n = 64 * e + n div 2 ^ e" using assms e(1) by (simp add: bucket_def)
  ultimately show thesis using that e by blast
qed

lemma unat_u32: "n < 2 ^ 32 \<Longrightarrow> unat (of_nat n :: u32) = n"
  by (simp add: unat_of_nat take_bit_nat_eq_self_iff)

lemma unat_plat_idx: "unat (plat_val_to_idx val) = min (bucket (unat val)) 1215"
proof (cases "unat val < 128")
  case True
  have "nat_msb (unat val) < 7"
  proof (cases "unat val = 0")
    case False
    hence "(2 :: nat) ^ nat_msb (unat val) < 2 ^ 7" using nat_msb_bounds[of "unat val"] True by simp
    thus ?thesis by (simp del: power_numeral)
  qed (simp add: nat_msb.simps)
  thus ?thesis using True by (auto simp: plat_val_to_idx_def builtin_clz_def bucket_def Let_def)
next
  case False
  hence big: "128 \<le> unat val" by simp
  from big obtain e where e: "nat_msb (unat val) = e + 6" "0 < e" "bucket (unat val) = 64 * e + unat val div 2 ^ e"
      "64 \<le> unat val div 2 ^ e" "unat val div 2 ^ e < 128"
    by (rule bucket_group)
  have "2 ^ (e + 6) \<le> unat val" using nat_msb_bounds[of "unat val"] big unfolding e(1) by simp
  hence "(2 :: nat) ^ (e + 6) < 2 ^ 32" using unat_lt[of val] by simp
  hence "e + 6 < 32" by (rule power_less_imp_less_exp[rotated]) simp
  hence e26: "e < 26" by simp
  let ?base = "push_bit 6 (of_nat (e + 1)) :: u32" and ?off = "(64 - 1) AND drop_bit e val :: u32"
  have base: "unat ?base = 64 * (e + 1)"
    using e26 unat_u32[of "64 * (e + 1)"] by (simp add: push_bit_eq_mult algebra_simps)
  have "?off = take_bit 6 (drop_bit e val)" by (simp add: take_bit_eq_mask mask_numeral and.commute)
  hence "unat ?off = take_bit 6 (drop_bit e (unat val))" by (simp only: unsigned_take_bit_eq unat_drop_bit_eq)
  hence off: "unat ?off = unat val div 2 ^ e - 64"
    using e(4,5) by (simp add: take_bit_eq_mod drop_bit_eq_div mod_if)
  have sum: "unat (?base + ?off) = 64 * e + unat val div 2 ^ e"
    using base off e26 e(4,5) by (simp add: unat_word_ariths)
  have "plat_val_to_idx val = (if ?base + ?off < 1215 then ?base + ?off else 1215)"
    using e(1,2) e26 big by (auto simp: plat_val_to_idx_def builtin_clz_def Let_def)
  thus ?thesis unfolding e(3) sum[symmetric] by (simp add: word_less_nat_alt min_def)
qed

lemma bucket_mono: "m \<le> n \<Longrightarrow> bucket m \<le> bucket n"
proof -
  assume le: "m \<le> n"
  consider "n < 128" | "m < 128" "128 \<le> n" | "128 \<le> m" by linarith
  thus ?thesis
  proof cases
    case 1
    thus ?thesis using le by (simp add: bucket_def)
  next
    case 2
    from 2(2) obtain e where "0 < e" "bucket n = 64 * e + n div 2 ^ e" "64 \<le> n div 2 ^ e" by (rule bucket_group)
    thus ?thesis using 2(1) by (simp add: bucket_def)
  next
    case 3
    from 3 obtain e where e: "nat_msb m = e + 6" "bucket m = 64 * e + m div 2 ^ e" "m div 2 ^ e < 128" by (rule bucket_group)
    from 3 le have "128 \<le> n" by simp
    then obtain d where d: "nat_msb n = d + 6" "bucket n = 64 * d + n div 2 ^ d" "64 \<le> n div 2 ^ d" by (rule bucket_group)
    have "(2 :: nat) ^ nat_msb m < 2 ^ Suc (nat_msb n)" using nat_msb_bounds[of m] nat_msb_bounds[of n] 3 le by linarith
    hence "nat_msb m < Suc (nat_msb n)" by (rule power_less_imp_less_exp[rotated]) simp
    hence "e \<le> d" using e(1) d(1) by simp
    thus ?thesis
    proof (cases "e = d")
      case True
      thus ?thesis using e d div_le_mono[OF le, of "2 ^ d"] by simp
    next
      case False
      hence "e + 1 \<le> d" using \<open>e \<le> d\<close> by simp
      thus ?thesis using e d by linarith
    qed
  qed
qed

text \<open>The value of a bucket of a group above the first two.\<close>

lemma plat_idx_to_val_group:
  assumes "0 < e" "e \<le> 17" "64 \<le> q" "q < 128" "unat idx = 64 * e + q"
  shows "\<exists>v. plat_idx_to_val idx = Some v \<and> unat v = q * 2 ^ e + 2 ^ (e - 1)"
proof -
  obtain r where r: "q = 64 + r" using assms(3) le_Suc_ex by blast
  have "unat idx = r + 64 * (e + 1)" "r < 64" using assms(4,5) r by simp_all
  hence i: "unat idx div 64 = e + 1" "unat idx mod 64 = q - 64"
    using r by (simp_all only: div_mult_self2 mod_mult_self2) simp_all
  have b: "\<not> idx < 128" "idx < 1216" using assms by (simp_all add: word_less_nat_alt)
  have k: "unat (idx mod 64) = q - 64" using i(2) by (simp add: unat_mod)
  have "unat (drop_bit 6 idx) = unat idx div 2 ^ 6" by (subst unat_drop_bit_eq) (rule drop_bit_eq_div)
  hence eb: "unat (drop_bit 6 idx) - 1 = e" using i(1) by simp
  obtain d where d: "e = Suc d" using assms(1) by (cases e) auto
  have "(2 :: nat) ^ e \<le> 2 ^ 17" using assms(2) by (intro power_increasing) auto
  hence small: "q * 2 ^ e + 2 ^ (e - 1) < 2 ^ 32"
    using assms(4) mult_strict_mono[of q 128 "2 ^ e" "2 ^ 17 + 1 :: nat"] by (simp add: d)
  have val: "2 ^ (e + 6) + (2 * (q - 64) + 1) * 2 ^ e div 2 = q * 2 ^ e + 2 ^ (e - 1)"
    by (simp add: r d power_add algebra_simps)
  have "plat_idx_to_val idx = Some (of_nat (2 ^ (e + 6) + (2 * (q - 64) + 1) * 2 ^ e div 2))"
    unfolding plat_idx_to_val_def Let_def k eb using b by (simp add: push_bit_eq_mult)
  thus ?thesis using unat_u32[OF small] unfolding val by blast
qed

text \<open>C: a latency is counted in a bucket of the array, larger latencies never in an earlier bucket, and
  below 2^24 microseconds the value that stands for the bucket is off by at most one part in 128.\<close>

theorem plat_histogram:
  "plat_val_to_idx v < FIO_IO_U_PLAT_NR \<and>
   (v \<le> v' \<longrightarrow> plat_val_to_idx v \<le> plat_val_to_idx v') \<and>
   (v < 2 ^ 24 \<longrightarrow> (\<exists>m. plat_idx_to_val (plat_val_to_idx v) = Some m \<and> 128 * \<bar>uint m - uint v\<bar> \<le> uint v))"
proof (intro conjI impI)
  show "plat_val_to_idx v < FIO_IO_U_PLAT_NR" by (simp add: word_less_nat_alt unat_plat_idx)
next
  assume "v \<le> v'"
  hence "bucket (unat v) \<le> bucket (unat v')" by (intro bucket_mono) (simp add: word_le_nat_alt)
  thus "plat_val_to_idx v \<le> plat_val_to_idx v'" by (simp add: word_le_nat_alt unat_plat_idx)
next
  assume small: "v < 2 ^ 24"
  show "\<exists>m. plat_idx_to_val (plat_val_to_idx v) = Some m \<and> 128 * \<bar>uint m - uint v\<bar> \<le> uint v"
  proof (cases "unat v < 128")
    case True
    hence "plat_val_to_idx v = v" by (simp add: word_unat_eq_iff unat_plat_idx bucket_def)
    thus ?thesis using True by (simp add: plat_idx_to_val_def word_less_nat_alt)
  next
    case False
    hence "128 \<le> unat v" by simp
    then obtain e where e: "nat_msb (unat v) = e + 6" "0 < e" "bucket (unat v) = 64 * e + unat v div 2 ^ e"
      "64 \<le> unat v div 2 ^ e" "unat v div 2 ^ e < 128" by (rule bucket_group)
    have "2 ^ (e + 6) \<le> unat v" using nat_msb_bounds[of "unat v"] False unfolding e(1) by simp
    hence "(2 :: nat) ^ (e + 6) < 2 ^ 24" using small by (simp add: word_less_nat_alt)
    hence "e + 6 < 24" by (rule power_less_imp_less_exp[rotated]) simp
    hence e17: "e \<le> 17" by simp
    define q where "q = unat v div 2 ^ e"
    have "unat (plat_val_to_idx v) = 64 * e + q" using e e17 by (simp add: unat_plat_idx q_def)
    from plat_idx_to_val_group[OF e(2) e17 _ _ this] e(4,5)
    obtain m where m: "plat_idx_to_val (plat_val_to_idx v) = Some m" "unat m = q * 2 ^ e + 2 ^ (e - 1)"
      by (auto simp: q_def)
    obtain d where d: "e = Suc d" using e(2) by (cases e) auto
    define r where "r = unat v mod 2 ^ e"
    have v: "unat v = q * 2 ^ e + r" "r < 2 ^ e" unfolding q_def r_def by (simp_all only: div_mult_mod_eq) simp
    obtain P Q where PQ: "P = (2 :: int) ^ d" "Q = int q * 2 ^ d" by simp
    have "64 * P \<le> Q" using e(4) unfolding PQ by (simp add: q_def)
    moreover have "int r < 2 * P" using v(2) of_nat_less_iff[of r "2 * 2 ^ d", where 'a = int] by (simp add: d PQ)
    moreover have "int (unat m) = 2 * Q + P" "int (unat v) = 2 * Q + int r"
      unfolding v(1) m(2) by (simp_all add: d PQ)
    ultimately have "128 * \<bar>int (unat m) - int (unat v)\<bar> \<le> int (unat v)" by (simp add: abs_if)
    thus ?thesis using m(1) by simp
  qed
qed

theorem plat_histogram_witness:
  "plat_val_to_idx 1000 \<le> plat_val_to_idx 5000 \<and>
   (\<exists>m. plat_idx_to_val (plat_val_to_idx 1000) = Some m \<and> 128 * \<bar>uint m - 1000\<bar> \<le> 1000)"
  using plat_histogram[of 1000 5000] by simp

section \<open>Mean and variance lemmas\<close>

definition total :: "u64 list \<Rightarrow> real" where "total xs = (\<Sum>x\<leftarrow>xs. val_of x)"
definition avg :: "u64 list \<Rightarrow> real" where "avg xs = total xs / real (length xs)"
definition sqdev :: "u64 list \<Rightarrow> real" where "sqdev xs = (\<Sum>x\<leftarrow>xs. (val_of x - avg xs)\<^sup>2)"

text \<open>A statistic describes a list of samples: it has their number, extremes, mean and sum of squared
  deviations.\<close>

definition describes :: "real io_stat \<Rightarrow> u64 list \<Rightarrow> bool" where
  "describes is xs \<longleftrightarrow> unat (samples is) = length xs \<and> mean is = avg xs \<and> S is = sqdev xs \<and>
     max_val is = foldr max xs 0 \<and> min_val is = foldr min xs (- 1)"

definition fresh_stat :: "real io_stat" where
  "fresh_stat = \<lparr>max_val = 0, min_val = - 1, samples = 0, mean = 0, S = 0\<rparr>"

lemma describes_fresh: "describes fresh_stat []"
  by (simp add: describes_def fresh_stat_def avg_def total_def sqdev_def)

definition squares :: "u64 list \<Rightarrow> real" where "squares xs = (\<Sum>x\<leftarrow>xs. (val_of x)\<^sup>2)"

lemma sum_dev: "(\<Sum>x\<leftarrow>xs. (val_of x - m)\<^sup>2) = squares xs - 2 * m * total xs + real (length xs) * m\<^sup>2"
  by (induction xs) (simp_all add: squares_def total_def power2_diff algebra_simps)

lemma total_avg: "total xs = real (length xs) * avg xs"
  by (cases xs) (simp_all add: avg_def total_def)

lemma sqdev_eq: "sqdev xs = squares xs - real (length xs) * (avg xs)\<^sup>2"
  unfolding sqdev_def sum_dev total_avg by (simp add: power2_eq_square algebra_simps)

lemma total_append: "total (xs @ ys) = total xs + total ys" "squares (xs @ ys) = squares xs + squares ys"
  by (simp_all add: total_def squares_def)

lemma foldr_max_base: "foldr max xs y = max y (foldr max xs (0 :: u64))"
  by (induction xs) (simp_all add: max.left_commute)

lemma foldr_min_base: "foldr min xs y = min y (foldr min xs (- 1 :: u64))"
proof (induction xs)
  case Nil
  have "y \<le> - 1" by (rule word_order.extremum)
  thus ?case by (simp add: min_absorb1)
qed (simp add: min.left_commute)

text \<open>The algebra of the update and of the merge.\<close>

lemma welford_mean: "0 \<le> n \<Longrightarrow> m + (v - m) / (n + 1) = (n * m + v) / (n + 1 :: real)"
  by (simp add: field_simps)

lemma welford_S:
  assumes "0 \<le> (n :: real)"
  shows "(q - n * m\<^sup>2) + (v - m) * (v - (n * m + v) / (n + 1)) = (q + v\<^sup>2) - (n + 1) * ((n * m + v) / (n + 1))\<^sup>2"
proof -
  define k where "k = n + 1"
  have k: "k \<noteq> 0" "n = k - 1" using assms by (auto simp: k_def)
  show ?thesis unfolding k(2) using k(1) by (simp add: field_simps power2_eq_square)
qed

lemma merge_S:
  assumes "0 \<le> (n :: real)" "0 < k"
  shows "(p + q) - (n + k) * ((b * k + a * n) / (n + k))\<^sup>2 =
    (q - k * b\<^sup>2) + (p - n * a\<^sup>2) + (b - a) * (b - a) * (n * k) / (n + k)"
proof -
  define t where "t = n + k"
  have t: "t \<noteq> 0" "n = t - k" using assms by (auto simp: t_def)
  show ?thesis unfolding t(2) using t(1) by (simp add: field_simps power2_eq_square)
qed

lemma describes_add:
  assumes "describes is xs" "length xs + 1 < 2 ^ 64"
  shows "describes (add_stat_sample exact x is) (xs @ [x])"
proof -
  let ?n = "real (length xs)" and ?m = "avg xs" and ?v = "val_of x"
  have n: "unat (samples is) = length xs" "val_of (samples is) = ?n" and m: "mean is = ?m" and S: "S is = sqdev xs"
    using assms(1) by (auto simp: describes_def val_of_def)
  let ?m' = "?m + (?v - ?m) / (?n + 1)"
  have avg': "avg (xs @ [x]) = ?m'" unfolding welford_mean[OF of_nat_0_le_iff]
    by (simp add: avg_def[of "xs @ [x]"] total_append total_avg[of xs] total_def[of "[x]"] add.commute)
  have dev': "sqdev (xs @ [x]) = sqdev xs + (?v - ?m) * (?v - ?m')"
    unfolding sqdev_eq avg' unfolding welford_mean[OF of_nat_0_le_iff] welford_S[OF of_nat_0_le_iff]
    by (simp add: total_append squares_def[of "[x]"] add.commute)
  have smp: "unat (samples is + 1) = length xs + 1" using n(1) assms(2) by (simp add: unat_word_ariths)
  have "mean (add_stat_sample exact x is) = ?m'" "S (add_stat_sample exact x is) = sqdev xs + (?v - ?m) * (?v - ?m')"
    using m S n(2) by (auto simp: add_stat_sample_def Let_def)
  moreover have "unat (samples (add_stat_sample exact x is)) = length xs + 1"
    using smp by (simp add: add_stat_sample_def Let_def)
  moreover have "max_val (add_stat_sample exact x is) = max x (max_val is)" "min_val (add_stat_sample exact x is) = min x (min_val is)"
    by (auto simp: add_stat_sample_def Let_def max_def min_def)
  ultimately show ?thesis
    using assms(1) avg' dev' by (simp add: describes_def foldr_max_base[of xs x] foldr_min_base[of xs x])
qed

lemma describes_run:
  assumes "describes is xs" "length xs + length ys < 2 ^ 64"
  shows "describes (fold (add_stat_sample exact) ys is) (xs @ ys)"
  using assms
proof (induction ys arbitrary: "is" xs)
  case (Cons y ys)
  have "describes (add_stat_sample exact y is) (xs @ [y])" using Cons.prems by (intro describes_add) auto
  from Cons.IH[OF this] Cons.prems show ?case by simp
qed simp

lemma describes_sum:
  assumes "describes dst xs" "describes src ys" "nr \<noteq> 1 \<or> xs = []"
    and "length xs + length ys < 2 ^ 64" "length xs * length ys < 2 ^ 64"
  shows "describes (sum_stat exact dst src nr) (xs @ ys)"
proof (cases "ys = []")
  case True
  hence "samples src = 0" using assms(2) by (simp add: describes_def unat_eq_zero)
  thus ?thesis using True assms(1) by (simp add: sum_stat_def)
next
  case False
  let ?n = "real (length xs)" and ?k = "real (length ys)"
  have k: "0 < ?k" using False by simp
  have n1: "unat (samples dst) = length xs" and n2: "unat (samples src) = length ys"
    using assms by (auto simp: describes_def)
  have nz: "samples src \<noteq> 0" using n2 False by auto
  have vs: "val_of (samples dst) = ?n" "val_of (samples src) = ?k" using n1 n2 by (simp_all add: val_of_def)
  have s: "unat (samples dst + samples src) = length xs + length ys" "unat (samples dst * samples src) = length xs * length ys"
    using assms(4,5) n1 n2 by (simp_all add: unat_word_ariths)
  have vt: "val_of (samples dst + samples src) = ?n + ?k" "val_of (samples dst * samples src) = ?n * ?k"
    unfolding val_of_def s by simp_all
  have am: "avg (xs @ ys) = (avg ys * ?k + avg xs * ?n) / (?n + ?k)"
    by (simp add: avg_def[of "xs @ ys"] total_append total_avg[of xs] total_avg[of ys] algebra_simps)
  have dv: "sqdev (xs @ ys) = sqdev ys + sqdev xs + (avg ys - avg xs) * (avg ys - avg xs) * (?n * ?k) / (?n + ?k)"
    unfolding sqdev_eq am merge_S[OF of_nat_0_le_iff k, symmetric] by (simp add: total_append)
  have "mean (sum_stat exact dst src nr) = avg (xs @ ys) \<and> S (sum_stat exact dst src nr) = sqdev (xs @ ys)"
    using assms(1-3) nz vs vt am dv
    by (auto simp: sum_stat_def describes_def Let_def avg_def total_def sqdev_def)
  moreover have "max_val (sum_stat exact dst src nr) = max (max_val dst) (max_val src)"
      "min_val (sum_stat exact dst src nr) = min (min_val dst) (min_val src)"
      "samples (sum_stat exact dst src nr) = samples dst + samples src"
    using nz by (auto simp: sum_stat_def Let_def max_def min_def word_min_def)
  ultimately show ?thesis using assms(1,2) s
    by (simp add: describes_def foldr_max_base[of xs "foldr max ys 0"] foldr_min_base[of xs "foldr min ys (- 1)"] max.commute min.commute)
qed



section \<open>Percentile lemmas\<close>

definition cum :: "u32 list \<Rightarrow> nat \<Rightarrow> nat" where
  "cum h k = sum_list (map unat (take k h))"

definition target :: "real \<Rightarrow> u64 \<Rightarrow> real" where
  "target p nr = p / 100 * val_of nr"

text \<open>The value \<open>v\<close> stands for the first bucket in which the count of samples reaches the percentile.\<close>

definition nearest_rank :: "u32 list \<Rightarrow> u64 \<Rightarrow> real \<Rightarrow> u32 \<Rightarrow> bool" where
  "nearest_rank h nr p v \<longleftrightarrow> (\<exists>i < length h. plat_idx_to_val (of_nat i) = Some v \<and>
     target p nr \<le> real (cum h (Suc i)) \<and> (\<forall>k < i. real (cum h (Suc k)) < target p nr))"

lemma percentile_reached_exact: "percentile_reached exact p nr acc \<longleftrightarrow> target p nr \<le> val_of acc"
  by (auto simp: percentile_reached_def target_def val_of_def)

lemma fp_qsort_exact: "fp_qsort exact xs = sort xs"
proof -
  have "fp_insort exact x ys = insort x ys" for x ys
    by (induction ys) (auto simp: double_cmp_def)
  hence "fp_insort exact = insort" by (intro ext)
  thus ?thesis by (simp add: fp_qsort_def sort_key_def)
qed

lemma clat_inner_ok:
  assumes "length (p_ovals st) < length plist" "\<forall>p \<in> set plist. p \<le> 100" "plat_idx_to_val (of_nat i) = Some v"
  shows "\<exists>last st' m. clat_inner exact plist nr acc i st = Some (last, st') \<and> p_ovals st' = p_ovals st @ replicate m v \<and>
    (\<forall>k. length (p_ovals st) \<le> k \<and> k < length (p_ovals st) + m \<longrightarrow> target (plist ! k) nr \<le> val_of acc) \<and>
    (if last then length (p_ovals st) + m = length plist
     else length (p_ovals st) + m < length plist \<and> val_of acc < target (plist ! (length (p_ovals st) + m)) nr)"
  using assms
proof (induction "length plist - length (p_ovals st)" arbitrary: st)
  case (Suc n)
  let ?j = "length (p_ovals st)"
  let ?st = "st\<lparr>p_ovals := p_ovals st @ [v], p_minv := (if v < p_minv st then v else p_minv st),
                p_maxv := (if v > p_maxv st then v else p_maxv st)\<rparr>"
  note step = clat_inner.simps[of exact plist nr acc i st] Let_def
  have "plist ! ?j \<le> 100" using Suc.prems(1,2) nth_mem by blast
  hence le: "\<not> 100 < plist ! ?j" by simp
  consider (no) "val_of acc < target (plist ! ?j) nr" | (stop) "target (plist ! ?j) nr \<le> val_of acc" "?j = length plist - 1"
    | (go) "target (plist ! ?j) nr \<le> val_of acc" "Suc ?j < length plist" using Suc.prems(1) by linarith
  thus ?case
  proof cases
    case no
    hence "clat_inner exact plist nr acc i st = Some (False, st)"
      using Suc.prems(1) by (simp add: step percentile_reached_exact)
    thus ?thesis using no Suc.prems(1) by (intro exI[of _ False] exI[of _ st] exI[of _ 0]) simp
  next
    case stop
    have "clat_inner exact plist nr acc i st = Some (True, ?st)"
      using stop Suc.prems le by (simp add: step percentile_reached_exact)
    thus ?thesis using stop Suc.prems(1) by (intro exI[of _ True] exI[of _ ?st] exI[of _ 1]) (auto simp: le_less_Suc_eq)
  next
    case go
    have "?j \<noteq> length plist - 1" using go(2) by simp
    hence e: "clat_inner exact plist nr acc i st = clat_inner exact plist nr acc i ?st"
      using go Suc.prems le by (simp add: step percentile_reached_exact)
    have "n = length plist - length (p_ovals ?st)" using Suc.hyps(2) by simp
    from Suc.hyps(1)[OF this _ Suc.prems(2,3)] go(2) obtain l st' m
      where r: "clat_inner exact plist nr acc i ?st = Some (l, st')" "p_ovals st' = p_ovals ?st @ replicate m v"
        "\<forall>k. length (p_ovals ?st) \<le> k \<and> k < length (p_ovals ?st) + m \<longrightarrow> target (plist ! k) nr \<le> val_of acc"
        "if l then length (p_ovals ?st) + m = length plist
         else length (p_ovals ?st) + m < length plist \<and> val_of acc < target (plist ! (length (p_ovals ?st) + m)) nr"
      by auto
    have "target (plist ! k) nr \<le> val_of acc" if "?j \<le> k" "k < ?j + Suc m" for k
      using r(3) go(1) that by (cases "k = ?j") auto
    moreover have "if l then ?j + Suc m = length plist else ?j + Suc m < length plist \<and> val_of acc < target (plist ! (?j + Suc m)) nr"
      using r(4) by (cases l) simp_all
    ultimately show ?thesis using e r(1,2) by (intro exI[of _ l] exI[of _ st'] exI[of _ "Suc m"]) simp
  qed
qed simp

lemma cum_Suc: "i < length h \<Longrightarrow> cum h (Suc i) = cum h i + unat (h ! i)"
  by (simp add: cum_def take_Suc_conv_app_nth)

lemma cum_mono: "i \<le> j \<Longrightarrow> cum h i \<le> cum h j"
  by (auto simp: cum_def le_iff_add take_add)

lemma target_mono: "p \<le> q \<Longrightarrow> target p nr \<le> target q nr"
  unfolding target_def by (intro mult_right_mono divide_right_mono) simp_all

lemma idx_to_val_ok: "i < 1216 \<Longrightarrow> \<exists>v. plat_idx_to_val (of_nat i) = Some v"
  using unat_u32[of i] by (simp add: plat_idx_to_val_def word_less_nat_alt Let_def)

lemma clat_outer_ok:
  assumes "full = pre @ rest" "full \<noteq> []" "length full \<le> 1216" "cum full (length full) < 2 ^ 64"
    and "sorted plist" "\<forall>p \<in> set plist. p \<le> 100"
    and "target (plist ! (length plist - 1)) nr \<le> real (cum full (length full))"
    and "unat acc = cum full (length pre)" "length (p_ovals st) < length plist"
    and "\<forall>k < length (p_ovals st). nearest_rank full nr (plist ! k) (p_ovals st ! k)"
    and "\<forall>k < length pre. real (cum full (Suc k)) < target (plist ! length (p_ovals st)) nr"
  shows "\<exists>st'. clat_outer exact plist nr acc (length pre) rest st = Some st' \<and> length (p_ovals st') = length plist \<and>
    (\<forall>k < length plist. nearest_rank full nr (plist ! k) (p_ovals st' ! k))"
  using assms
proof (induction rest arbitrary: pre acc st)
  case Nil
  let ?j = "length (p_ovals st)"
  have "target (plist ! ?j) nr \<le> target (plist ! (length plist - 1)) nr"
    using Nil.prems(5,9) by (intro target_mono sorted_nth_mono) auto
  moreover have "real (cum full (length full)) < target (plist ! ?j) nr"
    using Nil.prems(11)[rule_format, of "length full - 1"] Nil.prems(1,2) by simp
  ultimately show ?case using Nil.prems(7) by linarith
next
  case (Cons h rest)
  let ?j = "length (p_ovals st)" and ?i = "length pre" and ?acc = "acc + ucast h"
  have i: "?i < length full" "full ! ?i = h" using Cons.prems(1) by simp_all
  have c: "cum full (Suc ?i) = cum full ?i + unat h" using cum_Suc i by simp
  have "cum full (Suc ?i) \<le> cum full (length full)" using i by (intro cum_mono) simp
  moreover have "unat (ucast h :: u64) = unat h" by (rule unat_ucast_small) (use unat_lt[of h] in simp)
  ultimately have acc: "unat ?acc = cum full (Suc ?i)"
    using Cons.prems(4,8) c by (simp add: unat_word_ariths)
  obtain v where v: "plat_idx_to_val (of_nat ?i) = Some v" using idx_to_val_ok[of ?i] i Cons.prems(3) by auto
  from clat_inner_ok[OF Cons.prems(9,6) v, of nr ?acc] obtain l st' m
    where r: "clat_inner exact plist nr ?acc ?i st = Some (l, st')" "p_ovals st' = p_ovals st @ replicate m v"
      "\<And>k. ?j \<le> k \<Longrightarrow> k < ?j + m \<Longrightarrow> target (plist ! k) nr \<le> val_of ?acc"
      "if l then ?j + m = length plist else ?j + m < length plist \<and> val_of ?acc < target (plist ! (?j + m)) nr"
    by blast
  have va: "val_of ?acc = real (cum full (Suc ?i))" using acc by (simp add: val_of_def)
  have len: "?j + m \<le> length plist" using r(4) by (auto split: if_splits)
  have new: "nearest_rank full nr (plist ! k) v" if "?j \<le> k" "k < ?j + m" for k
  proof -
    have "target (plist ! ?j) nr \<le> target (plist ! k) nr"
      using Cons.prems(5) that len by (intro target_mono sorted_nth_mono) auto
    hence "\<forall>q < ?i. real (cum full (Suc q)) < target (plist ! k) nr" using Cons.prems(11) by (meson less_le_trans)
    thus ?thesis using i(1) v r(3)[OF that] va unfolding nearest_rank_def by (intro exI[of _ ?i]) simp
  qed
  have fin: "\<forall>k < length (p_ovals st'). nearest_rank full nr (plist ! k) (p_ovals st' ! k)"
    using Cons.prems(10) new by (auto simp: r(2) nth_append)
  show ?case
  proof (cases l)
    case True
    hence "?j + m = length plist" using r(4) by simp
    thus ?thesis using True r(1,2) fin by (auto simp: Let_def)
  next
    case False
    hence f: "?j + m < length plist" "val_of ?acc < target (plist ! (?j + m)) nr" using r(4) by simp_all
    have lt: "real (cum full (Suc k)) < target (plist ! length (p_ovals st')) nr" if "k < length (pre @ [h])" for k
    proof -
      have "cum full (Suc k) \<le> cum full (Suc ?i)" using that by (intro cum_mono) simp
      thus ?thesis using f(2) va r(2) by simp
    qed
    have "\<exists>st''. clat_outer exact plist nr ?acc (length (pre @ [h])) rest st' = Some st'' \<and> length (p_ovals st'') = length plist \<and>
        (\<forall>k < length plist. nearest_rank full nr (plist ! k) (p_ovals st'' ! k))"
      by (rule Cons.IH) (use Cons.prems(1-7) acc f(1) r(2) fin lt in auto)
    thus ?thesis using False r(1) by (auto simp: Let_def)
  qed
qed


lemma all_less_two: "(\<forall>j < (2 :: nat). P j) \<longleftrightarrow> P 0 \<and> P 1"
  by (auto simp: less_2_cases_iff)


section \<open>Shape of the statistics\<close>

text \<open>The arrays have the sizes of \<open>stat.h\<close>, and the submit and complete counters add up to the totals
  (modulo the width of a counter).\<close>

definition ts_wf :: "'d thread_stat \<Rightarrow> bool" where
  "ts_wf ts \<longleftrightarrow> length (io_u_map ts) = FIO_IO_U_MAP_NR \<and> length (io_u_submit ts) = FIO_IO_U_MAP_NR \<and>
     length (io_u_complete ts) = FIO_IO_U_MAP_NR \<and> length (io_u_lat_u ts) = FIO_IO_U_LAT_U_NR \<and>
     length (io_u_lat_m ts) = FIO_IO_U_LAT_M_NR \<and> length (fst (io_u_plat ts)) = 1216 \<and> length (snd (io_u_plat ts)) = 1216 \<and>
     length (total_io_u ts) = 3 \<and> length (short_io_u ts) = 3 \<and>
     sum_list (io_u_submit ts) = ucast (total_submit ts) \<and> sum_list (io_u_complete ts) = ucast (total_complete ts)"

lemmas stat_sizes = FIO_IO_U_MAP_NR_def FIO_IO_U_LAT_U_NR_def FIO_IO_U_LAT_M_NR_def

lemma arr_inc_ok: "i < length xs \<Longrightarrow> \<exists>ys. arr_inc xs i n = Some ys \<and> length ys = length xs \<and> sum_list ys = sum_list xs + n"
proof -
  assume i: "i < length xs"
  have "sum_list (xs[i := xs ! i + n]) = sum_list xs + n"
    using i by (induction xs arbitrary: i) (auto split: nat.split simp: algebra_simps)
  thus ?thesis using i by (simp add: arr_inc_def)
qed

lemma bucket_bounds: "map_bucket n < 7" "depth_bucket n < 7" "lat_bucket t < 10"
  by (simp_all add: map_bucket_def depth_bucket_def lat_bucket_def)

lemma ucast_add: "(ucast (x + y) :: u32) = ucast x + ucast (y :: u64)"
proof -
  have "unat (ucast (x + y) :: u32) = (unat x + unat y) mod 2 ^ 64 mod 2 ^ 32"
    by (simp add: unsigned_ucast_eq unat_word_ariths take_bit_eq_mod)
  also have "\<dots> = (unat x mod 2 ^ 32 + unat y mod 2 ^ 32) mod 2 ^ 32" by (simp add: mod_mod_cancel mod_add_eq)
  also have "\<dots> = unat (ucast x + ucast y :: u32)"
    by (simp add: unsigned_ucast_eq unat_word_ariths take_bit_eq_mod)
  finally show ?thesis by (simp add: word_unat_eq_iff)
qed

lemma mark_submit_wf: "ts_wf ts \<Longrightarrow> \<exists>ts'. io_u_mark_submit nr ts = Some ts' \<and> ts_wf ts'"
  using arr_inc_ok[of "map_bucket nr" "io_u_submit ts" 1] bucket_bounds(1)[of nr]
  by (auto simp: io_u_mark_submit_def io_u_mark_map_def ts_wf_def stat_sizes ucast_add)

lemma mark_complete_wf: "ts_wf ts \<Longrightarrow> \<exists>ts'. io_u_mark_complete nr ts = Some ts' \<and> ts_wf ts'"
  using arr_inc_ok[of "map_bucket nr" "io_u_complete ts" 1] bucket_bounds(1)[of nr]
  by (auto simp: io_u_mark_complete_def io_u_mark_map_def ts_wf_def stat_sizes ucast_add)

lemma mark_depth_wf: "ts_wf ts \<Longrightarrow> \<exists>ts'. io_u_mark_depth d nr ts = Some ts' \<and> ts_wf ts'"
  using arr_inc_ok[of "depth_bucket d" "io_u_map ts" nr] bucket_bounds(2)[of d]
  by (auto simp: io_u_mark_depth_def ts_wf_def stat_sizes)

lemma mark_latency_wf: "ts_wf ts \<Longrightarrow> \<exists>ts'. io_u_mark_latency usec ts = Some ts' \<and> ts_wf ts'"
proof (cases "usec < 1000")
  case True
  assume "ts_wf ts"
  thus ?thesis using True arr_inc_ok[of "lat_bucket usec" "io_u_lat_u ts" 1] bucket_bounds(3)[of usec]
    by (auto simp: io_u_mark_latency_def io_u_mark_lat_usec_def ts_wf_def stat_sizes)
next
  case False
  let ?t = "usec div 1000"
  let ?i = "if 2000 \<le> ?t then 11 else if 1000 \<le> ?t then 10 else lat_bucket ?t"
  assume wf: "ts_wf ts"
  have "?i < 12" using bucket_bounds(3)[of ?t] by auto
  thus ?thesis using wf False arr_inc_ok[of ?i "io_u_lat_m ts" 1]
    by (auto simp: io_u_mark_latency_def io_u_mark_lat_msec_def ts_wf_def stat_sizes)
qed

lemma plat_sample_wf: "ts_wf ts \<Longrightarrow> \<exists>ts'. add_clat_percentile_sample ts usec ddir = Some ts' \<and> ts_wf ts'"
proof -
  assume wf: "ts_wf ts"
  let ?idx = "plat_val_to_idx (ucast usec)"
  have i: "unat ?idx < 1216" by (simp add: unat_plat_idx)
  hence "unat ?idx < length (at2 (io_u_plat ts) ddir)" using wf by (auto simp: at2_def ts_wf_def)
  from arr_inc_ok[OF this, of 1] obtain ys where "arr_inc (at2 (io_u_plat ts) ddir) (unat ?idx) 1 = Some ys"
      "length ys = length (at2 (io_u_plat ts) ddir)" by blast
  thus ?thesis using wf i
    by (auto simp: add_clat_percentile_sample_def Let_def word_less_nat_alt ts_wf_def upd2_def at2_def)
qed

lemma sum_list_add_lists:
  "length xs = length ys \<Longrightarrow> sum_list (add_lists xs ys) = sum_list xs + sum_list (ys :: 'a :: comm_monoid_add list)"
  unfolding add_lists_def by (induction xs ys rule: list_induct2) (simp_all add: algebra_simps)

lemma length_add_lists: "length (add_lists xs ys) = min (length xs) (length ys)"
  by (simp add: add_lists_def)

lemma sum_thread_stats_wf: "ts_wf dst \<Longrightarrow> ts_wf src \<Longrightarrow> ts_wf (sum_thread_stats fp dst src nr)"
  by (simp add: ts_wf_def sum_thread_stats_def sum_list_add_lists length_add_lists map2p_def ucast_add)



end
