(* ===== verification/Crc.thy ===== *)
theory Crc
  imports Fio_Prelude "HOL-Library.Monad_Syntax"
begin

text \<open>
  The cyclic redundancy checks of \<open>crc/\<close>: the tables and loops of \<open>crc7.c\<close>, \<open>crc16.c\<close>,
  \<open>crc32.c\<close>, \<open>crc32c.c\<close>, \<open>crc64.c\<close> and the hardware variant of \<open>crc32c-intel.c\<close>,
  against the bit at a time division by the polynomial.

  A table lookup outside the table and a read behind the buffer give \<open>None\<close>.
\<close>

section \<open>Division one bit at a time\<close>

text \<open>One step of the reflected (least significant bit first) and of the plain (most
  significant bit first) register.\<close>

definition refl_bit :: "'a::len word \<Rightarrow> 'a word \<Rightarrow> 'a word" where
  "refl_bit poly c = (if odd c then drop_bit 1 c XOR poly else drop_bit 1 c)"

definition msb_bit :: "'a::len word \<Rightarrow> 'a word \<Rightarrow> 'a word" where
  "msb_bit poly c = (if bit c (LENGTH('a) - 1) then push_bit 1 c XOR poly else push_bit 1 c)"

definition refl_adv :: "'a::len word \<Rightarrow> 'a word \<Rightarrow> 'a word" where
  "refl_adv poly = refl_bit poly ^^ 8"

definition msb_adv :: "'a::len word \<Rightarrow> 'a word \<Rightarrow> 'a word" where
  "msb_adv poly = msb_bit poly ^^ 8"

text \<open>Where a byte enters the register.\<close>

definition refl_in :: "u8 \<Rightarrow> 'a::len word" where
  "refl_in b = ucast b"

definition msb_in :: "u8 \<Rightarrow> 'a::len word" where
  "msb_in b = push_bit (LENGTH('a) - 8) (ucast b)"

definition crc_fold :: "('a::len word \<Rightarrow> 'a word) \<Rightarrow> (u8 \<Rightarrow> 'a word) \<Rightarrow> 'a word \<Rightarrow> bytes \<Rightarrow> 'a word" where
  "crc_fold adv inb = foldl (\<lambda>c b. adv (c XOR inb b))"

lemma bit_xor_word: "bit (a XOR b) n \<longleftrightarrow> bit a n \<noteq> bit b n" for a b :: "'a::len word"
  by (simp add: bit_xor_iff)

lemma odd_bit0: "odd c \<longleftrightarrow> bit c 0" for c :: "'a::len word"
  by (simp add: bit_0)

lemma refl_bit_xor: "refl_bit p (a XOR b) = refl_bit p a XOR refl_bit p b"
proof -
  have d: "drop_bit 1 (a XOR b) = drop_bit 1 a XOR drop_bit 1 b" by (rule drop_bit_xor)
  show ?thesis
    unfolding refl_bit_def odd_bit0 bit_xor_word d
    by (simp add: xor.assoc xor.commute xor.left_commute)
qed

lemma msb_bit_xor: "msb_bit p (a XOR b) = msb_bit p a XOR msb_bit p b"
proof -
  have d: "push_bit 1 (a XOR b) = push_bit 1 a XOR push_bit 1 b" by (rule push_bit_xor)
  show ?thesis
    unfolding msb_bit_def bit_xor_word d
    by (simp add: xor.assoc xor.commute xor.left_commute)
qed

lemma funpow_xor:
  fixes f :: "'a::len word \<Rightarrow> 'a word"
  assumes "\<And>a b. f (a XOR b) = f a XOR f b"
  shows "(f ^^ n) (a XOR b) = (f ^^ n) a XOR (f ^^ n) b"
  by (induction n) (simp_all add: assms)

lemma refl_adv_xor: "refl_adv p (a XOR b) = refl_adv p a XOR refl_adv p b"
  unfolding refl_adv_def by (rule funpow_xor) (rule refl_bit_xor)

lemma msb_adv_xor: "msb_adv p (a XOR b) = msb_adv p a XOR msb_adv p b"
  unfolding msb_adv_def by (rule funpow_xor) (rule msb_bit_xor)

text \<open>Bits that do not reach the end of the register are only shifted.\<close>

lemma drop_push_top:
  fixes q :: "'a::len word"
  assumes "\<not> bit q (LENGTH('a) - 1)"
  shows "drop_bit 1 (push_bit 1 q) = q"
proof (rule bit_word_eqI)
  fix n assume "n < LENGTH('a)"
  then show "bit (drop_bit 1 (push_bit 1 q)) n = bit q n"
    using assms unfolding bit_drop_bit_eq bit_push_bit_iff o_apply by (cases "n = LENGTH('a) - 1") auto
qed

lemma refl_bit_push:
  fixes q :: "'a::len word"
  assumes "\<not> bit q (LENGTH('a) - 1)"
  shows "refl_bit p (push_bit 1 q) = q"
proof -
  have "\<not> bit (push_bit 1 q) 0" unfolding bit_push_bit_iff by simp
  with drop_push_top[OF assms] show ?thesis unfolding refl_bit_def odd_bit0 by (simp only: if_False)
qed

lemma refl_shift:
  "n \<le> LENGTH('a) \<Longrightarrow> (\<And>j. LENGTH('a) - n \<le> j \<Longrightarrow> \<not> bit q j) \<Longrightarrow> (refl_bit p ^^ n) (push_bit n q) = q"
  for q :: "'a::len word"
proof (induction n arbitrary: q)
  case (Suc n)
  have "(refl_bit p ^^ Suc n) (push_bit (Suc n) q) = (refl_bit p ^^ n) (refl_bit p (push_bit 1 (push_bit n q)))"
    by (simp only: funpow_Suc_right o_apply push_bit_push_bit plus_1_eq_Suc)
  also have "refl_bit p (push_bit 1 (push_bit n q)) = push_bit n q"
    using Suc.prems by (intro refl_bit_push) (auto simp: bit_push_bit_iff)
  also have "(refl_bit p ^^ n) (push_bit n q) = q"
    using Suc.prems by (intro Suc.IH) auto
  finally show ?case .
qed simp

lemma push_drop_even:
  fixes q :: "'a::len word"
  assumes "\<not> bit q 0"
  shows "push_bit 1 (drop_bit 1 q) = q"
proof (rule bit_word_eqI)
  fix n assume "n < LENGTH('a)"
  then show "bit (push_bit 1 (drop_bit 1 q)) n = bit q n"
    using assms unfolding bit_drop_bit_eq bit_push_bit_iff o_apply by (cases n) auto
qed

lemma msb_bit_drop:
  fixes q :: "'a::len word"
  assumes "\<not> bit q 0"
  shows "msb_bit p (drop_bit 1 q) = q"
proof -
  have "\<not> bit (drop_bit 1 q) (LENGTH('a) - 1)"
    unfolding bit_drop_bit_eq o_apply using bit_imp_le_length[of q "1 + (LENGTH('a) - 1)"] by fastforce
  then show ?thesis unfolding msb_bit_def using push_drop_even[OF assms] by (simp only: if_False)
qed

lemma msb_shift:
  "(\<And>j. j < n \<Longrightarrow> \<not> bit q j) \<Longrightarrow> (msb_bit p ^^ n) (drop_bit n q) = q" for q :: "'a::len word"
proof (induction n arbitrary: q)
  case (Suc n)
  have "(msb_bit p ^^ Suc n) (drop_bit (Suc n) q) = (msb_bit p ^^ n) (msb_bit p (drop_bit 1 (drop_bit n q)))"
    by (simp only: funpow_Suc_right o_apply drop_bit_drop_bit plus_1_eq_Suc)
  also have "msb_bit p (drop_bit 1 (drop_bit n q)) = drop_bit n q"
    using Suc.prems by (intro msb_bit_drop) (simp add: bit_drop_bit_eq)
  also have "(msb_bit p ^^ n) (drop_bit n q) = q"
    using Suc.prems by (intro Suc.IH) auto
  finally show ?case .
qed simp

section \<open>Tables\<close>

fun xor_span :: "'a::len word list \<Rightarrow> 'a word list" where
  "xor_span [] = [0]"
| "xor_span (b # bs) = (let s = xor_span bs in s @ map (\<lambda>x. b XOR x) s)"

lemma of_nat_high_bit: "i < 2 ^ n \<Longrightarrow> (of_nat (2 ^ n + i) :: 'a::len word) = 2 ^ n XOR of_nat i"
proof -
  assume i: "i < 2 ^ n"
  have "\<not> bit i n" using i by (simp add: bit_nat_def)
  then have "(2 ^ n :: 'a word) AND of_nat i = 0"
    by (intro bit_word_eqI) (auto simp: bit_and_iff bit_exp_iff bit_of_nat_iff)
  then show ?thesis by (simp add: disjunctive_add_eq_xor)
qed

lemma upt_double: "[0..<2 ^ Suc n] = [0..<2 ^ n] @ map (\<lambda>i. 2 ^ n + i) [0..<2 ^ n]"
  using map_add_upt[of "2 ^ n" "2 ^ n"] upt_add_eq_append[of 0 "2 ^ n" "2 ^ n"]
  by (simp add: mult_2 add.commute)

lemma xor_span_linear:
  fixes f :: "'a::len word \<Rightarrow> 'b::len word"
  assumes "\<And>a b. f (a XOR b) = f a XOR f b"
  shows "xor_span (map (\<lambda>k. f (2 ^ k)) (rev [0..<n])) = map (\<lambda>i. f (of_nat i)) [0..<2 ^ n]"
proof (induction n)
  case 0
  show ?case using assms[of 0 0] by simp
next
  case (Suc n)
  have "map (\<lambda>x. f (2 ^ n) XOR x) (map (\<lambda>i. f (of_nat i)) [0..<2 ^ n])
      = map (\<lambda>i. f (of_nat (2 ^ n + i))) [0..<2 ^ n]"
    unfolding map_map by (rule map_cong) (simp_all only: o_apply set_upt atLeastLessThan_iff of_nat_high_bit assms)
  then show ?case
    unfolding upt_double map_append map_map o_def by (simp add: Suc.IH Let_def o_def)
qed

lemma table_entry:
  fixes f :: "'a::len word \<Rightarrow> 'b::len word"
  assumes "\<And>a b. f (a XOR b) = f a XOR f b"
    and "xor_span (map f [128, 64, 32, 16, 8, 4, 2, 1]) = tab"
  shows "length tab = 256" and "i < 256 \<Longrightarrow> tab ! i = f (of_nat i)"
proof -
  have "map (\<lambda>k. f (2 ^ k)) (rev [0..<8]) = map f [128, 64, 32, 16, 8, 4, 2, 1]"
    by (simp add: upt_rec)
  with xor_span_linear[of f 8] assms have tab: "tab = map (\<lambda>i. f (of_nat i)) [0..<256]" by simp
  then show "length tab = 256" "i < 256 \<Longrightarrow> tab ! i = f (of_nat i)" by simp_all
qed

text \<open>Evaluation of a step on a literal.\<close>

lemma refl_bit_eval:
  "refl_bit p (numeral (num.Bit0 n)) = drop_bit 1 (numeral (num.Bit0 n) :: 'a::len word)"
  "refl_bit p (numeral (num.Bit1 n)) = drop_bit 1 (numeral (num.Bit1 n)) XOR (p :: 'a::len word)"
  "refl_bit p 1 = drop_bit 1 1 XOR (p :: 'a::len word)"
  by (simp_all add: refl_bit_def)

lemma funpow_8: "(f ^^ 8) x = f (f (f (f (f (f (f (f x)))))))"
  by (simp add: eval_nat_numeral)

lemma refl_adv_eval: "refl_adv p c =
    refl_bit p (refl_bit p (refl_bit p (refl_bit p (refl_bit p (refl_bit p (refl_bit p (refl_bit p c)))))))"
  by (simp add: refl_adv_def funpow_8)

lemma msb_adv_eval: "msb_adv p c =
    msb_bit p (msb_bit p (msb_bit p (msb_bit p (msb_bit p (msb_bit p (msb_bit p (msb_bit p c)))))))"
  by (simp add: msb_adv_def funpow_8)

definition crc7_syndrome_table :: "u8 list" where
  "crc7_syndrome_table = [
    0x00, 0x09, 0x12, 0x1b, 0x24, 0x2d, 0x36, 0x3f, 0x48, 0x41, 0x5a, 0x53, 0x6c, 0x65, 0x7e, 0x77,
    0x19, 0x10, 0x0b, 0x02, 0x3d, 0x34, 0x2f, 0x26, 0x51, 0x58, 0x43, 0x4a, 0x75, 0x7c, 0x67, 0x6e,
    0x32, 0x3b, 0x20, 0x29, 0x16, 0x1f, 0x04, 0x0d, 0x7a, 0x73, 0x68, 0x61, 0x5e, 0x57, 0x4c, 0x45,
    0x2b, 0x22, 0x39, 0x30, 0x0f, 0x06, 0x1d, 0x14, 0x63, 0x6a, 0x71, 0x78, 0x47, 0x4e, 0x55, 0x5c,
    0x64, 0x6d, 0x76, 0x7f, 0x40, 0x49, 0x52, 0x5b, 0x2c, 0x25, 0x3e, 0x37, 0x08, 0x01, 0x1a, 0x13,
    0x7d, 0x74, 0x6f, 0x66, 0x59, 0x50, 0x4b, 0x42, 0x35, 0x3c, 0x27, 0x2e, 0x11, 0x18, 0x03, 0x0a,
    0x56, 0x5f, 0x44, 0x4d, 0x72, 0x7b, 0x60, 0x69, 0x1e, 0x17, 0x0c, 0x05, 0x3a, 0x33, 0x28, 0x21,
    0x4f, 0x46, 0x5d, 0x54, 0x6b, 0x62, 0x79, 0x70, 0x07, 0x0e, 0x15, 0x1c, 0x23, 0x2a, 0x31, 0x38,
    0x41, 0x48, 0x53, 0x5a, 0x65, 0x6c, 0x77, 0x7e, 0x09, 0x00, 0x1b, 0x12, 0x2d, 0x24, 0x3f, 0x36,
    0x58, 0x51, 0x4a, 0x43, 0x7c, 0x75, 0x6e, 0x67, 0x10, 0x19, 0x02, 0x0b, 0x34, 0x3d, 0x26, 0x2f,
    0x73, 0x7a, 0x61, 0x68, 0x57, 0x5e, 0x45, 0x4c, 0x3b, 0x32, 0x29, 0x20, 0x1f, 0x16, 0x0d, 0x04,
    0x6a, 0x63, 0x78, 0x71, 0x4e, 0x47, 0x5c, 0x55, 0x22, 0x2b, 0x30, 0x39, 0x06, 0x0f, 0x14, 0x1d,
    0x25, 0x2c, 0x37, 0x3e, 0x01, 0x08, 0x13, 0x1a, 0x6d, 0x64, 0x7f, 0x76, 0x49, 0x40, 0x5b, 0x52,
    0x3c, 0x35, 0x2e, 0x27, 0x18, 0x11, 0x0a, 0x03, 0x74, 0x7d, 0x66, 0x6f, 0x50, 0x59, 0x42, 0x4b,
    0x17, 0x1e, 0x05, 0x0c, 0x33, 0x3a, 0x21, 0x28, 0x5f, 0x56, 0x4d, 0x44, 0x7b, 0x72, 0x69, 0x60,
    0x0e, 0x07, 0x1c, 0x15, 0x2a, 0x23, 0x38, 0x31, 0x46, 0x4f, 0x54, 0x5d, 0x62, 0x6b, 0x70, 0x79]"

definition crc16_table :: "u16 list" where
  "crc16_table = [
    0x0000, 0xC0C1, 0xC181, 0x0140, 0xC301, 0x03C0, 0x0280, 0xC241,
    0xC601, 0x06C0, 0x0780, 0xC741, 0x0500, 0xC5C1, 0xC481, 0x0440,
    0xCC01, 0x0CC0, 0x0D80, 0xCD41, 0x0F00, 0xCFC1, 0xCE81, 0x0E40,
    0x0A00, 0xCAC1, 0xCB81, 0x0B40, 0xC901, 0x09C0, 0x0880, 0xC841,
    0xD801, 0x18C0, 0x1980, 0xD941, 0x1B00, 0xDBC1, 0xDA81, 0x1A40,
    0x1E00, 0xDEC1, 0xDF81, 0x1F40, 0xDD01, 0x1DC0, 0x1C80, 0xDC41,
    0x1400, 0xD4C1, 0xD581, 0x1540, 0xD701, 0x17C0, 0x1680, 0xD641,
    0xD201, 0x12C0, 0x1380, 0xD341, 0x1100, 0xD1C1, 0xD081, 0x1040,
    0xF001, 0x30C0, 0x3180, 0xF141, 0x3300, 0xF3C1, 0xF281, 0x3240,
    0x3600, 0xF6C1, 0xF781, 0x3740, 0xF501, 0x35C0, 0x3480, 0xF441,
    0x3C00, 0xFCC1, 0xFD81, 0x3D40, 0xFF01, 0x3FC0, 0x3E80, 0xFE41,
    0xFA01, 0x3AC0, 0x3B80, 0xFB41, 0x3900, 0xF9C1, 0xF881, 0x3840,
    0x2800, 0xE8C1, 0xE981, 0x2940, 0xEB01, 0x2BC0, 0x2A80, 0xEA41,
    0xEE01, 0x2EC0, 0x2F80, 0xEF41, 0x2D00, 0xEDC1, 0xEC81, 0x2C40,
    0xE401, 0x24C0, 0x2580, 0xE541, 0x2700, 0xE7C1, 0xE681, 0x2640,
    0x2200, 0xE2C1, 0xE381, 0x2340, 0xE101, 0x21C0, 0x2080, 0xE041,
    0xA001, 0x60C0, 0x6180, 0xA141, 0x6300, 0xA3C1, 0xA281, 0x6240,
    0x6600, 0xA6C1, 0xA781, 0x6740, 0xA501, 0x65C0, 0x6480, 0xA441,
    0x6C00, 0xACC1, 0xAD81, 0x6D40, 0xAF01, 0x6FC0, 0x6E80, 0xAE41,
    0xAA01, 0x6AC0, 0x6B80, 0xAB41, 0x6900, 0xA9C1, 0xA881, 0x6840,
    0x7800, 0xB8C1, 0xB981, 0x7940, 0xBB01, 0x7BC0, 0x7A80, 0xBA41,
    0xBE01, 0x7EC0, 0x7F80, 0xBF41, 0x7D00, 0xBDC1, 0xBC81, 0x7C40,
    0xB401, 0x74C0, 0x7580, 0xB541, 0x7700, 0xB7C1, 0xB681, 0x7640,
    0x7200, 0xB2C1, 0xB381, 0x7340, 0xB101, 0x71C0, 0x7080, 0xB041,
    0x5000, 0x90C1, 0x9181, 0x5140, 0x9301, 0x53C0, 0x5280, 0x9241,
    0x9601, 0x56C0, 0x5780, 0x9741, 0x5500, 0x95C1, 0x9481, 0x5440,
    0x9C01, 0x5CC0, 0x5D80, 0x9D41, 0x5F00, 0x9FC1, 0x9E81, 0x5E40,
    0x5A00, 0x9AC1, 0x9B81, 0x5B40, 0x9901, 0x59C0, 0x5880, 0x9841,
    0x8801, 0x48C0, 0x4980, 0x8941, 0x4B00, 0x8BC1, 0x8A81, 0x4A40,
    0x4E00, 0x8EC1, 0x8F81, 0x4F40, 0x8D01, 0x4DC0, 0x4C80, 0x8C41,
    0x4400, 0x84C1, 0x8581, 0x4540, 0x8701, 0x47C0, 0x4680, 0x8641,
    0x8201, 0x42C0, 0x4380, 0x8341, 0x4100, 0x81C1, 0x8081, 0x4040]"

definition crctab :: "u32 list" where
  "crctab = [
    0x0, 0x04C11DB7, 0x09823B6E, 0x0D4326D9, 0x130476DC, 0x17C56B6B, 0x1A864DB2, 0x1E475005,
    0x2608EDB8, 0x22C9F00F, 0x2F8AD6D6, 0x2B4BCB61, 0x350C9B64, 0x31CD86D3, 0x3C8EA00A, 0x384FBDBD,
    0x4C11DB70, 0x48D0C6C7, 0x4593E01E, 0x4152FDA9, 0x5F15ADAC, 0x5BD4B01B, 0x569796C2, 0x52568B75,
    0x6A1936C8, 0x6ED82B7F, 0x639B0DA6, 0x675A1011, 0x791D4014, 0x7DDC5DA3, 0x709F7B7A, 0x745E66CD,
    0x9823B6E0, 0x9CE2AB57, 0x91A18D8E, 0x95609039, 0x8B27C03C, 0x8FE6DD8B, 0x82A5FB52, 0x8664E6E5,
    0xBE2B5B58, 0xBAEA46EF, 0xB7A96036, 0xB3687D81, 0xAD2F2D84, 0xA9EE3033, 0xA4AD16EA, 0xA06C0B5D,
    0xD4326D90, 0xD0F37027, 0xDDB056FE, 0xD9714B49, 0xC7361B4C, 0xC3F706FB, 0xCEB42022, 0xCA753D95,
    0xF23A8028, 0xF6FB9D9F, 0xFBB8BB46, 0xFF79A6F1, 0xE13EF6F4, 0xE5FFEB43, 0xE8BCCD9A, 0xEC7DD02D,
    0x34867077, 0x30476DC0, 0x3D044B19, 0x39C556AE, 0x278206AB, 0x23431B1C, 0x2E003DC5, 0x2AC12072,
    0x128E9DCF, 0x164F8078, 0x1B0CA6A1, 0x1FCDBB16, 0x018AEB13, 0x054BF6A4, 0x0808D07D, 0x0CC9CDCA,
    0x7897AB07, 0x7C56B6B0, 0x71159069, 0x75D48DDE, 0x6B93DDDB, 0x6F52C06C, 0x6211E6B5, 0x66D0FB02,
    0x5E9F46BF, 0x5A5E5B08, 0x571D7DD1, 0x53DC6066, 0x4D9B3063, 0x495A2DD4, 0x44190B0D, 0x40D816BA,
    0xACA5C697, 0xA864DB20, 0xA527FDF9, 0xA1E6E04E, 0xBFA1B04B, 0xBB60ADFC, 0xB6238B25, 0xB2E29692,
    0x8AAD2B2F, 0x8E6C3698, 0x832F1041, 0x87EE0DF6, 0x99A95DF3, 0x9D684044, 0x902B669D, 0x94EA7B2A,
    0xE0B41DE7, 0xE4750050, 0xE9362689, 0xEDF73B3E, 0xF3B06B3B, 0xF771768C, 0xFA325055, 0xFEF34DE2,
    0xC6BCF05F, 0xC27DEDE8, 0xCF3ECB31, 0xCBFFD686, 0xD5B88683, 0xD1799B34, 0xDC3ABDED, 0xD8FBA05A,
    0x690CE0EE, 0x6DCDFD59, 0x608EDB80, 0x644FC637, 0x7A089632, 0x7EC98B85, 0x738AAD5C, 0x774BB0EB,
    0x4F040D56, 0x4BC510E1, 0x46863638, 0x42472B8F, 0x5C007B8A, 0x58C1663D, 0x558240E4, 0x51435D53,
    0x251D3B9E, 0x21DC2629, 0x2C9F00F0, 0x285E1D47, 0x36194D42, 0x32D850F5, 0x3F9B762C, 0x3B5A6B9B,
    0x0315D626, 0x07D4CB91, 0x0A97ED48, 0x0E56F0FF, 0x1011A0FA, 0x14D0BD4D, 0x19939B94, 0x1D528623,
    0xF12F560E, 0xF5EE4BB9, 0xF8AD6D60, 0xFC6C70D7, 0xE22B20D2, 0xE6EA3D65, 0xEBA91BBC, 0xEF68060B,
    0xD727BBB6, 0xD3E6A601, 0xDEA580D8, 0xDA649D6F, 0xC423CD6A, 0xC0E2D0DD, 0xCDA1F604, 0xC960EBB3,
    0xBD3E8D7E, 0xB9FF90C9, 0xB4BCB610, 0xB07DABA7, 0xAE3AFBA2, 0xAAFBE615, 0xA7B8C0CC, 0xA379DD7B,
    0x9B3660C6, 0x9FF77D71, 0x92B45BA8, 0x9675461F, 0x8832161A, 0x8CF30BAD, 0x81B02D74, 0x857130C3,
    0x5D8A9099, 0x594B8D2E, 0x5408ABF7, 0x50C9B640, 0x4E8EE645, 0x4A4FFBF2, 0x470CDD2B, 0x43CDC09C,
    0x7B827D21, 0x7F436096, 0x7200464F, 0x76C15BF8, 0x68860BFD, 0x6C47164A, 0x61043093, 0x65C52D24,
    0x119B4BE9, 0x155A565E, 0x18197087, 0x1CD86D30, 0x029F3D35, 0x065E2082, 0x0B1D065B, 0x0FDC1BEC,
    0x3793A651, 0x3352BBE6, 0x3E119D3F, 0x3AD08088, 0x2497D08D, 0x2056CD3A, 0x2D15EBE3, 0x29D4F654,
    0xC5A92679, 0xC1683BCE, 0xCC2B1D17, 0xC8EA00A0, 0xD6AD50A5, 0xD26C4D12, 0xDF2F6BCB, 0xDBEE767C,
    0xE3A1CBC1, 0xE760D676, 0xEA23F0AF, 0xEEE2ED18, 0xF0A5BD1D, 0xF464A0AA, 0xF9278673, 0xFDE69BC4,
    0x89B8FD09, 0x8D79E0BE, 0x803AC667, 0x84FBDBD0, 0x9ABC8BD5, 0x9E7D9662, 0x933EB0BB, 0x97FFAD0C,
    0xAFB010B1, 0xAB710D06, 0xA6322BDF, 0xA2F33668, 0xBCB4666D, 0xB8757BDA, 0xB5365D03, 0xB1F740B4]"

definition crc32c_table :: "u32 list" where
  "crc32c_table = [
    0x00000000, 0xF26B8303, 0xE13B70F7, 0x1350F3F4, 0xC79A971F, 0x35F1141C, 0x26A1E7E8, 0xD4CA64EB,
    0x8AD958CF, 0x78B2DBCC, 0x6BE22838, 0x9989AB3B, 0x4D43CFD0, 0xBF284CD3, 0xAC78BF27, 0x5E133C24,
    0x105EC76F, 0xE235446C, 0xF165B798, 0x030E349B, 0xD7C45070, 0x25AFD373, 0x36FF2087, 0xC494A384,
    0x9A879FA0, 0x68EC1CA3, 0x7BBCEF57, 0x89D76C54, 0x5D1D08BF, 0xAF768BBC, 0xBC267848, 0x4E4DFB4B,
    0x20BD8EDE, 0xD2D60DDD, 0xC186FE29, 0x33ED7D2A, 0xE72719C1, 0x154C9AC2, 0x061C6936, 0xF477EA35,
    0xAA64D611, 0x580F5512, 0x4B5FA6E6, 0xB93425E5, 0x6DFE410E, 0x9F95C20D, 0x8CC531F9, 0x7EAEB2FA,
    0x30E349B1, 0xC288CAB2, 0xD1D83946, 0x23B3BA45, 0xF779DEAE, 0x05125DAD, 0x1642AE59, 0xE4292D5A,
    0xBA3A117E, 0x4851927D, 0x5B016189, 0xA96AE28A, 0x7DA08661, 0x8FCB0562, 0x9C9BF696, 0x6EF07595,
    0x417B1DBC, 0xB3109EBF, 0xA0406D4B, 0x522BEE48, 0x86E18AA3, 0x748A09A0, 0x67DAFA54, 0x95B17957,
    0xCBA24573, 0x39C9C670, 0x2A993584, 0xD8F2B687, 0x0C38D26C, 0xFE53516F, 0xED03A29B, 0x1F682198,
    0x5125DAD3, 0xA34E59D0, 0xB01EAA24, 0x42752927, 0x96BF4DCC, 0x64D4CECF, 0x77843D3B, 0x85EFBE38,
    0xDBFC821C, 0x2997011F, 0x3AC7F2EB, 0xC8AC71E8, 0x1C661503, 0xEE0D9600, 0xFD5D65F4, 0x0F36E6F7,
    0x61C69362, 0x93AD1061, 0x80FDE395, 0x72966096, 0xA65C047D, 0x5437877E, 0x4767748A, 0xB50CF789,
    0xEB1FCBAD, 0x197448AE, 0x0A24BB5A, 0xF84F3859, 0x2C855CB2, 0xDEEEDFB1, 0xCDBE2C45, 0x3FD5AF46,
    0x7198540D, 0x83F3D70E, 0x90A324FA, 0x62C8A7F9, 0xB602C312, 0x44694011, 0x5739B3E5, 0xA55230E6,
    0xFB410CC2, 0x092A8FC1, 0x1A7A7C35, 0xE811FF36, 0x3CDB9BDD, 0xCEB018DE, 0xDDE0EB2A, 0x2F8B6829,
    0x82F63B78, 0x709DB87B, 0x63CD4B8F, 0x91A6C88C, 0x456CAC67, 0xB7072F64, 0xA457DC90, 0x563C5F93,
    0x082F63B7, 0xFA44E0B4, 0xE9141340, 0x1B7F9043, 0xCFB5F4A8, 0x3DDE77AB, 0x2E8E845F, 0xDCE5075C,
    0x92A8FC17, 0x60C37F14, 0x73938CE0, 0x81F80FE3, 0x55326B08, 0xA759E80B, 0xB4091BFF, 0x466298FC,
    0x1871A4D8, 0xEA1A27DB, 0xF94AD42F, 0x0B21572C, 0xDFEB33C7, 0x2D80B0C4, 0x3ED04330, 0xCCBBC033,
    0xA24BB5A6, 0x502036A5, 0x4370C551, 0xB11B4652, 0x65D122B9, 0x97BAA1BA, 0x84EA524E, 0x7681D14D,
    0x2892ED69, 0xDAF96E6A, 0xC9A99D9E, 0x3BC21E9D, 0xEF087A76, 0x1D63F975, 0x0E330A81, 0xFC588982,
    0xB21572C9, 0x407EF1CA, 0x532E023E, 0xA145813D, 0x758FE5D6, 0x87E466D5, 0x94B49521, 0x66DF1622,
    0x38CC2A06, 0xCAA7A905, 0xD9F75AF1, 0x2B9CD9F2, 0xFF56BD19, 0x0D3D3E1A, 0x1E6DCDEE, 0xEC064EED,
    0xC38D26C4, 0x31E6A5C7, 0x22B65633, 0xD0DDD530, 0x0417B1DB, 0xF67C32D8, 0xE52CC12C, 0x1747422F,
    0x49547E0B, 0xBB3FFD08, 0xA86F0EFC, 0x5A048DFF, 0x8ECEE914, 0x7CA56A17, 0x6FF599E3, 0x9D9E1AE0,
    0xD3D3E1AB, 0x21B862A8, 0x32E8915C, 0xC083125F, 0x144976B4, 0xE622F5B7, 0xF5720643, 0x07198540,
    0x590AB964, 0xAB613A67, 0xB831C993, 0x4A5A4A90, 0x9E902E7B, 0x6CFBAD78, 0x7FAB5E8C, 0x8DC0DD8F,
    0xE330A81A, 0x115B2B19, 0x020BD8ED, 0xF0605BEE, 0x24AA3F05, 0xD6C1BC06, 0xC5914FF2, 0x37FACCF1,
    0x69E9F0D5, 0x9B8273D6, 0x88D28022, 0x7AB90321, 0xAE7367CA, 0x5C18E4C9, 0x4F48173D, 0xBD23943E,
    0xF36E6F75, 0x0105EC76, 0x12551F82, 0xE03E9C81, 0x34F4F86A, 0xC69F7B69, 0xD5CF889D, 0x27A40B9E,
    0x79B737BA, 0x8BDCB4B9, 0x988C474D, 0x6AE7C44E, 0xBE2DA0A5, 0x4C4623A6, 0x5F16D052, 0xAD7D5351]"

definition crctab64 :: "u64 list" where
  "crctab64 = [
    0x0000000000000000, 0x7ad870c830358979, 0xf5b0e190606b12f2, 0x8f689158505e9b8b,
    0xc038e5739841b68f, 0xbae095bba8743ff6, 0x358804e3f82aa47d, 0x4f50742bc81f2d04,
    0xab28ecb46814fe75, 0xd1f09c7c5821770c, 0x5e980d24087fec87, 0x24407dec384a65fe,
    0x6b1009c7f05548fa, 0x11c8790fc060c183, 0x9ea0e857903e5a08, 0xe478989fa00bd371,
    0x7d08ff3b88be6f81, 0x07d08ff3b88be6f8, 0x88b81eabe8d57d73, 0xf2606e63d8e0f40a,
    0xbd301a4810ffd90e, 0xc7e86a8020ca5077, 0x4880fbd87094cbfc, 0x32588b1040a14285,
    0xd620138fe0aa91f4, 0xacf86347d09f188d, 0x2390f21f80c18306, 0x594882d7b0f40a7f,
    0x1618f6fc78eb277b, 0x6cc0863448deae02, 0xe3a8176c18803589, 0x997067a428b5bcf0,
    0xfa11fe77117cdf02, 0x80c98ebf2149567b, 0x0fa11fe77117cdf0, 0x75796f2f41224489,
    0x3a291b04893d698d, 0x40f16bccb908e0f4, 0xcf99fa94e9567b7f, 0xb5418a5cd963f206,
    0x513912c379682177, 0x2be1620b495da80e, 0xa489f35319033385, 0xde51839b2936bafc,
    0x9101f7b0e12997f8, 0xebd98778d11c1e81, 0x64b116208142850a, 0x1e6966e8b1770c73,
    0x8719014c99c2b083, 0xfdc17184a9f739fa, 0x72a9e0dcf9a9a271, 0x08719014c99c2b08,
    0x4721e43f0183060c, 0x3df994f731b68f75, 0xb29105af61e814fe, 0xc849756751dd9d87,
    0x2c31edf8f1d64ef6, 0x56e99d30c1e3c78f, 0xd9810c6891bd5c04, 0xa3597ca0a188d57d,
    0xec09088b6997f879, 0x96d1784359a27100, 0x19b9e91b09fcea8b, 0x636199d339c963f2,
    0xdf7adabd7a6e2d6f, 0xa5a2aa754a5ba416, 0x2aca3b2d1a053f9d, 0x50124be52a30b6e4,
    0x1f423fcee22f9be0, 0x659a4f06d21a1299, 0xeaf2de5e82448912, 0x902aae96b271006b,
    0x74523609127ad31a, 0x0e8a46c1224f5a63, 0x81e2d7997211c1e8, 0xfb3aa75142244891,
    0xb46ad37a8a3b6595, 0xceb2a3b2ba0eecec, 0x41da32eaea507767, 0x3b024222da65fe1e,
    0xa2722586f2d042ee, 0xd8aa554ec2e5cb97, 0x57c2c41692bb501c, 0x2d1ab4dea28ed965,
    0x624ac0f56a91f461, 0x1892b03d5aa47d18, 0x97fa21650afae693, 0xed2251ad3acf6fea,
    0x095ac9329ac4bc9b, 0x7382b9faaaf135e2, 0xfcea28a2faafae69, 0x8632586aca9a2710,
    0xc9622c4102850a14, 0xb3ba5c8932b0836d, 0x3cd2cdd162ee18e6, 0x460abd1952db919f,
    0x256b24ca6b12f26d, 0x5fb354025b277b14, 0xd0dbc55a0b79e09f, 0xaa03b5923b4c69e6,
    0xe553c1b9f35344e2, 0x9f8bb171c366cd9b, 0x10e3202993385610, 0x6a3b50e1a30ddf69,
    0x8e43c87e03060c18, 0xf49bb8b633338561, 0x7bf329ee636d1eea, 0x012b592653589793,
    0x4e7b2d0d9b47ba97, 0x34a35dc5ab7233ee, 0xbbcbcc9dfb2ca865, 0xc113bc55cb19211c,
    0x5863dbf1e3ac9dec, 0x22bbab39d3991495, 0xadd33a6183c78f1e, 0xd70b4aa9b3f20667,
    0x985b3e827bed2b63, 0xe2834e4a4bd8a21a, 0x6debdf121b863991, 0x1733afda2bb3b0e8,
    0xf34b37458bb86399, 0x8993478dbb8deae0, 0x06fbd6d5ebd3716b, 0x7c23a61ddbe6f812,
    0x3373d23613f9d516, 0x49aba2fe23cc5c6f, 0xc6c333a67392c7e4, 0xbc1b436e43a74e9d,
    0x95ac9329ac4bc9b5, 0xef74e3e19c7e40cc, 0x601c72b9cc20db47, 0x1ac40271fc15523e,
    0x5594765a340a7f3a, 0x2f4c0692043ff643, 0xa02497ca54616dc8, 0xdafce7026454e4b1,
    0x3e847f9dc45f37c0, 0x445c0f55f46abeb9, 0xcb349e0da4342532, 0xb1eceec59401ac4b,
    0xfebc9aee5c1e814f, 0x8464ea266c2b0836, 0x0b0c7b7e3c7593bd, 0x71d40bb60c401ac4,
    0xe8a46c1224f5a634, 0x927c1cda14c02f4d, 0x1d148d82449eb4c6, 0x67ccfd4a74ab3dbf,
    0x289c8961bcb410bb, 0x5244f9a98c8199c2, 0xdd2c68f1dcdf0249, 0xa7f41839ecea8b30,
    0x438c80a64ce15841, 0x3954f06e7cd4d138, 0xb63c61362c8a4ab3, 0xcce411fe1cbfc3ca,
    0x83b465d5d4a0eece, 0xf96c151de49567b7, 0x76048445b4cbfc3c, 0x0cdcf48d84fe7545,
    0x6fbd6d5ebd3716b7, 0x15651d968d029fce, 0x9a0d8ccedd5c0445, 0xe0d5fc06ed698d3c,
    0xaf85882d2576a038, 0xd55df8e515432941, 0x5a3569bd451db2ca, 0x20ed197575283bb3,
    0xc49581ead523e8c2, 0xbe4df122e51661bb, 0x3125607ab548fa30, 0x4bfd10b2857d7349,
    0x04ad64994d625e4d, 0x7e7514517d57d734, 0xf11d85092d094cbf, 0x8bc5f5c11d3cc5c6,
    0x12b5926535897936, 0x686de2ad05bcf04f, 0xe70573f555e26bc4, 0x9ddd033d65d7e2bd,
    0xd28d7716adc8cfb9, 0xa85507de9dfd46c0, 0x273d9686cda3dd4b, 0x5de5e64efd965432,
    0xb99d7ed15d9d8743, 0xc3450e196da80e3a, 0x4c2d9f413df695b1, 0x36f5ef890dc31cc8,
    0x79a59ba2c5dc31cc, 0x037deb6af5e9b8b5, 0x8c157a32a5b7233e, 0xf6cd0afa9582aa47,
    0x4ad64994d625e4da, 0x300e395ce6106da3, 0xbf66a804b64ef628, 0xc5bed8cc867b7f51,
    0x8aeeace74e645255, 0xf036dc2f7e51db2c, 0x7f5e4d772e0f40a7, 0x05863dbf1e3ac9de,
    0xe1fea520be311aaf, 0x9b26d5e88e0493d6, 0x144e44b0de5a085d, 0x6e963478ee6f8124,
    0x21c640532670ac20, 0x5b1e309b16452559, 0xd476a1c3461bbed2, 0xaeaed10b762e37ab,
    0x37deb6af5e9b8b5b, 0x4d06c6676eae0222, 0xc26e573f3ef099a9, 0xb8b627f70ec510d0,
    0xf7e653dcc6da3dd4, 0x8d3e2314f6efb4ad, 0x0256b24ca6b12f26, 0x788ec2849684a65f,
    0x9cf65a1b368f752e, 0xe62e2ad306bafc57, 0x6946bb8b56e467dc, 0x139ecb4366d1eea5,
    0x5ccebf68aecec3a1, 0x2616cfa09efb4ad8, 0xa97e5ef8cea5d153, 0xd3a62e30fe90582a,
    0xb0c7b7e3c7593bd8, 0xca1fc72bf76cb2a1, 0x45775673a732292a, 0x3faf26bb9707a053,
    0x70ff52905f188d57, 0x0a2722586f2d042e, 0x854fb3003f739fa5, 0xff97c3c80f4616dc,
    0x1bef5b57af4dc5ad, 0x61372b9f9f784cd4, 0xee5fbac7cf26d75f, 0x9487ca0fff135e26,
    0xdbd7be24370c7322, 0xa10fceec0739fa5b, 0x2e675fb4576761d0, 0x54bf2f7c6752e8a9,
    0xcdcf48d84fe75459, 0xb71738107fd2dd20, 0x387fa9482f8c46ab, 0x42a7d9801fb9cfd2,
    0x0df7adabd7a6e2d6, 0x772fdd63e7936baf, 0xf8474c3bb7cdf024, 0x829f3cf387f8795d,
    0x66e7a46c27f3aa2c, 0x1c3fd4a417c62355, 0x935745fc4798b8de, 0xe98f353477ad31a7,
    0xa6df411fbfb21ca3, 0xdc0731d78f8795da, 0x536fa08fdfd90e51, 0x29b7d047efec8728]"

lemma crc7_table_span: "xor_span (map (\<lambda>x. drop_bit 1 (msb_adv 0x12 x)) [128, 64, 32, 16, 8, 4, 2, 1]) = crc7_syndrome_table"
  by (simp add: msb_adv_eval msb_bit_def crc7_syndrome_table_def Let_def)

lemma crc16_table_span: "xor_span (map (refl_adv 0xA001) [128, 64, 32, 16, 8, 4, 2, 1]) = crc16_table"
  by (simp add: refl_adv_eval refl_bit_eval crc16_table_def Let_def)

lemma crctab_span: "xor_span (map (\<lambda>x. msb_adv 0x04C11DB7 (push_bit 24 x)) [128, 64, 32, 16, 8, 4, 2, 1]) = crctab"
  by (simp add: msb_adv_eval msb_bit_def crctab_def Let_def)

lemma crc32c_table_span: "xor_span (map (refl_adv 0x82F63B78) [128, 64, 32, 16, 8, 4, 2, 1]) = crc32c_table"
  by (simp add: refl_adv_eval refl_bit_eval crc32c_table_def Let_def)

lemma crctab64_span: "xor_span (map (refl_adv 0x95AC9329AC4BC9B5) [128, 64, 32, 16, 8, 4, 2, 1]) = crctab64"
  by (simp add: refl_adv_eval refl_bit_eval crctab64_def Let_def)

lemma drop_msb_adv_xor: "drop_bit 1 (msb_adv p (a XOR b)) = drop_bit 1 (msb_adv p a) XOR drop_bit 1 (msb_adv p b)"
  unfolding msb_adv_xor by (rule drop_bit_xor)

lemma msb_adv_push_xor:
  "msb_adv p (push_bit n (a XOR b)) = msb_adv p (push_bit n a) XOR msb_adv p (push_bit n b)"
  unfolding push_bit_xor by (rule msb_adv_xor)

lemmas crc7_table_entry = table_entry[OF drop_msb_adv_xor crc7_table_span]
lemmas crc16_table_entry = table_entry[OF refl_adv_xor crc16_table_span]
lemmas crctab_entry = table_entry[OF msb_adv_push_xor crctab_span]
lemmas crc32c_table_entry = table_entry[OF refl_adv_xor crc32c_table_span]
lemmas crctab64_entry = table_entry[OF refl_adv_xor crctab64_span]

section \<open>The routines\<close>

text \<open>\<open>while (len--) crc = step(crc, *cp++)\<close>\<close>

fun crc_while :: "('a \<Rightarrow> u8 \<Rightarrow> 'a option) \<Rightarrow> 'a \<Rightarrow> bytes \<Rightarrow> nat \<Rightarrow> 'a option" where
  "crc_while step crc buf 0 = Some crc"
| "crc_while step crc [] (Suc len) = None"
| "crc_while step crc (b # buf) (Suc len) = do { crc' \<leftarrow> step crc b; crc_while step crc' buf len }"

definition crc7_byte :: "u8 \<Rightarrow> u8 \<Rightarrow> u8 option" where
  "crc7_byte crc data = arr_get crc7_syndrome_table (unat (push_bit 1 (ucast crc :: u32) XOR ucast data))"

definition fio_crc7 :: "bytes \<Rightarrow> u32 \<Rightarrow> u8 option" where
  "fio_crc7 buffer len = crc_while crc7_byte 0 buffer (unat len)"

definition crc16_byte :: "u16 \<Rightarrow> u8 \<Rightarrow> u16 option" where
  "crc16_byte crc data = do {
     t \<leftarrow> arr_get crc16_table (unat ((crc XOR ucast data) AND 0xff));
     Some (drop_bit 8 crc XOR t) }"

definition fio_crc16 :: "bytes \<Rightarrow> u32 \<Rightarrow> u16 option" where
  "fio_crc16 buffer len = crc_while crc16_byte 0 buffer (unat len)"

definition crc32_byte :: "u32 \<Rightarrow> u8 \<Rightarrow> u32 option" where
  "crc32_byte crc data = do {
     t \<leftarrow> arr_get crctab (unat ((drop_bit 24 crc XOR ucast data) AND 0xff));
     Some (push_bit 8 crc XOR t) }"

definition fio_crc32 :: "bytes \<Rightarrow> u64 \<Rightarrow> u32 option" where
  "fio_crc32 buffer len = crc_while crc32_byte 0 buffer (unat len)"

definition crc32c_byte :: "u32 \<Rightarrow> u8 \<Rightarrow> u32 option" where
  "crc32c_byte crc data = do {
     t \<leftarrow> arr_get crc32c_table (unat ((crc XOR ucast data) AND 0xff));
     Some (t XOR drop_bit 8 crc) }"

definition crc32c_sw :: "bytes \<Rightarrow> u64 \<Rightarrow> u32 option" where
  "crc32c_sw data len = crc_while crc32c_byte (NOT 0) data (unat len)"

definition crc64_byte :: "u64 \<Rightarrow> u8 \<Rightarrow> u64 option" where
  "crc64_byte crc data = do {
     t \<leftarrow> arr_get crctab64 (unat ((crc XOR ucast data) AND 0xff));
     Some (t XOR drop_bit 8 crc) }"

definition fio_crc64 :: "bytes \<Rightarrow> u64 \<Rightarrow> u64 option" where
  "fio_crc64 buffer len = crc_while crc64_byte 0 buffer (unat len)"

text \<open>The hardware variant: \<open>hwb\<close> and \<open>hwq\<close> are the byte and the quad word form of the
  processor's instruction. The quotient is kept in an \<open>unsigned int\<close>.\<close>

fun crc32c_intel_quads :: "(u32 \<Rightarrow> u64 \<Rightarrow> u32) \<Rightarrow> u32 \<Rightarrow> bytes \<Rightarrow> nat \<Rightarrow> (u32 \<times> bytes) option" where
  "crc32c_intel_quads hwq crc data 0 = Some (crc, data)"
| "crc32c_intel_quads hwq crc data (Suc n) = do {
     q \<leftarrow> mem_read data 0 8;
     crc32c_intel_quads hwq (hwq crc (le_dec q)) (drop 8 data) n }"

definition crc32c_intel_le_hw_byte :: "(u32 \<Rightarrow> u8 \<Rightarrow> u32) \<Rightarrow> u32 \<Rightarrow> bytes \<Rightarrow> u64 \<Rightarrow> u32 option" where
  "crc32c_intel_le_hw_byte hwb crc data len = crc_while (\<lambda>c b. Some (hwb c b)) crc data (unat len)"

definition crc32c_intel :: "(u32 \<Rightarrow> u8 \<Rightarrow> u32) \<Rightarrow> (u32 \<Rightarrow> u64 \<Rightarrow> u32) \<Rightarrow> bytes \<Rightarrow> u64 \<Rightarrow> u32 option" where
  "crc32c_intel hwb hwq data len = do {
     let iquotient = (ucast (len div 8) :: u32);
     let iremainder = (ucast (len mod 8) :: u32);
     (crc, ptmp) \<leftarrow> crc32c_intel_quads hwq (NOT 0) data (unat iquotient);
     if iremainder \<noteq> 0 then crc32c_intel_le_hw_byte hwb crc ptmp (ucast iremainder) else Some crc }"

definition fio_crc32c ::
    "bool \<Rightarrow> (u32 \<Rightarrow> u8 \<Rightarrow> u32) \<Rightarrow> (u32 \<Rightarrow> u64 \<Rightarrow> u32) \<Rightarrow> bytes \<Rightarrow> u64 \<Rightarrow> u32 option" where
  "fio_crc32c crc32c_intel_available hwb hwq buf len =
     (if crc32c_intel_available then crc32c_intel hwb hwq buf len else crc32c_sw buf len)"

section \<open>Table driven equals bit at a time\<close>

text \<open>The contract between a table driven byte step and the register it implements.\<close>

locale crc_step =
  fixes step :: "'a \<Rightarrow> u8 \<Rightarrow> 'a option"
    and ok :: "'a \<Rightarrow> bool"
    and reg :: "'a \<Rightarrow> 'b::len word"
    and adv :: "'b word \<Rightarrow> 'b word"
    and inb :: "u8 \<Rightarrow> 'b word"
  assumes step_law: "ok c \<Longrightarrow> \<exists>c'. step c b = Some c' \<and> ok c' \<and> reg c' = adv (reg c XOR inb b)"
begin

lemma while_fold:
  assumes "ok c" "n \<le> length buf"
  shows "\<exists>c'. crc_while step c buf n = Some c' \<and> ok c' \<and> reg c' = crc_fold adv inb (reg c) (take n buf)"
  using assms
proof (induction n arbitrary: c buf)
  case (Suc n)
  then obtain b bs where buf: "buf = b # bs" by (cases buf) auto
  obtain c' where "step c b = Some c'" "ok c'" "reg c' = adv (reg c XOR inb b)"
    using step_law Suc.prems(1) by blast
  with Suc.IH[of c' bs] Suc.prems(2) show ?case by (simp add: buf crc_fold_def)
qed (simp add: crc_fold_def)

lemma while_short: "length buf < n \<Longrightarrow> crc_while step c buf n = None"
proof (induction n arbitrary: c buf)
  case (Suc n)
  then show ?case by (cases buf) (auto simp: Option.bind_eq_None_conv)
qed simp

end

lemma low_byte_split:
  fixes c :: "'a::len word"
  assumes "8 \<le> LENGTH('a)"
  shows "c = (c AND 0xff) XOR push_bit 8 (drop_bit 8 c)"
  by (rule bit_word_eqI) (auto simp: byte_mask bit_xor_iff bit_and_iff bit_push_bit_iff bit_drop_bit_eq bit_mask_iff)

lemma refl_adv_split:
  fixes c :: "'a::len word"
  assumes "8 \<le> LENGTH('a)"
  shows "refl_adv p c = refl_adv p (c AND 0xff) XOR drop_bit 8 c"
proof -
  have "refl_adv p (push_bit 8 (drop_bit 8 c)) = drop_bit 8 c"
    unfolding refl_adv_def using assms
    by (intro refl_shift) (auto simp: bit_drop_bit_eq dest: bit_imp_le_length)
  then show ?thesis
    by (metis low_byte_split[OF assms] refl_adv_xor)
qed

lemma refl_table_step:
  fixes c :: "'a::len word"
  assumes "8 \<le> LENGTH('a)" and "length tab = 256" and "\<And>i. i < 256 \<Longrightarrow> tab ! i = refl_adv p (of_nat i)"
  shows "arr_get tab (unat (c AND 0xff)) = Some (refl_adv p (c AND 0xff))"
  using unat_low_byte[of c] assms by simp

lemma drop_8_byte: "drop_bit 8 (ucast (b :: u8) :: 'a::len word) = 0"
  by (rule bit_word_eqI) (auto simp: bit_drop_bit_eq bit_ucast_iff dest: bit_imp_le_length)

lemma crc16_byte_eq: "crc16_byte c b = Some (refl_adv 0xA001 (c XOR refl_in b))"
  using refl_table_step[OF _ crc16_table_entry, of "c XOR ucast b"] refl_adv_split[of "0xA001" "c XOR ucast b"]
  by (simp add: crc16_byte_def refl_in_def drop_8_byte xor.commute)

lemma crc32c_byte_eq: "crc32c_byte c b = Some (refl_adv 0x82F63B78 (c XOR refl_in b))"
  using refl_table_step[OF _ crc32c_table_entry, of "c XOR ucast b"] refl_adv_split[of "0x82F63B78" "c XOR ucast b"]
  by (simp add: crc32c_byte_def refl_in_def drop_8_byte)

lemma crc64_byte_eq: "crc64_byte c b = Some (refl_adv 0x95AC9329AC4BC9B5 (c XOR refl_in b))"
  using refl_table_step[OF _ crctab64_entry, of "c XOR ucast b"] refl_adv_split[of "0x95AC9329AC4BC9B5" "c XOR ucast b"]
  by (simp add: crc64_byte_def refl_in_def drop_8_byte)

lemma msb_adv_split: "msb_adv p c = msb_adv p (push_bit 24 (drop_bit 24 c)) XOR push_bit 8 c" for c :: u32
proof -
  have "c = push_bit 24 (drop_bit 24 c) XOR drop_bit 8 (push_bit 8 c)"
    by (rule bit_word_eqI) (auto simp: bit_xor_iff bit_push_bit_iff bit_drop_bit_eq dest: bit_imp_le_length)
  moreover have "msb_adv p (drop_bit 8 (push_bit 8 c)) = push_bit 8 c"
    unfolding msb_adv_def by (intro msb_shift) (simp add: bit_push_bit_iff)
  ultimately show ?thesis by (metis msb_adv_xor)
qed

lemma crc32_byte_eq: "crc32_byte c b = Some (msb_adv 0x04C11DB7 (c XOR msb_in b))"
proof -
  define x where "x = c XOR (msb_in b :: u32)"
  have top: "(drop_bit 24 c XOR ucast b) AND 0xff = drop_bit 24 x" "push_bit 8 x = push_bit 8 c"
    by (rule bit_word_eqI, auto simp: x_def msb_in_def byte_mask bit_and_iff bit_mask_iff bit_xor_iff
        bit_drop_bit_eq bit_push_bit_iff bit_ucast_iff dest: bit_imp_le_length)+
  have "unat (drop_bit 24 x) < 256" using unat_low_byte[of "drop_bit 24 c XOR ucast b"] top(1) by simp
  then have "arr_get crctab (unat (drop_bit 24 x)) = Some (msb_adv 0x04C11DB7 (push_bit 24 (drop_bit 24 x)))"
    using crctab_entry by simp
  then show ?thesis
    using msb_adv_split[of "0x04C11DB7" x] unfolding crc32_byte_def top(1) x_def[symmetric]
    by (simp add: top(2) xor.commute)
qed

lemma msb_adv_even: "\<not> bit p 0 \<Longrightarrow> \<not> bit (msb_adv p x) 0"
proof -
  assume "\<not> bit p 0"
  then have "\<not> bit (msb_bit p y) 0" for y
    unfolding msb_bit_def by (simp only: bit_xor_iff bit_push_bit_iff split: if_split) simp
  then show ?thesis unfolding msb_adv_eval .
qed

lemma lt_128_iff: "c < 128 \<longleftrightarrow> \<not> bit c 7" for c :: u8
proof -
  have "c < 128 \<longleftrightarrow> drop_bit 7 c = 0"
    by (simp add: word_less_nat_alt word_unat_eq_iff drop_bit_eq_div unat_div div_eq_0_iff)
  also have "\<dots> \<longleftrightarrow> \<not> bit c 7"
  proof -
    have "bit c (7 + n) \<longleftrightarrow> bit c 7 \<and> n = 0" for n
      using bit_imp_le_length[of c "7 + n"] by (cases "n = 0") auto
    then have bits: "bit (drop_bit 7 c) n \<longleftrightarrow> bit c 7 \<and> n = 0" for n by (simp add: bit_drop_bit_eq)
    then have "\<not> bit c 7 \<Longrightarrow> drop_bit 7 c = 0" by (intro bit_word_eqI) simp
    moreover have "drop_bit 7 c = 0 \<Longrightarrow> \<not> bit c 7" using bits[of 0] by simp
    ultimately show ?thesis by blast
  qed
  finally show ?thesis .
qed

lemma crc7_byte_eq:
  assumes "c < 128"
  shows "\<exists>c'. crc7_byte c b = Some c' \<and> c' < 128 \<and> push_bit 1 c' = msb_adv 0x12 (push_bit 1 c XOR msb_in b)"
proof -
  define y where "y = push_bit 1 c XOR b"
  define z where "z = msb_adv 0x12 y"
  have "push_bit 1 (ucast c :: u32) XOR ucast b = ucast y"
  proof (rule bit_word_eqI)
    fix n assume "n < LENGTH(32)"
    then show "bit (push_bit 1 (ucast c :: u32) XOR ucast b) n = bit (ucast y :: u32) n"
      unfolding y_def bit_xor_iff bit_push_bit_iff bit_ucast_iff using assms lt_128_iff[of c]
      by (cases "n = 8") (auto dest: bit_imp_le_length)
  qed
  then have "crc7_byte c b = arr_get crc7_syndrome_table (unat y)"
    unfolding crc7_byte_def using unat_lt[of y] by (simp add: unsigned_ucast_eq take_bit_nat_eq_self)
  also have "\<dots> = Some (drop_bit 1 z)"
    using crc7_table_entry(1) crc7_table_entry(2)[of "unat y"] unat_lt[of y] by (simp add: z_def)
  finally have "crc7_byte c b = Some (drop_bit 1 z)" .
  moreover have "drop_bit 1 z < 128"
    unfolding lt_128_iff bit_drop_bit_eq o_apply using bit_imp_le_length[of z 8] by auto
  moreover have "\<not> bit z 0" unfolding z_def by (rule msb_adv_even) simp
  then have "push_bit 1 (drop_bit 1 z) = z" by (rule push_drop_even)
  moreover have "y = push_bit 1 c XOR msb_in b" by (simp add: y_def msb_in_def)
  ultimately show ?thesis unfolding z_def by blast
qed

interpretation crc7: crc_step crc7_byte "\<lambda>c. c < 128" "push_bit 1" "msb_adv 0x12" msb_in
  by unfold_locales (rule crc7_byte_eq)

interpretation crc16: crc_step crc16_byte "\<lambda>_. True" "\<lambda>c. c" "refl_adv 0xA001" refl_in
  by unfold_locales (simp add: crc16_byte_eq)

interpretation crc32: crc_step crc32_byte "\<lambda>_. True" "\<lambda>c. c" "msb_adv 0x04C11DB7" msb_in
  by unfold_locales (simp add: crc32_byte_eq)

interpretation crc32c: crc_step crc32c_byte "\<lambda>_. True" "\<lambda>c. c" "refl_adv 0x82F63B78" refl_in
  by unfold_locales (simp add: crc32c_byte_eq)

interpretation crc64: crc_step crc64_byte "\<lambda>_. True" "\<lambda>c. c" "refl_adv 0x95AC9329AC4BC9B5" refl_in
  by unfold_locales (simp add: crc64_byte_eq)

section \<open>Detection of bursts\<close>

definition crc_pack :: "(u8 \<Rightarrow> 'a::len word) \<Rightarrow> ('a word \<Rightarrow> 'a word) \<Rightarrow> bytes \<Rightarrow> 'a word" where
  "crc_pack inb sh ds = foldr (\<lambda>d p. inb d XOR sh p) ds 0"

text \<open>A register that advances linearly and without loss, and the word that a burst of at most
  \<open>burst\<close> bytes amounts to when it is lined up with the register.\<close>

locale crc_register =
  fixes adv :: "'a::len word \<Rightarrow> 'a word"
    and inb :: "u8 \<Rightarrow> 'a word"
    and sh :: "'a word \<Rightarrow> 'a word"
    and burst :: nat
  assumes adv_xor: "adv (a XOR b) = adv a XOR adv b"
    and adv_nonzero: "adv a = 0 \<Longrightarrow> a = 0"
    and adv_sh: "length ds < burst \<Longrightarrow> adv (sh (crc_pack inb sh ds)) = crc_pack inb sh ds"
    and pack_inj: "length ds \<le> burst \<Longrightarrow> length es = length ds \<Longrightarrow> crc_pack inb sh ds = crc_pack inb sh es \<Longrightarrow> ds = es"
begin

lemma adv_inj: "adv a = adv b \<Longrightarrow> a = b"
  using adv_nonzero[of "a XOR b"] by (simp add: adv_xor xor_zero_iff)

lemma fold_pack: "length ds \<le> burst \<Longrightarrow> crc_fold adv inb s ds = (adv ^^ length ds) (s XOR crc_pack inb sh ds)"
proof (induction ds arbitrary: s)
  case (Cons d ds)
  have "crc_fold adv inb s (d # ds) = (adv ^^ length ds) (adv (s XOR inb d) XOR crc_pack inb sh ds)"
    using Cons by (simp add: crc_fold_def)
  also have "adv (s XOR inb d) XOR crc_pack inb sh ds = adv (s XOR crc_pack inb sh (d # ds))"
    using adv_sh[of ds] Cons.prems adv_xor[of "s XOR inb d" "sh (crc_pack inb sh ds)"]
    by (simp add: crc_pack_def xor.assoc)
  finally show ?case by (simp add: funpow_swap1)
qed (simp add: crc_fold_def crc_pack_def)

lemma funpow_adv_inj: "(adv ^^ n) a = (adv ^^ n) b \<Longrightarrow> a = b"
  by (induction n) (auto dest: adv_inj)

lemma fold_state_inj: "crc_fold adv inb s bs = crc_fold adv inb t bs \<Longrightarrow> s = t"
proof (induction bs arbitrary: s t)
  case (Cons b bs)
  then have "adv (s XOR inb b) = adv (t XOR inb b)" by (simp add: crc_fold_def)
  then have "s XOR inb b = t XOR inb b" by (rule adv_inj)
  then show ?case by simp
qed (simp add: crc_fold_def)

lemma burst_detected:
  assumes "length ds \<le> burst" "length es = length ds" "ds \<noteq> es"
  shows "crc_fold adv inb s (pre @ ds @ post) \<noteq> crc_fold adv inb s (pre @ es @ post)"
proof
  assume "crc_fold adv inb s (pre @ ds @ post) = crc_fold adv inb s (pre @ es @ post)"
  then have "crc_fold adv inb (crc_fold adv inb s pre) ds = crc_fold adv inb (crc_fold adv inb s pre) es"
    using fold_state_inj by (simp add: crc_fold_def)
  then have "crc_fold adv inb s pre XOR crc_pack inb sh ds = crc_fold adv inb s pre XOR crc_pack inb sh es"
    using assms(1,2) by (auto simp only: fold_pack dest: funpow_adv_inj)
  then have "crc_pack inb sh ds = crc_pack inb sh es" by simp
  with pack_inj assms show False by blast
qed

end

lemma refl_adv_nonzero:
  fixes p :: "'a::len word"
  assumes "bit p (LENGTH('a) - 1)" "refl_adv p a = 0"
  shows "a = 0"
proof -
  have step: "c = 0" if "refl_bit p c = 0" for c
  proof -
    have "\<not> bit (drop_bit 1 c) (LENGTH('a) - 1)"
      using bit_imp_le_length[of c "1 + (LENGTH('a) - 1)"] unfolding bit_drop_bit_eq o_apply by fastforce
    then have "drop_bit 1 c XOR p \<noteq> 0" using assms(1) by (auto simp: xor_zero_iff)
    with that have "even c" "drop_bit 1 c = 0" by (auto simp: refl_bit_def split: if_splits)
    then have "push_bit 1 (drop_bit 1 c) = c" by (intro push_drop_even) (simp add: odd_bit0[symmetric])
    with \<open>drop_bit 1 c = 0\<close> show "c = 0" by simp
  qed
  have "(refl_bit p ^^ n) c = 0 \<Longrightarrow> c = 0" for n c by (induction n) (auto dest: step)
  with assms(2) show ?thesis by (simp add: refl_adv_def)
qed

lemma msb_adv_nonzero:
  fixes p :: "'a::len word"
  assumes "bit p 0" "msb_adv p a = 0"
  shows "a = 0"
proof -
  have step: "c = 0" if "msb_bit p c = 0" for c
  proof -
    have "\<not> bit (push_bit 1 c) 0" unfolding bit_push_bit_iff by simp
    then have "push_bit 1 c XOR p \<noteq> 0" using assms(1) unfolding xor_zero_iff by metis
    with that have c: "\<not> bit c (LENGTH('a) - 1)" "push_bit 1 c = 0"
      unfolding msb_bit_def by (metis (full_types))+
    show "c = 0"
    proof (rule bit_word_eqI)
      fix n assume "n < LENGTH('a)"
      moreover have "\<not> bit (push_bit 1 c) (Suc n)" using c(2) by (simp only: bit_0_eq bot_apply) simp
      ultimately show "bit c n = bit 0 n"
        using c(1) unfolding bit_push_bit_iff by (cases "n = LENGTH('a) - 1") auto
    qed
  qed
  have "(msb_bit p ^^ n) c = 0 \<Longrightarrow> c = 0" for n c by (induction n) (auto dest: step)
  with assms(2) show ?thesis by (simp add: msb_adv_def)
qed

lemma bit_refl_pack:
  "bit (crc_pack refl_in (push_bit 8) ds :: 'a::len word) j \<longleftrightarrow>
    j < LENGTH('a) \<and> j < 8 * length ds \<and> bit (ds ! (j div 8)) (j mod 8)"
proof (induction ds arbitrary: j)
  case (Cons d ds)
  have "bit (crc_pack refl_in (push_bit 8) (d # ds) :: 'a word) j
      \<longleftrightarrow> j < LENGTH('a) \<and> (if j < 8 then bit d j else bit (crc_pack refl_in (push_bit 8) ds :: 'a word) (j - 8))"
    by (auto simp: crc_pack_def refl_in_def bit_xor_iff bit_ucast_iff bit_push_bit_iff dest: bit_imp_le_length)
  also have "\<dots> \<longleftrightarrow> j < LENGTH('a) \<and> j < 8 * length (d # ds) \<and> bit ((d # ds) ! (j div 8)) (j mod 8)"
    by (cases "j < 8") (auto simp: Cons.IH le_div_geq le_mod_geq not_less)
  finally show ?case .
qed (simp add: crc_pack_def)

lemma bit_msb_pack:
  "bit (crc_pack msb_in (drop_bit 8) ds :: u32) j \<longleftrightarrow>
    j < 32 \<and> (31 - j) div 8 < length ds \<and> bit (ds ! ((31 - j) div 8)) (j mod 8)"
proof (induction ds arbitrary: j)
  case (Cons d ds)
  have "bit (crc_pack msb_in (drop_bit 8) (d # ds) :: u32) j
      \<longleftrightarrow> j < 32 \<and> (if 24 \<le> j then bit d (j - 24) else bit (crc_pack msb_in (drop_bit 8) ds :: u32) (8 + j))"
    by (auto simp: crc_pack_def msb_in_def bit_xor_iff bit_ucast_iff bit_push_bit_iff bit_drop_bit_eq
        dest: bit_imp_le_length)
  also have "\<dots> \<longleftrightarrow> j < 32 \<and> (31 - j) div 8 < length (d # ds) \<and> bit ((d # ds) ! ((31 - j) div 8)) (j mod 8)"
  proof (cases "24 \<le> j \<and> j < 32")
    case True
    then have "j mod 8 = j - 24" "(31 - j) div 8 = 0" by presburger+
    with True show ?thesis by simp
  next
    case False
    show ?thesis
    proof (cases "j < 32")
      case True
      with False have "(31 - j) div 8 = Suc ((31 - (8 + j)) div 8)" by (subst le_div_geq) simp_all
      with True False show ?thesis by (simp add: Cons.IH)
    qed simp
  qed
  finally show ?case .
qed (simp add: crc_pack_def)

lemma refl_pack_inj:
  fixes ds es :: bytes
  assumes "8 * length ds \<le> LENGTH('a::len)" "length es = length ds"
    and "(crc_pack refl_in (push_bit 8) ds :: 'a word) = crc_pack refl_in (push_bit 8) es"
  shows "ds = es"
proof (rule nth_equalityI)
  fix i assume i: "i < length ds"
  show "ds ! i = es ! i"
  proof (rule bit_word_eqI)
    fix n assume "n < LENGTH(8)"
    then show "bit (ds ! i) n = bit (es ! i) n"
      using arg_cong[OF assms(3), of "\<lambda>w. bit w (8 * i + n)"] assms(1,2) i
      unfolding bit_refl_pack by (auto simp: div_add1_eq)
  qed
qed (use assms in simp)

lemma msb_pack_inj:
  fixes ds es :: bytes
  assumes "length ds \<le> 4" "length es = length ds"
    and "(crc_pack msb_in (drop_bit 8) ds :: u32) = crc_pack msb_in (drop_bit 8) es"
  shows "ds = es"
proof (rule nth_equalityI)
  fix i assume i: "i < length ds"
  show "ds ! i = es ! i"
  proof (rule bit_word_eqI)
    fix n assume "n < LENGTH(8)"
    then have "n < 8" "i < 4" using i assms(1) by simp_all
    moreover from this have "(31 - (24 - 8 * i + n)) div 8 = i" by (intro div_nat_eqI) simp_all
    moreover have "(24 - 8 * i + n) mod 8 = n"
    proof -
      have "24 - 8 * i + n = n + 8 * (3 - i)" using \<open>i < 4\<close> by simp
      then show ?thesis using \<open>n < 8\<close> by (simp only: mod_mult_self2 mod_less)
    qed
    ultimately show "bit (ds ! i) n = bit (es ! i) n"
      using arg_cong[OF assms(3), of "\<lambda>w. bit w (24 - 8 * i + n)"] assms(2) i unfolding bit_msb_pack by auto
  qed
qed (use assms in simp)

lemma refl_register:
  fixes p :: "'a::len word"
  assumes "bit p (LENGTH('a) - 1)" "8 * burst = LENGTH('a)"
  shows "crc_register (refl_adv p) refl_in (push_bit 8) burst"
proof
  show "refl_adv p (push_bit 8 (crc_pack refl_in (push_bit 8) ds)) = crc_pack refl_in (push_bit 8) ds"
    if "length ds < burst" for ds
    unfolding refl_adv_def using that assms(2) by (intro refl_shift) (auto simp: bit_refl_pack)
  show "ds = es" if "length ds \<le> burst" "length es = length ds"
    "(crc_pack refl_in (push_bit 8) ds :: 'a word) = crc_pack refl_in (push_bit 8) es" for ds es
  proof -
    have "8 * length ds \<le> LENGTH('a)" using that(1) assms(2) by linarith
    then show ?thesis by (rule refl_pack_inj) (rule that(2,3))+
  qed
  show "refl_adv p (a XOR b) = refl_adv p a XOR refl_adv p b" for a b by (rule refl_adv_xor)
  show "a = 0" if "refl_adv p a = 0" for a using refl_adv_nonzero[OF assms(1) that] .
qed

interpretation reg16: crc_register "refl_adv (0xA001 :: u16)" refl_in "push_bit 8" 2
  by (rule refl_register) simp_all

interpretation reg32c: crc_register "refl_adv (0x82F63B78 :: u32)" refl_in "push_bit 8" 4
  by (rule refl_register) simp_all

interpretation reg64: crc_register "refl_adv (0x95AC9329AC4BC9B5 :: u64)" refl_in "push_bit 8" 8
  by (rule refl_register) simp_all

interpretation reg32: crc_register "msb_adv (0x04C11DB7 :: u32)" msb_in "drop_bit 8" 4
proof
  show "msb_adv 0x04C11DB7 (drop_bit 8 (crc_pack msb_in (drop_bit 8) ds :: u32)) = crc_pack msb_in (drop_bit 8) ds"
    if "length ds < 4" for ds
    unfolding msb_adv_def using that by (intro msb_shift) (auto simp: bit_msb_pack)
  show "ds = es" if "length ds \<le> 4" "length es = length ds"
    "(crc_pack msb_in (drop_bit 8) ds :: u32) = crc_pack msb_in (drop_bit 8) es" for ds es
    using that by (rule msb_pack_inj)
  show "msb_adv 0x04C11DB7 (a XOR b) = msb_adv 0x04C11DB7 a XOR msb_adv 0x04C11DB7 b" for a b :: u32
    by (rule msb_adv_xor)
  show "a = 0" if "msb_adv 0x04C11DB7 a = 0" for a :: u32 by (rule msb_adv_nonzero[OF _ that]) simp
qed

section \<open>Properties\<close>

lemma crc_values:
  "unat n \<le> length buf \<Longrightarrow> fio_crc16 buf n = Some (crc_fold (refl_adv 0xA001) refl_in 0 (take (unat n) buf))"
  "unat m \<le> length buf \<Longrightarrow> fio_crc32 buf m = Some (crc_fold (msb_adv 0x04C11DB7) msb_in 0 (take (unat m) buf))"
  "unat m \<le> length buf \<Longrightarrow> crc32c_sw buf m = Some (crc_fold (refl_adv 0x82F63B78) refl_in (NOT 0) (take (unat m) buf))"
  "unat m \<le> length buf \<Longrightarrow>
    fio_crc64 buf m = Some (crc_fold (refl_adv 0x95AC9329AC4BC9B5) refl_in 0 (take (unat m) buf))"
  using crc16.while_fold[where c = 0 and n = "unat n" and buf = buf]
    crc32.while_fold[where c = 0 and n = "unat m" and buf = buf]
    crc32c.while_fold[where c = "NOT 0" and n = "unat m" and buf = buf]
    crc64.while_fold[where c = 0 and n = "unat m" and buf = buf]
  by (simp_all add: fio_crc16_def fio_crc32_def crc32c_sw_def fio_crc64_def)

text \<open>C8: the table driven routines compute the remainder that division by the polynomial, one
  bit at a time, gives: reflected 0x8005 from zero for crc16, 0x04C11DB7 most significant
  bit first from zero for crc32, reflected 0x1EDC6F41 from all ones for crc32c and reflected
  0xAD93D23594C935A9 from zero for crc64. Reading past the buffer is the only failure.\<close>

theorem crc_routines_divide:
  fixes buf :: bytes and n :: u32 and m :: u64
  shows "fio_crc16 buf n = (if unat n \<le> length buf
      then Some (crc_fold (refl_adv 0xA001) refl_in 0 (take (unat n) buf)) else None) \<and>
    fio_crc32 buf m = (if unat m \<le> length buf
      then Some (crc_fold (msb_adv 0x04C11DB7) msb_in 0 (take (unat m) buf)) else None) \<and>
    crc32c_sw buf m = (if unat m \<le> length buf
      then Some (crc_fold (refl_adv 0x82F63B78) refl_in (NOT 0) (take (unat m) buf)) else None) \<and>
    fio_crc64 buf m = (if unat m \<le> length buf
      then Some (crc_fold (refl_adv 0x95AC9329AC4BC9B5) refl_in 0 (take (unat m) buf)) else None)"
  using crc_values(1)[of n buf] crc_values(2-)[of m buf] crc16.while_short[of buf "unat n"] crc32.while_short[of buf "unat m"]
    crc32c.while_short[of buf "unat m"] crc64.while_short[of buf "unat m"]
  by (simp_all add: fio_crc16_def fio_crc32_def crc32c_sw_def fio_crc64_def)

text \<open>C9: crc7 keeps its value below 128, so that the index \<open>(crc << 1) ^ data\<close>, computed in
  \<open>int\<close>, never leaves the table, and twice its value is the remainder by x^7 + x^3 + 1 held
  in the upper seven bits of a byte.\<close>

theorem fio_crc7_divides:
  assumes "unat len \<le> length buffer"
  shows "\<exists>crc. fio_crc7 buffer len = Some crc \<and> crc < 128 \<and>
    push_bit 1 crc = crc_fold (msb_adv 0x12) msb_in 0 (take (unat len) buffer)"
  using crc7.while_fold[of 0 "unat len" buffer] assms by (simp add: fio_crc7_def)

theorem fio_crc7_divides_witness:
  "\<exists>crc. fio_crc7 [1, 2, 3] 3 = Some crc \<and> crc < 128 \<and>
    push_bit 1 crc = crc_fold (msb_adv 0x12) msb_in 0 (take (unat (3 :: u32)) [1, 2, 3])"
  by (rule fio_crc7_divides) simp

text \<open>C10: two buffers that differ only inside a window of 2 (crc16), 4 (crc32, crc32c) or 8
  (crc64) bytes never have the same checksum, wherever the window is.\<close>

theorem crc_detects_bursts:
  assumes "length es = length ds" "ds \<noteq> es" "length (pre @ ds @ post) < 2 ^ 32"
    and len: "n = of_nat (length (pre @ ds @ post))" "m = of_nat (length (pre @ ds @ post))"
  shows "(length ds \<le> 2 \<longrightarrow> fio_crc16 (pre @ ds @ post) n \<noteq> fio_crc16 (pre @ es @ post) n) \<and>
    (length ds \<le> 4 \<longrightarrow> fio_crc32 (pre @ ds @ post) m \<noteq> fio_crc32 (pre @ es @ post) m) \<and>
    (length ds \<le> 4 \<longrightarrow> crc32c_sw (pre @ ds @ post) m \<noteq> crc32c_sw (pre @ es @ post) m) \<and>
    (length ds \<le> 8 \<longrightarrow> fio_crc64 (pre @ ds @ post) m \<noteq> fio_crc64 (pre @ es @ post) m)"
proof -
  have n: "unat n = length (pre @ ds @ post)" "unat m = length (pre @ ds @ post)"
    unfolding len using assms(3) by (simp_all add: unat_of_nat del: length_append)
  moreover have "length (pre @ es @ post) = length (pre @ ds @ post)" using assms(1) by simp
  ultimately show ?thesis
    using reg16.burst_detected[OF _ assms(1,2)] reg32.burst_detected[OF _ assms(1,2)]
      reg32c.burst_detected[OF _ assms(1,2)] reg64.burst_detected[OF _ assms(1,2)]
    by (simp add: crc_values del: length_append append_assoc take_append)
qed

theorem crc_detects_bursts_witness:
  "fio_crc16 ([1] @ [2, 3] @ [4]) 4 \<noteq> fio_crc16 ([1] @ [5, 0] @ [4]) 4 \<and>
   fio_crc32 ([1] @ [2, 3] @ [4]) 4 \<noteq> fio_crc32 ([1] @ [5, 0] @ [4]) 4 \<and>
   crc32c_sw ([1] @ [2, 3] @ [4]) 4 \<noteq> crc32c_sw ([1] @ [5, 0] @ [4]) 4 \<and>
   fio_crc64 ([1] @ [2, 3] @ [4]) 4 \<noteq> fio_crc64 ([1] @ [5, 0] @ [4]) 4"
  using crc_detects_bursts[of "[5, 0]" "[2, 3]" "[1]" "[4]" 4 4] by simp

text \<open>What the processor manual says of the instruction: it divides by the same polynomial, a
  quad word being its eight bytes in memory order.\<close>

definition crc32_instruction :: "(u32 \<Rightarrow> u8 \<Rightarrow> u32) \<Rightarrow> (u32 \<Rightarrow> u64 \<Rightarrow> u32) \<Rightarrow> bool" where
  "crc32_instruction hwb hwq \<longleftrightarrow> (\<forall>c b. hwb c b = refl_adv 0x82F63B78 (c XOR refl_in b)) \<and>
     (\<forall>c bs. length bs = 8 \<longrightarrow> hwq c (le_dec bs) = crc_fold (refl_adv 0x82F63B78) refl_in c bs)"

lemma crc32c_intel_quads_eq:
  "crc32_instruction hwb hwq \<Longrightarrow> 8 * n \<le> length data \<Longrightarrow>
    crc32c_intel_quads hwq c data n
      = Some (crc_fold (refl_adv 0x82F63B78) refl_in c (take (8 * n) data), drop (8 * n) data)"
proof (induction n arbitrary: c data)
  case (Suc n)
  have "take (8 * Suc n) data = take 8 data @ take (8 * n) (drop 8 data)"
    using take_add[of 8 "8 * n" data] by simp
  then show ?case
    using Suc by (simp add: crc32_instruction_def crc_fold_def add.commute)
qed (simp add: crc_fold_def)

lemma fio_crc32c_eq_sw:
  assumes "crc32_instruction hwb hwq" "unat len \<le> length buf" "unat len < 2 ^ 35"
  shows "fio_crc32c avail hwb hwq buf len = crc32c_sw buf len"
proof (cases avail)
  case True
  define q where "q = unat len div 8"
  have quad: "unat (ucast (len div 8) :: u32) = q"
    using assms(3) by (simp add: unsigned_ucast_eq unat_div q_def take_bit_nat_eq_self)
  define r where "r = (ucast (len mod 8) :: u32)"
  have r: "unat r = unat len mod 8" by (simp add: r_def unat_ucast_small unat_mod)
  then have remc: "unat (ucast r :: u64) = unat len mod 8" "r = 0 \<longleftrightarrow> unat len mod 8 = 0"
    by (simp_all add: unat_ucast_small word_unat_eq_iff)
  have data: "8 * q \<le> length buf" "unat len = 8 * q + unat len mod 8" using assms(2) by (simp_all add: q_def)
  have hwb: "(\<lambda>c b. Some (hwb c b)) = crc32c_byte"
    using assms(1) by (simp add: crc32_instruction_def crc32c_byte_eq fun_eq_iff)
  define c :: u32 where "c = crc_fold (refl_adv 0x82F63B78) refl_in (NOT 0) (take (8 * q) buf)"
  have "crc_while crc32c_byte c (drop (8 * q) buf) (unat len mod 8)
      = Some (crc_fold (refl_adv 0x82F63B78) refl_in c (take (unat len mod 8) (drop (8 * q) buf)))"
    using crc32c.while_fold[where c = c and n = "unat len mod 8" and buf = "drop (8 * q) buf"] assms(2) data
    by simp
  moreover have "crc_fold (refl_adv 0x82F63B78) refl_in c (take (unat len mod 8) (drop (8 * q) buf))
      = crc_fold (refl_adv 0x82F63B78) refl_in (NOT 0) (take (unat len) buf)"
    using take_add[of "8 * q" "unat len mod 8" buf] data(2) by (simp add: c_def crc_fold_def)
  ultimately have tail: "crc_while crc32c_byte c (drop (8 * q) buf) (unat len mod 8) = crc32c_sw buf len"
    using crc_values(3)[OF assms(2)] by simp
  have "crc32c_intel_quads hwq (NOT 0) buf q = Some (c, drop (8 * q) buf)"
    unfolding c_def by (rule crc32c_intel_quads_eq[OF assms(1) data(1)])
  with True tail show ?thesis
    unfolding fio_crc32c_def crc32c_intel_def crc32c_intel_le_hw_byte_def quad hwb Let_def r_def[symmetric] remc
    by (cases "unat len mod 8 = 0") simp_all
qed (simp add: fio_crc32c_def)

text \<open>C11: given the instruction, the accelerated routine returns what the table driven one
  returns, for every length whose number of quad words fits the \<open>unsigned int\<close> that counts
  them, so the choice \<open>fio_crc32c\<close> makes at run time is not visible.\<close>

theorem fio_crc32c_hw_eq_sw:
  assumes "crc32_instruction hwb hwq" "unat len \<le> length buf" "unat len < 2 ^ 35"
  shows "fio_crc32c avail hwb hwq buf len = crc32c_sw buf len"
  using assms by (rule fio_crc32c_eq_sw)

definition instruction_byte :: "u32 \<Rightarrow> u8 \<Rightarrow> u32" where
  "instruction_byte c b = refl_adv 0x82F63B78 (c XOR refl_in b)"

definition instruction_quad :: "u32 \<Rightarrow> u64 \<Rightarrow> u32" where
  "instruction_quad c q = crc_fold (refl_adv 0x82F63B78) refl_in c (le_enc 8 q)"

lemma le_enc_quad: "length bs = 8 \<Longrightarrow> le_enc 8 (le_dec bs :: u64) = bs"
  using le_enc_dec[where 'a = 64, of bs] by simp

theorem fio_crc32c_hw_eq_sw_witness:
  "fio_crc32c True instruction_byte instruction_quad [1, 2, 3, 4, 5, 6, 7, 8, 9] 9
    = crc32c_sw [1, 2, 3, 4, 5, 6, 7, 8, 9] 9"
  by (rule fio_crc32c_hw_eq_sw)
    (simp_all add: crc32_instruction_def instruction_byte_def instruction_quad_def le_enc_quad)

end
