(* ===== verification/Digest.thy ===== *)
theory Digest
  imports Bits_Lib "HOL-Library.Monad_Syntax"
begin

text \<open>
  The message digests of \<open>crc/\<close>: the compression functions and the streaming interfaces of
  \<open>md5.c\<close>, \<open>sha1.c\<close>, \<open>sha256.c\<close> and \<open>sha512.c\<close> on a little endian machine.

  The unrolled rounds of the source rename the registers from one macro call to the next;
  here a step returns the registers in the order in which the next call names them, and the
  rounds are a fold over the calls in source order. A block in memory is a list of bytes;
  word loads are little endian.
\<close>

section \<open>Words in memory\<close>

definition le32_at :: "bytes \<Rightarrow> nat \<Rightarrow> u32" where
  "le32_at blk i = le_dec (take 4 (drop (4 * i) blk))"

definition le64_at :: "bytes \<Rightarrow> nat \<Rightarrow> u64" where
  "le64_at blk i = le_dec (take 8 (drop (8 * i) blk))"

section \<open>MD5\<close>

definition md5_F1 :: "u32 \<Rightarrow> u32 \<Rightarrow> u32 \<Rightarrow> u32" where
  "md5_F1 x y z = z XOR (x AND (y XOR z))"

definition md5_F2 :: "u32 \<Rightarrow> u32 \<Rightarrow> u32 \<Rightarrow> u32" where
  "md5_F2 x y z = md5_F1 z x y"

definition md5_F3 :: "u32 \<Rightarrow> u32 \<Rightarrow> u32 \<Rightarrow> u32" where
  "md5_F3 x y z = x XOR y XOR z"

definition md5_F4 :: "u32 \<Rightarrow> u32 \<Rightarrow> u32 \<Rightarrow> u32" where
  "md5_F4 x y z = y XOR (x OR NOT z)"

definition MD5STEP :: "(u32 \<Rightarrow> u32 \<Rightarrow> u32 \<Rightarrow> u32) \<Rightarrow> u32 \<times> u32 \<times> u32 \<times> u32 \<Rightarrow> u32 \<Rightarrow> nat \<Rightarrow> u32 \<times> u32 \<times> u32 \<times> u32" where
  "MD5STEP f regs inp s =
     (case regs of (w, x, y, z) \<Rightarrow>
        let w = w + (f x y z + inp);
            w = (push_bit s w OR drop_bit (32 - s) w) + x
        in (z, w, x, y))"

definition md5_steps :: "((u32 \<Rightarrow> u32 \<Rightarrow> u32 \<Rightarrow> u32) \<times> nat \<times> u32 \<times> nat) list" where
  "md5_steps = [
    (md5_F1, 0, 0xd76aa478, 7), (md5_F1, 1, 0xe8c7b756, 12),
    (md5_F1, 2, 0x242070db, 17), (md5_F1, 3, 0xc1bdceee, 22),
    (md5_F1, 4, 0xf57c0faf, 7), (md5_F1, 5, 0x4787c62a, 12),
    (md5_F1, 6, 0xa8304613, 17), (md5_F1, 7, 0xfd469501, 22),
    (md5_F1, 8, 0x698098d8, 7), (md5_F1, 9, 0x8b44f7af, 12),
    (md5_F1, 10, 0xffff5bb1, 17), (md5_F1, 11, 0x895cd7be, 22),
    (md5_F1, 12, 0x6b901122, 7), (md5_F1, 13, 0xfd987193, 12),
    (md5_F1, 14, 0xa679438e, 17), (md5_F1, 15, 0x49b40821, 22),
    (md5_F2, 1, 0xf61e2562, 5), (md5_F2, 6, 0xc040b340, 9),
    (md5_F2, 11, 0x265e5a51, 14), (md5_F2, 0, 0xe9b6c7aa, 20),
    (md5_F2, 5, 0xd62f105d, 5), (md5_F2, 10, 0x02441453, 9),
    (md5_F2, 15, 0xd8a1e681, 14), (md5_F2, 4, 0xe7d3fbc8, 20),
    (md5_F2, 9, 0x21e1cde6, 5), (md5_F2, 14, 0xc33707d6, 9),
    (md5_F2, 3, 0xf4d50d87, 14), (md5_F2, 8, 0x455a14ed, 20),
    (md5_F2, 13, 0xa9e3e905, 5), (md5_F2, 2, 0xfcefa3f8, 9),
    (md5_F2, 7, 0x676f02d9, 14), (md5_F2, 12, 0x8d2a4c8a, 20),
    (md5_F3, 5, 0xfffa3942, 4), (md5_F3, 8, 0x8771f681, 11),
    (md5_F3, 11, 0x6d9d6122, 16), (md5_F3, 14, 0xfde5380c, 23),
    (md5_F3, 1, 0xa4beea44, 4), (md5_F3, 4, 0x4bdecfa9, 11),
    (md5_F3, 7, 0xf6bb4b60, 16), (md5_F3, 10, 0xbebfbc70, 23),
    (md5_F3, 13, 0x289b7ec6, 4), (md5_F3, 0, 0xeaa127fa, 11),
    (md5_F3, 3, 0xd4ef3085, 16), (md5_F3, 6, 0x04881d05, 23),
    (md5_F3, 9, 0xd9d4d039, 4), (md5_F3, 12, 0xe6db99e5, 11),
    (md5_F3, 15, 0x1fa27cf8, 16), (md5_F3, 2, 0xc4ac5665, 23),
    (md5_F4, 0, 0xf4292244, 6), (md5_F4, 7, 0x432aff97, 10),
    (md5_F4, 14, 0xab9423a7, 15), (md5_F4, 5, 0xfc93a039, 21),
    (md5_F4, 12, 0x655b59c3, 6), (md5_F4, 3, 0x8f0ccc92, 10),
    (md5_F4, 10, 0xffeff47d, 15), (md5_F4, 1, 0x85845dd1, 21),
    (md5_F4, 8, 0x6fa87e4f, 6), (md5_F4, 15, 0xfe2ce6e0, 10),
    (md5_F4, 6, 0xa3014314, 15), (md5_F4, 13, 0x4e0811a1, 21),
    (md5_F4, 4, 0xf7537e82, 6), (md5_F4, 11, 0xbd3af235, 10),
    (md5_F4, 2, 0x2ad7d2bb, 15), (md5_F4, 9, 0xeb86d391, 21)]"

definition md5_transform :: "u32 list \<Rightarrow> bytes \<Rightarrow> u32 list" where
  "md5_transform hash blk =
     (case foldl (\<lambda>regs (f, i, k, s). MD5STEP f regs (le32_at blk i + k) s)
             (hash ! 0, hash ! 1, hash ! 2, hash ! 3) md5_steps of
        (a, b, c, d) \<Rightarrow> [hash ! 0 + a, hash ! 1 + b, hash ! 2 + c, hash ! 3 + d])"

record fio_md5_ctx =
  md_hash :: "u32 list"
  md_block :: bytes
  md_byte_count :: u64

definition fio_md5_init :: "fio_md5_ctx \<Rightarrow> fio_md5_ctx" where
  "fio_md5_init mctx = mctx\<lparr>md_hash := [0x67452301, 0xefcdab89, 0x98badcfe, 0x10325476]\<rparr>"

fun md5_blocks :: "nat \<Rightarrow> u32 list \<Rightarrow> bytes \<Rightarrow> bytes \<Rightarrow> nat \<Rightarrow> (u32 list \<times> bytes) option" where
  "md5_blocks len hash blk data off =
     (if 64 \<le> len then do {
        d \<leftarrow> mem_read data off 64;
        blk' \<leftarrow> mem_write blk 0 d;
        md5_blocks (len - 64) (md5_transform hash blk') blk' data (off + 64)
      } else do {
        d \<leftarrow> mem_read data off len;
        blk' \<leftarrow> mem_write blk 0 d;
        Some (hash, blk')
      })"

declare md5_blocks.simps [simp del]

definition fio_md5_update :: "fio_md5_ctx \<Rightarrow> bytes \<Rightarrow> u32 \<Rightarrow> fio_md5_ctx option" where
  "fio_md5_update mctx data len = do {
     let avail = (ucast (64 - (md_byte_count mctx AND 0x3f)) :: u32);
     let mctx = mctx\<lparr>md_byte_count := md_byte_count mctx + ucast len\<rparr>;
     if avail > len then do {
       d \<leftarrow> mem_read data 0 (unat len);
       blk \<leftarrow> mem_write (md_block mctx) (unat (64 - avail)) d;
       Some (mctx\<lparr>md_block := blk\<rparr>)
     } else do {
       d \<leftarrow> mem_read data 0 (unat avail);
       blk \<leftarrow> mem_write (md_block mctx) (unat (64 - avail)) d;
       let hash = md5_transform (md_hash mctx) blk;
       (hash, blk) \<leftarrow> md5_blocks (unat (len - avail)) hash blk data (unat avail);
       Some (mctx\<lparr>md_hash := hash, md_block := blk\<rparr>)
     }
   }"

section \<open>SHA-1\<close>

definition SHA_ROL :: "u32 \<Rightarrow> nat \<Rightarrow> u32" where
  "SHA_ROL x n = push_bit n x OR drop_bit (32 - n) x"

definition SHA_ROR :: "u32 \<Rightarrow> nat \<Rightarrow> u32" where
  "SHA_ROR x n = push_bit (32 - n) x OR drop_bit n x"

text \<open>\<open>htonl\<close> on a little endian machine is the byte swap.\<close>

definition SHA_SRC :: "bytes \<Rightarrow> nat \<Rightarrow> u32" where
  "SHA_SRC data t = be32_to_cpu (le32_at data t)"

definition SHA_MIX :: "u32 list \<Rightarrow> nat \<Rightarrow> u32" where
  "SHA_MIX W t = SHA_ROL (W ! ((t + 13) mod 16) XOR W ! ((t + 8) mod 16) XOR W ! ((t + 2) mod 16) XOR W ! (t mod 16)) 1"

definition sha1_fn :: "nat \<Rightarrow> u32 \<Rightarrow> u32 \<Rightarrow> u32 \<Rightarrow> u32" where
  "sha1_fn t B C D =
     (if t < 20 then ((C XOR D) AND B) XOR D
      else if t < 40 then B XOR C XOR D
      else if t < 60 then (B AND C) + (D AND (B XOR C))
      else B XOR C XOR D)"

definition sha1_const :: "nat \<Rightarrow> u32" where
  "sha1_const t = (if t < 20 then 0x5a827999 else if t < 40 then 0x6ed9eba1
     else if t < 60 then 0x8f1bbcdc else 0xca62c1d6)"

definition SHA_ROUND :: "bytes \<Rightarrow> u32 list \<times> u32 \<times> u32 \<times> u32 \<times> u32 \<times> u32 \<Rightarrow> nat \<Rightarrow>
    u32 list \<times> u32 \<times> u32 \<times> u32 \<times> u32 \<times> u32" where
  "SHA_ROUND data st t =
     (case st of (W, A, B, C, D, E) \<Rightarrow>
        let TEMP = (if t < 16 then SHA_SRC data t else SHA_MIX W t);
            W = W[t mod 16 := TEMP];
            E = E + (TEMP + SHA_ROL A 5 + sha1_fn t B C D + sha1_const t);
            B = SHA_ROR B 2
        in (W, E, A, B, C, D))"

definition blk_SHA1Block :: "u32 list \<Rightarrow> bytes \<Rightarrow> u32 list" where
  "blk_SHA1Block H data =
     (case foldl (SHA_ROUND data) (replicate 16 0, H ! 0, H ! 1, H ! 2, H ! 3, H ! 4) [0..<80] of
        (_, A, B, C, D, E) \<Rightarrow> [H ! 0 + A, H ! 1 + B, H ! 2 + C, H ! 3 + D, H ! 4 + E])"

record fio_sha1_ctx =
  s1_H :: "u32 list"
  s1_W :: bytes
  s1_size :: u64

definition fio_sha1_init :: "fio_sha1_ctx \<Rightarrow> fio_sha1_ctx" where
  "fio_sha1_init ctx = ctx\<lparr>s1_size := 0,
     s1_H := [0x67452301, 0xefcdab89, 0x98badcfe, 0x10325476, 0xc3d2e1f0]\<rparr>"

fun sha1_blocks :: "nat \<Rightarrow> u32 list \<Rightarrow> bytes \<Rightarrow> bytes \<Rightarrow> nat \<Rightarrow> (u32 list \<times> bytes) option" where
  "sha1_blocks len H W data off =
     (if 64 \<le> len then do {
        d \<leftarrow> mem_read data off 64;
        sha1_blocks (len - 64) (blk_SHA1Block H d) W data (off + 64)
      } else if 0 < len then do {
        d \<leftarrow> mem_read data off len;
        W' \<leftarrow> mem_write W 0 d;
        Some (H, W')
      } else Some (H, W))"

declare sha1_blocks.simps [simp del]

definition fio_sha1_update :: "fio_sha1_ctx \<Rightarrow> bytes \<Rightarrow> u64 \<Rightarrow> fio_sha1_ctx option" where
  "fio_sha1_update ctx data len = do {
     let lenW = unat (s1_size ctx AND 63);
     let ctx = ctx\<lparr>s1_size := s1_size ctx + len\<rparr>;
     if lenW \<noteq> 0 then do {
       let left = (if unat len < 64 - lenW then unat len else 64 - lenW);
       d \<leftarrow> mem_read data 0 left;
       W \<leftarrow> mem_write (s1_W ctx) lenW d;
       let ctx = ctx\<lparr>s1_W := W\<rparr>;
       if (lenW + left) mod 64 \<noteq> 0 then Some ctx
       else do {
         (H, W) \<leftarrow> sha1_blocks (unat len - left) (blk_SHA1Block (s1_H ctx) W) W data left;
         Some (ctx\<lparr>s1_H := H, s1_W := W\<rparr>)
       }
     } else do {
       (H, W) \<leftarrow> sha1_blocks (unat len) (s1_H ctx) (s1_W ctx) data 0;
       Some (ctx\<lparr>s1_H := H, s1_W := W\<rparr>)
     }
   }"

definition fio_sha1_final :: "fio_sha1_ctx \<Rightarrow> (bytes \<times> fio_sha1_ctx) option" where
  "fio_sha1_final ctx = do {
     let pad = 0x80 # replicate 63 0;
     let padlen = le_enc 4 (be32_to_cpu (ucast (drop_bit 29 (s1_size ctx)))) @
                  le_enc 4 (be32_to_cpu (ucast (push_bit 3 (s1_size ctx))));
     let i = s1_size ctx AND 63;
     ctx \<leftarrow> fio_sha1_update ctx pad (1 + (63 AND (55 - i)));
     ctx \<leftarrow> fio_sha1_update ctx padlen 8;
     Some (concat (map (\<lambda>i. le_enc 4 (be32_to_cpu (s1_H ctx ! i))) [0..<5]), ctx)
   }"

section \<open>SHA-256\<close>

definition Ch :: "'a::len word \<Rightarrow> 'a word \<Rightarrow> 'a word \<Rightarrow> 'a word" where
  "Ch x y z = z XOR (x AND (y XOR z))"

definition Maj :: "'a::len word \<Rightarrow> 'a word \<Rightarrow> 'a word \<Rightarrow> 'a word" where
  "Maj x y z = (x AND y) OR (z AND (x OR y))"

definition ror32 :: "u32 \<Rightarrow> nat \<Rightarrow> u32" where
  "ror32 word shift = drop_bit shift word OR push_bit (32 - shift) word"

definition sha256_e0 :: "u32 \<Rightarrow> u32" where
  "sha256_e0 x = ror32 x 2 XOR ror32 x 13 XOR ror32 x 22"

definition sha256_e1 :: "u32 \<Rightarrow> u32" where
  "sha256_e1 x = ror32 x 6 XOR ror32 x 11 XOR ror32 x 25"

definition sha256_s0 :: "u32 \<Rightarrow> u32" where
  "sha256_s0 x = ror32 x 7 XOR ror32 x 18 XOR drop_bit 3 x"

definition sha256_s1 :: "u32 \<Rightarrow> u32" where
  "sha256_s1 x = ror32 x 17 XOR ror32 x 19 XOR drop_bit 10 x"

text \<open>The round constants of the source, in decimal.\<close>

definition sha256_K :: "u32 list" where
  "sha256_K = [
    1116352408, 1899447441, 3049323471, 3921009573, 961987163, 1508970993, 2453635748, 2870763221,
    3624381080, 310598401, 607225278, 1426881987, 1925078388, 2162078206, 2614888103, 3248222580,
    3835390401, 4022224774, 264347078, 604807628, 770255983, 1249150122, 1555081692, 1996064986,
    2554220882, 2821834349, 2952996808, 3210313671, 3336571891, 3584528711, 113926993, 338241895,
    666307205, 773529912, 1294757372, 1396182291, 1695183700, 1986661051, 2177026350, 2456956037,
    2730485921, 2820302411, 3259730800, 3345764771, 3516065817, 3600352804, 4094571909, 275423344,
    430227734, 506948616, 659060556, 883997877, 958139571, 1322822218, 1537002063, 1747873779,
    1955562222, 2024104815, 2227730452, 2361852424, 2428436474, 2756734187, 3204031479, 3329325298]"

text \<open>The schedule: sixteen loaded words, then one blended word per turn, appended.\<close>

definition sha256_load :: "bytes \<Rightarrow> u32 list" where
  "sha256_load input = map (\<lambda>I. be32_to_cpu (le32_at input I)) [0..<16]"

definition sha256_blend :: "u32 list \<Rightarrow> nat \<Rightarrow> u32 list" where
  "sha256_blend W I =
     W @ [sha256_s1 (W ! (I - 2)) + W ! (I - 7) + sha256_s0 (W ! (I - 15)) + W ! (I - 16)]"

type_synonym 'w oct = "'w \<times> 'w \<times> 'w \<times> 'w \<times> 'w \<times> 'w \<times> 'w \<times> 'w"

definition sha256_step :: "u32 list \<Rightarrow> u32 oct \<Rightarrow> nat \<Rightarrow> u32 oct" where
  "sha256_step W regs i =
     (case regs of (a, b, c, d, e, f, g, h) \<Rightarrow>
        let t1 = h + sha256_e1 e + Ch e f g + sha256_K ! i + W ! i;
            t2 = sha256_e0 a + Maj a b c;
            d = d + t1;
            h = t1 + t2
        in (h, a, b, c, d, e, f, g))"

definition sha256_transform :: "u32 list \<Rightarrow> bytes \<Rightarrow> u32 list" where
  "sha256_transform st input =
     (let W = foldl sha256_blend (sha256_load input) [16..<64] in
      case foldl (sha256_step W) (st ! 0, st ! 1, st ! 2, st ! 3, st ! 4, st ! 5, st ! 6, st ! 7) [0..<64] of
        (a, b, c, d, e, f, g, h) \<Rightarrow>
          [st ! 0 + a, st ! 1 + b, st ! 2 + c, st ! 3 + d, st ! 4 + e, st ! 5 + f, st ! 6 + g, st ! 7 + h])"

record fio_sha256_ctx =
  s2_count :: "u32 list"
  s2_state :: "u32 list"
  s2_buf :: bytes

definition fio_sha256_init :: "fio_sha256_ctx \<Rightarrow> fio_sha256_ctx" where
  "fio_sha256_init sctx = sctx\<lparr>
     s2_state := [0x6a09e667, 0xbb67ae85, 0x3c6ef372, 0xa54ff53a, 0x510e527f, 0x9b05688c, 0x1f83d9ab, 0x5be0cd19],
     s2_count := [0, 0]\<rparr>"

text \<open>The loop \<open>for (i = part_len; i + 63 < len; i += 64) transform(state, &data[i])\<close>, which
  the two digests share up to the block size; \<open>i\<close> is an \<open>unsigned int\<close> and may wrap.\<close>

partial_function (option) sha_blocks ::
    "u32 \<Rightarrow> ('h \<Rightarrow> bytes \<Rightarrow> 'h) \<Rightarrow> bytes \<Rightarrow> u32 \<Rightarrow> 'h \<Rightarrow> u32 \<Rightarrow> ('h \<times> u32) option" where
  "sha_blocks bs tr data len st i =
     (if i + (bs - 1) < len then do {
        d \<leftarrow> mem_read data (unat i) (unat bs);
        sha_blocks bs tr data len (tr st d) (i + bs)
      } else Some (st, i))"

text \<open>The middle part of the two updates: complete the buffered block, transform, go on with the
  full blocks of the data.\<close>

definition sha_fill ::
    "u32 \<Rightarrow> ('h \<Rightarrow> bytes \<Rightarrow> 'h) \<Rightarrow> bytes \<Rightarrow> u32 \<Rightarrow> 'h \<Rightarrow> bytes \<Rightarrow> u32 \<Rightarrow> ('h \<times> bytes \<times> u32 \<times> u32) option" where
  "sha_fill bs tr data len st buf idx = do {
     let part_len = bs - idx;
     if part_len \<le> len then do {
       d \<leftarrow> mem_read data 0 (unat part_len);
       buf \<leftarrow> mem_write buf (unat idx) d;
       (st, i) \<leftarrow> sha_blocks bs tr data len (tr st buf) part_len;
       Some (st, buf, 0, i)
     } else Some (st, buf, idx, 0)
   }"

definition fio_sha256_update :: "fio_sha256_ctx \<Rightarrow> bytes \<Rightarrow> u32 \<Rightarrow> fio_sha256_ctx option" where
  "fio_sha256_update sctx data len = do {
     let idx = drop_bit 3 (s2_count sctx ! 0) AND 0x3f;
     let count0 = s2_count sctx ! 0 + push_bit 3 len;
     let count1 = (if count0 < push_bit 3 len then s2_count sctx ! 1 + 1 + drop_bit 29 len
                   else s2_count sctx ! 1);
     (st, buf, idx, i) \<leftarrow> sha_fill 64 sha256_transform data len (s2_state sctx) (s2_buf sctx) idx;
     d \<leftarrow> mem_read data (unat i) (unat (len - i));
     buf \<leftarrow> mem_write buf (unat idx) d;
     Some (sctx\<lparr>s2_count := [count0, count1], s2_state := st, s2_buf := buf\<rparr>)
   }"

section \<open>SHA-512\<close>

definition RORuint64 :: "u64 \<Rightarrow> nat \<Rightarrow> u64" where
  "RORuint64 x y = drop_bit y x OR push_bit (64 - y) x"

definition sha512_e0 :: "u64 \<Rightarrow> u64" where
  "sha512_e0 x = RORuint64 x 28 XOR RORuint64 x 34 XOR RORuint64 x 39"

definition sha512_e1 :: "u64 \<Rightarrow> u64" where
  "sha512_e1 x = RORuint64 x 14 XOR RORuint64 x 18 XOR RORuint64 x 41"

definition sha512_s0 :: "u64 \<Rightarrow> u64" where
  "sha512_s0 x = RORuint64 x 1 XOR RORuint64 x 8 XOR drop_bit 7 x"

definition sha512_s1 :: "u64 \<Rightarrow> u64" where
  "sha512_s1 x = RORuint64 x 19 XOR RORuint64 x 61 XOR drop_bit 6 x"

text \<open>The table of the source, in decimal.\<close>

definition sha512_K :: "u64 list" where
  "sha512_K = [
    4794697086780616226, 8158064640168781261, 13096744586834688815, 16840607885511220156, 4131703408338449720,
    6480981068601479193, 10538285296894168987, 12329834152419229976, 15566598209576043074, 1334009975649890238,
    2608012711638119052, 6128411473006802146, 8268148722764581231, 9286055187155687089, 11230858885718282805,
    13951009754708518548, 16472876342353939154, 17275323862435702243, 1135362057144423861, 2597628984639134821,
    3308224258029322869, 5365058923640841347, 6679025012923562964, 8573033837759648693, 10970295158949994411,
    12119686244451234320, 12683024718118986047, 13788192230050041572, 14330467153632333762, 15395433587784984357,
    489312712824947311, 1452737877330783856, 2861767655752347644, 3322285676063803686, 5560940570517711597,
    5996557281743188959, 7280758554555802590, 8532644243296465576, 9350256976987008742, 10552545826968843579,
    11727347734174303076, 12113106623233404929, 14000437183269869457, 14369950271660146224, 15101387698204529176,
    15463397548674623760, 17586052441742319658, 1182934255886127544, 1847814050463011016, 2177327727835720531,
    2830643537854262169, 3796741975233480872, 4115178125766777443, 5681478168544905931, 6601373596472566643,
    7507060721942968483, 8399075790359081724, 8693463985226723168, 9568029438360202098, 10144078919501101548,
    10430055236837252648, 11840083180663258601, 13761210420658862357, 14299343276471374635, 14566680578165727644,
    15097957966210449927, 16922976911328602910, 17689382322260857208, 500013540394364858, 748580250866718886,
    1242879168328830382, 1977374033974150939, 2944078676154940804, 3659926193048069267, 4368137639120453308,
    4836135668995329356, 5532061633213252278, 6448918945643986474, 6902733635092675308, 7801388544844847127]"

definition sha512_load :: "bytes \<Rightarrow> u64 list" where
  "sha512_load input = map (\<lambda>I. be64_to_cpu (le64_at input I)) [0..<16]"

definition sha512_blend :: "u64 list \<Rightarrow> nat \<Rightarrow> u64 list" where
  "sha512_blend W I =
     W @ [sha512_s1 (W ! (I - 2)) + W ! (I - 7) + sha512_s0 (W ! (I - 15)) + W ! (I - 16)]"

definition sha512_step :: "u64 list \<Rightarrow> u64 oct \<Rightarrow> nat \<Rightarrow> u64 oct" where
  "sha512_step W regs i =
     (case regs of (a, b, c, d, e, f, g, h) \<Rightarrow>
        let t1 = h + sha512_e1 e + Ch e f g + sha512_K ! i + W ! i;
            t2 = sha512_e0 a + Maj a b c;
            d = d + t1;
            h = t1 + t2
        in (h, a, b, c, d, e, f, g))"

definition sha512_transform :: "u64 list \<Rightarrow> bytes \<Rightarrow> u64 list" where
  "sha512_transform st input =
     (let W = foldl sha512_blend (sha512_load input) [16..<80] in
      case foldl (sha512_step W) (st ! 0, st ! 1, st ! 2, st ! 3, st ! 4, st ! 5, st ! 6, st ! 7) [0..<80] of
        (a, b, c, d, e, f, g, h) \<Rightarrow>
          [st ! 0 + a, st ! 1 + b, st ! 2 + c, st ! 3 + d, st ! 4 + e, st ! 5 + f, st ! 6 + g, st ! 7 + h])"

text \<open>The schedule \<open>W\<close> that the source keeps in the context is written before it is read by
  every transformation and cleared at the end of an update; it is local here.\<close>

record fio_sha512_ctx =
  s5_state :: "u64 list"
  s5_count :: "u32 list"
  s5_buf :: bytes

definition fio_sha512_init :: "fio_sha512_ctx \<Rightarrow> fio_sha512_ctx" where
  "fio_sha512_init sctx = sctx\<lparr>
     s5_state := [0x6a09e667f3bcc908, 0xbb67ae8584caa73b, 0x3c6ef372fe94f82b, 0xa54ff53a5f1d36f1,
       0x510e527fade682d1, 0x9b05688c2b3e6c1f, 0x1f83d9abfb41bd6b, 0x5be0cd19137e2179],
     s5_count := [0, 0, 0, 0]\<rparr>"

definition sha512_count :: "u32 list \<Rightarrow> u32 \<Rightarrow> u32 list" where
  "sha512_count count len =
     (let c0 = count ! 0 + push_bit 3 len in
      if c0 < push_bit 3 len then
        let c1 = count ! 1 + 1;
            (c2, c3) = (if c1 < 1 then
                          let c2 = count ! 2 + 1 in (c2, if c2 < 1 then count ! 3 + 1 else count ! 3)
                        else (count ! 2, count ! 3))
        in [c0, c1 + drop_bit 29 len, c2, c3]
      else [c0, count ! 1, count ! 2, count ! 3])"

definition fio_sha512_update :: "fio_sha512_ctx \<Rightarrow> bytes \<Rightarrow> u32 \<Rightarrow> fio_sha512_ctx option" where
  "fio_sha512_update sctx data len = do {
     let idx = drop_bit 3 (s5_count sctx ! 0) AND 0x7f;
     let count = sha512_count (s5_count sctx) len;
     (st, buf, idx, i) \<leftarrow> sha_fill 128 sha512_transform data len (s5_state sctx) (s5_buf sctx) idx;
     d \<leftarrow> mem_read data (unat i) (unat (len - i));
     buf \<leftarrow> mem_write buf (unat idx) d;
     Some (sctx\<lparr>s5_count := count, s5_state := st, s5_buf := buf\<rparr>)
   }"

section \<open>Streaming\<close>

text \<open>What an update does: the pending bytes and the new ones are cut into blocks, every full
  block goes through the compression function, and what is left is pending.\<close>

function hash_blocks :: "nat \<Rightarrow> ('h \<Rightarrow> bytes \<Rightarrow> 'h) \<Rightarrow> 'h \<Rightarrow> bytes \<Rightarrow> 'h \<times> bytes" where
  "hash_blocks bs tr h data =
     (if 0 < bs \<and> bs \<le> length data then hash_blocks bs tr (tr h (take bs data)) (drop bs data)
      else (h, data))"
  by pat_completeness auto
termination by (relation "measure (\<lambda>(bs, tr, h, data). length data)") auto

declare hash_blocks.simps [simp del]

definition absorb :: "nat \<Rightarrow> ('h \<Rightarrow> bytes \<Rightarrow> 'h) \<Rightarrow> 'h \<times> bytes \<Rightarrow> bytes \<Rightarrow> 'h \<times> bytes" where
  "absorb bs tr st data = hash_blocks bs tr (fst st) (snd st @ data)"

lemma hash_blocks_short: "length data < bs \<Longrightarrow> hash_blocks bs tr h data = (h, data)"
  by (simp add: hash_blocks.simps)

lemma hash_blocks_step:
  "0 < bs \<Longrightarrow> length b = bs \<Longrightarrow> hash_blocks bs tr h (b @ data) = hash_blocks bs tr (tr h b) data"
  by (subst hash_blocks.simps) simp

lemma hash_blocks_take:
  "0 < bs \<Longrightarrow> bs \<le> length data \<Longrightarrow>
    hash_blocks bs tr h data = hash_blocks bs tr (tr h (take bs data)) (drop bs data)"
  by (subst hash_blocks.simps) simp

lemma length_hash_blocks: "0 < bs \<Longrightarrow> length (snd (hash_blocks bs tr h data)) = length data mod bs"
proof (induction bs tr h data rule: hash_blocks.induct)
  case (1 bs tr h data)
  then show ?case by (subst hash_blocks.simps) (auto simp: le_mod_geq)
qed

lemma hash_blocks_append:
  "0 < bs \<Longrightarrow> hash_blocks bs tr h (xs @ ys)
    = hash_blocks bs tr (fst (hash_blocks bs tr h xs)) (snd (hash_blocks bs tr h xs) @ ys)"
proof (induction bs tr h xs rule: hash_blocks.induct)
  case (1 bs tr h xs)
  show ?case
  proof (cases "bs \<le> length xs")
    case True
    then have "hash_blocks bs tr h (xs @ ys) = hash_blocks bs tr (tr h (take bs xs)) (drop bs xs @ ys)"
      using 1(2) by (subst hash_blocks_take) simp_all
    with 1 True show ?thesis by (simp add: hash_blocks_take[of bs xs])
  qed (simp add: hash_blocks_short)
qed

text \<open>The contract of a streaming digest and what follows from it for a message that arrives
  in pieces.\<close>

fun feed :: "('c \<Rightarrow> bytes \<Rightarrow> 'c option) \<Rightarrow> 'c \<Rightarrow> bytes list \<Rightarrow> 'c option" where
  "feed upd c [] = Some c"
| "feed upd c (d # ds) = do { c' \<leftarrow> upd c d; feed upd c' ds }"

locale stream_digest =
  fixes bs :: nat
    and tr :: "'h \<Rightarrow> bytes \<Rightarrow> 'h"
    and upd :: "'c \<Rightarrow> bytes \<Rightarrow> 'c option"
    and ok :: "'c \<Rightarrow> bool"
    and abs :: "'c \<Rightarrow> 'h \<times> bytes"
    and fits :: "bytes \<Rightarrow> bool"
  assumes bs_pos: "0 < bs"
    and pending: "ok c \<Longrightarrow> length (snd (abs c)) < bs"
    and update_law: "ok c \<Longrightarrow> fits data \<Longrightarrow> \<exists>c'. upd c data = Some c' \<and> ok c' \<and> abs c' = absorb bs tr (abs c) data"
begin

lemma feed_absorb:
  assumes "ok c" "\<forall>d \<in> set ds. fits d"
  shows "\<exists>c'. feed upd c ds = Some c' \<and> ok c' \<and> abs c' = absorb bs tr (abs c) (concat ds)"
  using assms
proof (induction ds arbitrary: c)
  case Nil
  then show ?case using pending by (simp add: absorb_def hash_blocks_short)
next
  case (Cons d ds)
  obtain c1 where c1: "upd c d = Some c1" "ok c1" "abs c1 = absorb bs tr (abs c) d"
    using update_law[of c d] Cons.prems by auto
  obtain c2 where "feed upd c1 ds = Some c2" "ok c2" "abs c2 = absorb bs tr (abs c1) (concat ds)"
    using Cons.IH[of c1] c1(2) Cons.prems(2) by auto
  with c1 show ?case
    using hash_blocks_append[OF bs_pos, of tr "fst (abs c)" "snd (abs c) @ d" "concat ds"]
    by (simp add: absorb_def)
qed

end

section \<open>The updates refine absorption\<close>

lemma first_block:
  assumes "length buf = bs" "idx \<le> bs" "bs - idx \<le> length data"
  shows "mem_write buf idx (take (bs - idx) data) = Some (take idx buf @ take (bs - idx) data)"
  using assms by simp

lemma buffer_more:
  assumes "length buf = bs" "idx + length d \<le> bs"
  shows "\<exists>buf'. mem_write buf idx d = Some buf' \<and> length buf' = bs \<and> take (idx + length d) buf' = take idx buf @ d"
  using assms by simp

lemma unat_and_63: "unat (x AND 0x3f) = unat x mod 64" for x :: u64
  using word_and_mask_mod[of 64 6 x] by simp

lemma wrap_index: "idx < bs \<Longrightarrow> bs - idx \<le> n \<Longrightarrow> (n - (bs - idx)) mod bs = (idx + n) mod bs" for n :: nat
  using le_mod_geq[of bs "idx + n"] by (simp add: add.commute)

lemma absorb_split:
  assumes "idx < bs" "length p = idx" "bs - idx \<le> n" "n \<le> length data"
  shows "absorb bs tr (h, p) (take n data)
    = hash_blocks bs tr (tr h (p @ take (bs - idx) data)) (take (n - (bs - idx)) (drop (bs - idx) data))"
proof -
  have "p @ take n data = (p @ take (bs - idx) data) @ take (n - (bs - idx)) (drop (bs - idx) data)"
    using assms take_add[of "bs - idx" "n - (bs - idx)" data] by simp
  moreover have "length (p @ take (bs - idx) data) = bs" "0 < bs" using assms by auto
  ultimately show ?thesis by (simp only: absorb_def fst_conv snd_conv hash_blocks_step)
qed

lemma md5_blocks_ok:
  "length blk = 64 \<Longrightarrow> off + len \<le> length data \<Longrightarrow>
    \<exists>blk'. md5_blocks len h blk data off
        = Some (fst (hash_blocks 64 md5_transform h (take len (drop off data))), blk') \<and> length blk' = 64 \<and>
      take (len mod 64) blk' = snd (hash_blocks 64 md5_transform h (take len (drop off data)))"
proof (induction len h blk data off rule: md5_blocks.induct)
  case (1 len h blk data off)
  show ?case
  proof (cases "64 \<le> len")
    case True
    define b where "b = take 64 (drop off data)"
    have b: "length b = 64" "mem_read data off 64 = Some b" "mem_write blk 0 b = Some b"
      using 1(2,3) True by (simp_all add: b_def)
    have "take len (drop off data) = b @ take (len - 64) (drop (off + 64) data)"
      using take_add[of 64 "len - 64" "drop off data"] True by (simp add: b_def add.commute)
    then have "hash_blocks 64 md5_transform h (take len (drop off data))
        = hash_blocks 64 md5_transform (md5_transform h b) (take (len - 64) (drop (off + 64) data))"
      using b(1) by (simp add: hash_blocks_step)
    with 1(1)[OF True b(2,3) b(1)] True 1(3) b show ?thesis
      by (subst md5_blocks.simps) (simp add: le_mod_geq)
  next
    case False
    then show ?thesis using 1(2,3)
      by (subst md5_blocks.simps) (auto simp: hash_blocks_short)
  qed
qed

definition md_ok :: "fio_md5_ctx \<Rightarrow> bool" where
  "md_ok c \<longleftrightarrow> length (md_block c) = 64"

definition md_abs :: "fio_md5_ctx \<Rightarrow> u32 list \<times> bytes" where
  "md_abs c = (md_hash c, take (unat (md_byte_count c) mod 64) (md_block c))"

lemma md5_avail:
  defines "avail c \<equiv> (ucast (64 - (md_byte_count c AND 0x3f)) :: u32)"
  shows "unat (avail c) = 64 - unat (md_byte_count c) mod 64"
    and "unat (64 - avail c) = unat (md_byte_count c) mod 64"
    and "unat (md_byte_count c + ucast (len :: u32)) mod 64 = (unat (md_byte_count c) mod 64 + unat len) mod 64"
proof -
  define idx where "idx = unat (md_byte_count c) mod 64"
  have idx: "idx < 64" by (simp add: idx_def)
  have "unat (64 - (md_byte_count c AND 0x3f)) = 64 - idx"
    using idx by (subst unat_sub) (simp_all add: unat_and_63 idx_def word_le_nat_alt)
  then show "unat (avail c) = 64 - unat (md_byte_count c) mod 64"
    and "unat (64 - avail c) = unat (md_byte_count c) mod 64"
    unfolding idx_def[symmetric] using idx
    by (simp_all add: avail_def unat_ucast_small unat_sub word_le_nat_alt)
  show "unat (md_byte_count c + ucast len) mod 64 = (unat (md_byte_count c) mod 64 + unat len) mod 64"
    using unat_add_mod[of 64 "md_byte_count c" "ucast len"] unat_lt[of len]
    by (simp add: unat_ucast_small mod_add_left_eq)
qed

lemma fio_md5_update_ok:
  assumes ok: "md_ok c" and len: "unat len \<le> length data"
  shows "\<exists>c'. fio_md5_update c data len = Some c' \<and> md_ok c' \<and>
    md_abs c' = absorb 64 md5_transform (md_abs c) (take (unat len) data)"
proof -
  define idx where "idx = unat (md_byte_count c) mod 64"
  define avail where "avail = (ucast (64 - (md_byte_count c AND 0x3f)) :: u32)"
  note avail = md5_avail(1,2)[of c, folded avail_def idx_def] md5_avail(3)[of c len, folded idx_def]
  have idx: "idx < 64" by (simp add: idx_def)
  have blk: "length (md_block c) = 64" using ok by (simp add: md_ok_def)
  have abs: "md_abs c = (md_hash c, take idx (md_block c))" by (simp add: md_abs_def idx_def)
  show ?thesis
  proof (cases "avail > len")
    case True
    then have lt: "idx + unat len < 64" using avail idx by (simp add: word_less_nat_alt)
    obtain buf' where "mem_write (md_block c) idx (take (unat len) data) = Some buf'" "length buf' = 64"
      "take (idx + unat len) buf' = take idx (md_block c) @ take (unat len) data"
      using buffer_more[OF blk, of idx "take (unat len) data"] lt len by auto
    with True lt len blk avail(2,3) show ?thesis
      unfolding fio_md5_update_def Let_def avail_def[symmetric] abs
      by (simp add: md_ok_def md_abs_def absorb_def hash_blocks_short)
  next
    case False
    then have ge: "64 - idx \<le> unat len" using avail by (simp add: word_less_nat_alt)
    define b where "b = take idx (md_block c) @ take (64 - idx) data"
    have b: "mem_write (md_block c) idx (take (64 - idx) data) = Some b" "length b = 64"
      using first_block[OF blk, of idx data] idx ge len blk by (simp_all add: b_def)
    have split: "absorb 64 md5_transform (md_abs c) (take (unat len) data)
        = hash_blocks 64 md5_transform (md5_transform (md_hash c) b) (take (unat len - (64 - idx)) (drop (64 - idx) data))"
      unfolding abs b_def using idx ge len blk by (intro absorb_split) simp_all
    obtain blk' where B: "md5_blocks (unat len - (64 - idx)) (md5_transform (md_hash c) b) b data (64 - idx)
        = Some (fst (absorb 64 md5_transform (md_abs c) (take (unat len) data)), blk')" "length blk' = 64"
      "take ((idx + unat len) mod 64) blk' = snd (absorb 64 md5_transform (md_abs c) (take (unat len) data))"
      using md5_blocks_ok[OF b(2), of "64 - idx" "unat len - (64 - idx)" data "md5_transform (md_hash c) b"] ge len
      unfolding split wrap_index[OF idx ge] by auto
    have "unat (len - avail) = unat len - (64 - idx)" using ge avail by (simp add: unat_sub word_le_nat_alt)
    with False ge len B(1) b have "fio_md5_update c data len = Some (c\<lparr>md_byte_count := md_byte_count c + ucast len,
        md_hash := fst (absorb 64 md5_transform (md_abs c) (take (unat len) data)), md_block := blk'\<rparr>)"
      unfolding fio_md5_update_def Let_def avail_def[symmetric] by (simp add: avail)
    then show ?thesis by (simp add: md_ok_def B(2) md_abs_def avail(3) B(3)[unfolded md_abs_def] flip: idx_def)
  qed
qed

lemma sha1_blocks_ok:
  "length W = 64 \<Longrightarrow> off + len \<le> length data \<Longrightarrow>
    \<exists>W'. sha1_blocks len h W data off
        = Some (fst (hash_blocks 64 blk_SHA1Block h (take len (drop off data))), W') \<and> length W' = 64 \<and>
      take (len mod 64) W' = snd (hash_blocks 64 blk_SHA1Block h (take len (drop off data)))"
proof (induction len h W data off rule: sha1_blocks.induct)
  case (1 len h W data off)
  show ?case
  proof (cases "64 \<le> len")
    case True
    define b where "b = take 64 (drop off data)"
    have b: "length b = 64" "mem_read data off 64 = Some b"
      using 1(2,3) True by (simp_all add: b_def)
    have "take len (drop off data) = b @ take (len - 64) (drop (off + 64) data)"
      using take_add[of 64 "len - 64" "drop off data"] True by (simp add: b_def add.commute)
    then have "hash_blocks 64 blk_SHA1Block h (take len (drop off data))
        = hash_blocks 64 blk_SHA1Block (blk_SHA1Block h b) (take (len - 64) (drop (off + 64) data))"
      using b(1) by (simp add: hash_blocks_step)
    with 1(1)[OF True b(2) 1(2)] True 1(3) b show ?thesis
      by (subst sha1_blocks.simps) (simp add: le_mod_geq)
  next
    case False
    then show ?thesis using 1(2,3)
      by (subst sha1_blocks.simps) (auto simp: hash_blocks_short)
  qed
qed

definition s1_ok :: "fio_sha1_ctx \<Rightarrow> bool" where
  "s1_ok c \<longleftrightarrow> length (s1_W c) = 64"

definition s1_abs :: "fio_sha1_ctx \<Rightarrow> u32 list \<times> bytes" where
  "s1_abs c = (s1_H c, take (unat (s1_size c) mod 64) (s1_W c))"

lemma fio_sha1_update_ok:
  assumes ok: "s1_ok c" and len: "unat len \<le> length data"
  shows "\<exists>c'. fio_sha1_update c data len = Some c' \<and> s1_ok c' \<and> s1_size c' = s1_size c + len \<and>
    s1_abs c' = absorb 64 blk_SHA1Block (s1_abs c) (take (unat len) data)"
proof -
  define idx where "idx = unat (s1_size c) mod 64"
  have idx: "idx < 64" "unat (s1_size c AND 63) = idx" by (simp_all add: idx_def unat_and_63)
  have W: "length (s1_W c) = 64" using ok by (simp add: s1_ok_def)
  have size': "unat (s1_size c + len) mod 64 = (idx + unat len) mod 64"
    using unat_add_mod[of 64 "s1_size c" len] by (simp add: idx_def mod_add_left_eq)
  have abs: "s1_abs c = (s1_H c, take idx (s1_W c))" by (simp add: s1_abs_def idx_def)
  consider (zero) "idx = 0" | (short) "idx \<noteq> 0" "idx + unat len < 64" | (full) "idx \<noteq> 0" "64 - idx \<le> unat len"
    by linarith
  then show ?thesis
  proof cases
    case zero
    obtain W' where "sha1_blocks (unat len) (s1_H c) (s1_W c) data 0
        = Some (fst (hash_blocks 64 blk_SHA1Block (s1_H c) (take (unat len) data)), W')" "length W' = 64"
      "take (unat len mod 64) W' = snd (hash_blocks 64 blk_SHA1Block (s1_H c) (take (unat len) data))"
      using sha1_blocks_ok[OF W, of 0 "unat len" data "s1_H c"] len by auto
    with zero idx size' show ?thesis
      unfolding fio_sha1_update_def Let_def abs by (simp add: s1_ok_def s1_abs_def absorb_def)
  next
    case short
    obtain W' where "mem_write (s1_W c) idx (take (unat len) data) = Some W'" "length W' = 64"
      "take (idx + unat len) W' = take idx (s1_W c) @ take (unat len) data"
      using buffer_more[OF W, of idx "take (unat len) data"] short len by auto
    moreover have "unat len < 64 - idx" using short by linarith
    ultimately show ?thesis using short len W idx size'
      unfolding fio_sha1_update_def Let_def abs
      by (simp add: s1_ok_def s1_abs_def absorb_def hash_blocks_short)
  next
    case full
    define b where "b = take idx (s1_W c) @ take (64 - idx) data"
    have b: "mem_write (s1_W c) idx (take (64 - idx) data) = Some b" "length b = 64"
      using first_block[OF W, of idx data] idx full len W by (simp_all add: b_def)
    have split: "absorb 64 blk_SHA1Block (s1_abs c) (take (unat len) data)
        = hash_blocks 64 blk_SHA1Block (blk_SHA1Block (s1_H c) b) (take (unat len - (64 - idx)) (drop (64 - idx) data))"
      unfolding abs b_def using idx full len W by (intro absorb_split) simp_all
    obtain W' where B: "sha1_blocks (unat len - (64 - idx)) (blk_SHA1Block (s1_H c) b) b data (64 - idx)
        = Some (fst (absorb 64 blk_SHA1Block (s1_abs c) (take (unat len) data)), W')" "length W' = 64"
      "take ((idx + unat len) mod 64) W' = snd (absorb 64 blk_SHA1Block (s1_abs c) (take (unat len) data))"
      using sha1_blocks_ok[OF b(2), of "64 - idx" "unat len - (64 - idx)" data "blk_SHA1Block (s1_H c) b"] full len
      unfolding split wrap_index[OF idx(1) full(2)] by auto
    from full idx len B(1) b have "fio_sha1_update c data len = Some (c\<lparr>s1_size := s1_size c + len,
        s1_H := fst (absorb 64 blk_SHA1Block (s1_abs c) (take (unat len) data)), s1_W := W'\<rparr>)"
      unfolding fio_sha1_update_def Let_def by simp
    then show ?thesis by (simp add: s1_ok_def B(2) s1_abs_def size' B(3)[unfolded s1_abs_def] flip: idx_def)
  qed
qed

lemma sha_blocks_ok:
  assumes "unat i \<le> unat len" "unat len \<le> length data" "0 < unat bs" "unat len + unat bs < 2 ^ 32"
  shows "\<exists>st' i'. sha_blocks bs tr data len st i = Some (st', i') \<and> unat i' \<le> unat len \<and>
    hash_blocks (unat bs) tr st (take (unat len - unat i) (drop (unat i) data))
      = (st', take (unat len - unat i') (drop (unat i') data))"
  using assms(1)
proof (induction "unat len - unat i" arbitrary: st i rule: less_induct)
  case less
  have "i + (bs - 1) < len \<longleftrightarrow> unat i + unat bs \<le> unat len"
  proof -
    have "unat (bs - 1) = unat bs - 1" using assms(3) by (intro unat_minus_one) auto
    then have "unat (i + (bs - 1)) = unat i + unat bs - 1"
      using less.prems assms(3,4) by (simp add: unat_word_ariths)
    then show ?thesis using assms(3) by (simp add: word_less_nat_alt) linarith
  qed
  note cond = this
  show ?case
  proof (cases "unat i + unat bs \<le> unat len")
    case True
    define b where "b = take (unat bs) (drop (unat i) data)"
    have b: "mem_read data (unat i) (unat bs) = Some b" "length b = unat bs"
      using True assms(2) by (simp_all add: b_def)
    have i': "unat (i + bs) = unat i + unat bs" using True assms(4) by (simp add: unat_word_ariths)
    have "take (unat len - unat i) (drop (unat i) data) = b @ take (unat len - unat (i + bs)) (drop (unat (i + bs)) data)"
      using take_add[of "unat bs" "unat len - unat i - unat bs" "drop (unat i) data"] True
      unfolding i' by (simp add: b_def add.commute)
    then have "hash_blocks (unat bs) tr st (take (unat len - unat i) (drop (unat i) data))
        = hash_blocks (unat bs) tr (tr st b) (take (unat len - unat (i + bs)) (drop (unat (i + bs)) data))"
      using b(2) assms(3) by (simp add: hash_blocks_step)
    moreover have "unat len - unat (i + bs) < unat len - unat i" "unat (i + bs) \<le> unat len"
      using True i' assms(3) by simp_all
    ultimately show ?thesis
      using less.hyps[of "i + bs" "tr st b"] True cond b by (subst sha_blocks.simps) simp
  next
    case False
    then have "hash_blocks (unat bs) tr st (take (unat len - unat i) (drop (unat i) data))
        = (st, take (unat len - unat i) (drop (unat i) data))"
      using assms(2,3) by (intro hash_blocks_short) auto
    with False cond less.prems show ?thesis by (subst sha_blocks.simps) simp
  qed
qed

lemma sha_update_ok:
  fixes idx len bs :: u32
  assumes buf: "length buf = unat bs" and idx: "unat idx < unat bs"
    and len: "unat len \<le> length data" "unat len + unat bs < 2 ^ 32"
  shows "\<exists>st' buf' j i d buf''. sha_fill bs tr data len st buf idx = Some (st', buf', j, i) \<and>
      mem_read data (unat i) (unat (len - i)) = Some d \<and> mem_write buf' (unat j) d = Some buf'' \<and>
      length buf'' = unat bs \<and>
      (unat bs - unat idx \<le> unat len \<longrightarrow> drop ((unat idx + unat len) mod unat bs) buf''
        = drop ((unat idx + unat len) mod unat bs) (take (unat idx) buf @ take (unat bs - unat idx) data)) \<and>
      (st', take ((unat idx + unat len) mod unat bs) buf'') = absorb (unat bs) tr (st, take (unat idx) buf) (take (unat len) data)"
proof -
  have part: "unat (bs - idx) = unat bs - unat idx"
    using idx by (simp add: unat_sub word_le_nat_alt)
  show ?thesis
  proof (cases "bs - idx \<le> len")
    case False
    then have lt: "unat idx + unat len < unat bs" using part by (simp add: word_le_nat_alt)
    obtain buf'' where "mem_write buf (unat idx) (take (unat len) data) = Some buf''" "length buf'' = unat bs"
      "take (unat idx + unat len) buf'' = take (unat idx) buf @ take (unat len) data"
      using buffer_more[OF buf, of "unat idx" "take (unat len) data"] lt len by auto
    moreover have "\<not> unat bs - unat idx \<le> unat len" using lt by simp
    ultimately show ?thesis using False lt len buf
      by - (rule exI[of _ st], rule exI[of _ buf], rule exI[of _ idx], rule exI[of _ 0],
          rule exI[of _ "take (unat len) data"], rule exI[of _ buf''],
          simp add: sha_fill_def absorb_def hash_blocks_short)
  next
    case True
    then have ge: "unat bs - unat idx \<le> unat len" using part by (simp add: word_le_nat_alt)
    define b where "b = take (unat idx) buf @ take (unat bs - unat idx) data"
    have b: "mem_write buf (unat idx) (take (unat bs - unat idx) data) = Some b" "length b = unat bs"
      using first_block[OF buf, of "unat idx" data] idx ge len buf by (simp_all add: b_def)
    have split: "absorb (unat bs) tr (st, take (unat idx) buf) (take (unat len) data)
        = hash_blocks (unat bs) tr (tr st b) (take (unat len - unat (bs - idx)) (drop (unat (bs - idx)) data))"
      unfolding part b_def using idx ge len buf by (intro absorb_split) simp_all
    obtain st' i where B: "sha_blocks bs tr data len (tr st b) (bs - idx) = Some (st', i)" "unat i \<le> unat len"
      "absorb (unat bs) tr (st, take (unat idx) buf) (take (unat len) data)
        = (st', take (unat len - unat i) (drop (unat i) data))"
      using sha_blocks_ok[of "bs - idx" len data bs tr "tr st b"] ge len idx part split by auto
    define d where "d = take (unat len - unat i) (drop (unat i) data)"
    have "unat (len - i) = unat len - unat i" using B(2) by (simp add: unat_sub word_le_nat_alt)
    then have d: "mem_read data (unat i) (unat (len - i)) = Some d" using B(2) len by (simp add: d_def)
    have "length d = (unat len - (unat bs - unat idx)) mod unat bs"
      using length_hash_blocks[of "unat bs" tr "tr st b"] split B(3) idx len ge part unfolding d_def
      by (metis (no_types, lifting) diff_is_0_eq' length_drop length_take less_nat_zero_code min.absorb2 min_diff snd_conv gr_zeroI)
    then have dl: "length d = (unat idx + unat len) mod unat bs" using wrap_index[OF idx ge] by simp
    have "length d < unat bs" using dl idx by simp
    then obtain buf'' where "mem_write b 0 d = Some buf''" "length buf'' = unat bs" "take (length d) buf'' = d"
      "drop (length d) buf'' = drop (length d) b"
      using buffer_more[OF b(2), of 0 d] b(2) by auto
    with True ge len part b B d dl show ?thesis
      by - (rule exI[of _ st'], rule exI[of _ b], rule exI[of _ 0], rule exI[of _ i],
          rule exI[of _ d], rule exI[of _ buf''], simp add: sha_fill_def d_def b_def)
  qed
qed

lemma bit_count_index:
  fixes c len :: u32
  assumes "2 ^ k dvd (2 ^ 29 :: nat)" "m = 2 ^ k - 1" "k < 32"
  shows "unat (drop_bit 3 c AND m) = unat c div 8 mod 2 ^ k"
    and "unat (c + push_bit 3 len) div 8 mod 2 ^ k = (unat c div 8 mod 2 ^ k + unat len) mod 2 ^ k"
proof -
  have "unat (drop_bit 3 c AND m) = unat (drop_bit 3 c) mod 2 ^ k"
    using word_and_mask_mod[of "2 ^ k" k "drop_bit 3 c"] assms(2,3) by (simp add: unat_power_two)
  then show "unat (drop_bit 3 c AND m) = unat c div 8 mod 2 ^ k"
    by (simp add: drop_bit_eq_div unat_div)
  have "unat (c + push_bit 3 len) = (unat c + 8 * unat len) mod 2 ^ 32"
    by (simp add: push_bit_eq_mult unat_word_ariths mod_simps mult.commute)
  also have "\<dots> div 8 = (unat c + 8 * unat len) div 8 mod 2 ^ 29"
    by (simp add: mod_mult2_eq[of _ 8 "2 ^ 29", simplified])
  finally have "unat (c + push_bit 3 len) div 8 = (unat c div 8 + unat len) mod 2 ^ 29" by (simp add: add.commute)
  then show "unat (c + push_bit 3 len) div 8 mod 2 ^ k = (unat c div 8 mod 2 ^ k + unat len) mod 2 ^ k"
    using assms(1) by (simp add: mod_mod_cancel mod_add_left_eq)
qed

lemmas bit_count_63 = bit_count_index[of 6 "0x3f", simplified]
lemmas bit_count_127 = bit_count_index[of 7 "0x7f", simplified]

definition s2_ok :: "fio_sha256_ctx \<Rightarrow> bool" where
  "s2_ok c \<longleftrightarrow> length (s2_buf c) = 64"

definition s2_abs :: "fio_sha256_ctx \<Rightarrow> u32 list \<times> bytes" where
  "s2_abs c = (s2_state c, take (unat (s2_count c ! 0) div 8 mod 64) (s2_buf c))"

lemma fio_sha256_update_ok:
  assumes "s2_ok c" "unat len \<le> length data" "unat len + 64 < 2 ^ 32"
  shows "\<exists>c'. fio_sha256_update c data len = Some c' \<and> s2_ok c' \<and>
    s2_abs c' = absorb 64 sha256_transform (s2_abs c) (take (unat len) data) \<and>
    (64 - unat (s2_count c ! 0) div 8 mod 64 \<le> unat len \<longrightarrow>
      drop ((unat (s2_count c ! 0) div 8 mod 64 + unat len) mod 64) (s2_buf c')
        = drop ((unat (s2_count c ! 0) div 8 mod 64 + unat len) mod 64)
            (snd (s2_abs c) @ take (64 - unat (s2_count c ! 0) div 8 mod 64) data))"
proof -
  define idx where "idx = drop_bit 3 (s2_count c ! 0) AND 0x3f"
  have idx: "unat idx = unat (s2_count c ! 0) div 8 mod 64" by (simp add: idx_def bit_count_63)
  then have "unat idx < unat (64 :: u32)" by simp
  from sha_update_ok[OF _ this, of "s2_buf c" len data sha256_transform "s2_state c"] assms
  show ?thesis
    unfolding fio_sha256_update_def Let_def idx_def[symmetric]
    by (fastforce simp: s2_ok_def s2_abs_def bit_count_63 simp flip: idx)
qed

definition s5_ok :: "fio_sha512_ctx \<Rightarrow> bool" where
  "s5_ok c \<longleftrightarrow> length (s5_buf c) = 128"

definition s5_abs :: "fio_sha512_ctx \<Rightarrow> u64 list \<times> bytes" where
  "s5_abs c = (s5_state c, take (unat (s5_count c ! 0) div 8 mod 128) (s5_buf c))"

lemma sha512_count_0: "sha512_count cnt len ! 0 = cnt ! 0 + push_bit 3 len"
  unfolding sha512_count_def Let_def by (simp only: split: if_split prod.split) simp

lemma fio_sha512_update_ok:
  assumes "s5_ok c" "unat len \<le> length data" "unat len + 128 < 2 ^ 32"
  shows "\<exists>c'. fio_sha512_update c data len = Some c' \<and> s5_ok c' \<and>
    s5_abs c' = absorb 128 sha512_transform (s5_abs c) (take (unat len) data) \<and>
    (128 - unat (s5_count c ! 0) div 8 mod 128 \<le> unat len \<longrightarrow>
      drop ((unat (s5_count c ! 0) div 8 mod 128 + unat len) mod 128) (s5_buf c')
        = drop ((unat (s5_count c ! 0) div 8 mod 128 + unat len) mod 128)
            (snd (s5_abs c) @ take (128 - unat (s5_count c ! 0) div 8 mod 128) data))"
proof -
  define idx where "idx = drop_bit 3 (s5_count c ! 0) AND 0x7f"
  have idx: "unat idx = unat (s5_count c ! 0) div 8 mod 128" by (simp add: idx_def bit_count_127)
  then have "unat idx < unat (128 :: u32)" by simp
  from sha_update_ok[OF _ this, of "s5_buf c" len data sha512_transform "s5_state c"] assms
  show ?thesis
    unfolding fio_sha512_update_def Let_def idx_def[symmetric]
    by (fastforce simp: s5_ok_def s5_abs_def sha512_count_0 bit_count_127 simp flip: idx)
qed

lemma unat_len: "length d < 2 ^ LENGTH('a) \<Longrightarrow> unat (of_nat (length d) :: 'a::len word) = length d"
  by (simp add: unat_of_nat)

abbreviation md5_feed :: "fio_md5_ctx \<Rightarrow> bytes \<Rightarrow> fio_md5_ctx option" where
  "md5_feed c d \<equiv> fio_md5_update c d (of_nat (length d))"

abbreviation sha1_feed :: "fio_sha1_ctx \<Rightarrow> bytes \<Rightarrow> fio_sha1_ctx option" where
  "sha1_feed c d \<equiv> fio_sha1_update c d (of_nat (length d))"

abbreviation sha256_feed :: "fio_sha256_ctx \<Rightarrow> bytes \<Rightarrow> fio_sha256_ctx option" where
  "sha256_feed c d \<equiv> fio_sha256_update c d (of_nat (length d))"

abbreviation sha512_feed :: "fio_sha512_ctx \<Rightarrow> bytes \<Rightarrow> fio_sha512_ctx option" where
  "sha512_feed c d \<equiv> fio_sha512_update c d (of_nat (length d))"

interpretation md5: stream_digest 64 md5_transform md5_feed md_ok md_abs "\<lambda>d. length d < 2 ^ 32"
proof
  show "\<exists>c'. md5_feed c d = Some c' \<and> md_ok c' \<and> md_abs c' = absorb 64 md5_transform (md_abs c) d"
    if "md_ok c" "length d < 2 ^ 32" for c d
    using fio_md5_update_ok[OF that(1), of "of_nat (length d)" d] unat_len[where 'a = 32, of d] that(2) by simp
qed (simp_all add: md_abs_def md_ok_def)

interpretation sha1: stream_digest 64 blk_SHA1Block sha1_feed s1_ok s1_abs "\<lambda>d. length d < 2 ^ 64"
proof
  show "\<exists>c'. sha1_feed c d = Some c' \<and> s1_ok c' \<and> s1_abs c' = absorb 64 blk_SHA1Block (s1_abs c) d"
    if "s1_ok c" "length d < 2 ^ 64" for c d
    using fio_sha1_update_ok[OF that(1), of "of_nat (length d)" d] unat_len[where 'a = 64, of d] that(2) by auto
qed (simp_all add: s1_abs_def s1_ok_def)

interpretation sha256: stream_digest 64 sha256_transform sha256_feed s2_ok s2_abs "\<lambda>d. length d + 64 < 2 ^ 32"
proof
  show "\<exists>c'. sha256_feed c d = Some c' \<and> s2_ok c' \<and> s2_abs c' = absorb 64 sha256_transform (s2_abs c) d"
    if "s2_ok c" "length d + 64 < 2 ^ 32" for c d
    using fio_sha256_update_ok[OF that(1), of "of_nat (length d)" d] unat_len[where 'a = 32, of d] that(2) by auto
qed (simp_all add: s2_abs_def s2_ok_def)

interpretation sha512: stream_digest 128 sha512_transform sha512_feed s5_ok s5_abs "\<lambda>d. length d + 128 < 2 ^ 32"
proof
  show "\<exists>c'. sha512_feed c d = Some c' \<and> s5_ok c' \<and> s5_abs c' = absorb 128 sha512_transform (s5_abs c) d"
    if "s5_ok c" "length d + 128 < 2 ^ 32" for c d
    using fio_sha512_update_ok[OF that(1), of "of_nat (length d)" d] unat_len[where 'a = 32, of d] that(2) by auto
qed (simp_all add: s5_abs_def s5_ok_def)

section \<open>The block buffer and the digest\<close>

lemma snd_hash_blocks: "0 < bs \<Longrightarrow> snd (hash_blocks bs tr h data) = drop (length data - length data mod bs) data"
proof (induction bs tr h data rule: hash_blocks.induct)
  case (1 bs tr h data)
  show ?case
  proof (cases "bs \<le> length data")
    case True
    have "(length data - bs) mod bs \<le> length data - bs" "length data mod bs = (length data - bs) mod bs"
      using True by (simp_all add: le_mod_geq)
    then have "length data - length data mod bs = bs + (length data - bs - (length data - bs) mod bs)"
      using True by linarith
    then show ?thesis using True 1 by (subst hash_blocks.simps) (simp add: add.commute)
  qed (simp add: hash_blocks_short)
qed

lemma length_fst_hash_blocks:
  assumes "\<And>h b. length (tr h b) = n" "length h = n"
  shows "length (fst (hash_blocks bs tr h data)) = n"
  using assms(2)
proof (induction "length data" arbitrary: h data rule: less_induct)
  case less
  show ?case
    using less.hyps[of "drop bs data" "tr h (take bs data)"] less.prems
    by (subst hash_blocks.simps) (auto simp: assms(1))
qed

lemma length_transforms [simp]:
  "length (md5_transform h b) = 4" "length (blk_SHA1Block H b) = 5"
  by (simp_all add: md5_transform_def blk_SHA1Block_def split: prod.split)

text \<open>After a fresh context has absorbed at least a block, the block buffer holds the bytes behind
  the last full block, followed by the rest of the first block.\<close>

definition tail_and_first :: "nat \<Rightarrow> bytes \<Rightarrow> bytes" where
  "tail_and_first bs data = drop (length data - length data mod bs) data @ drop (length data mod bs) (take bs data)"

lemma fresh_block_buffer:
  assumes "length buf = bs" "0 < bs" "bs \<le> length data"
    and "take (length data mod bs) buf = snd (hash_blocks bs tr h data)"
    and "drop (length data mod bs) buf = drop (length data mod bs) (take bs data)"
  shows "buf = tail_and_first bs data"
  using assms unfolding tail_and_first_def snd_hash_blocks[OF assms(2)] by (metis append_take_drop_id)

lemma fresh_sha256_buffer:
  assumes "length buf = 64" "64 \<le> unat len" "unat len \<le> length data" "unat len + 64 < 2 ^ 32"
  shows "\<exists>c. fio_sha256_update (fio_sha256_init \<lparr>s2_count = [], s2_state = [], s2_buf = buf\<rparr>) data len = Some c \<and>
    s2_buf c = tail_and_first 64 (take (unat len) data)"
proof -
  define c0 where "c0 = fio_sha256_init \<lparr>s2_count = [], s2_state = [], s2_buf = buf\<rparr>"
  have c0: "s2_ok c0" "s2_abs c0 = (s2_state c0, [])" "s2_count c0 ! 0 = 0"
    using assms(1) by (simp_all add: c0_def fio_sha256_init_def s2_ok_def s2_abs_def)
  obtain c where c: "fio_sha256_update c0 data len = Some c" "length (s2_buf c) = 64"
    "s2_abs c = absorb 64 sha256_transform (s2_abs c0) (take (unat len) data)"
    "drop (unat len mod 64) (s2_buf c) = drop (unat len mod 64) (take 64 data)"
    using fio_sha256_update_ok[OF c0(1) assms(3,4)] assms(2) unfolding c0(2,3) s2_ok_def by auto
  have "unat (s2_count c ! 0) div 8 mod 64 = unat len mod 64"
    using arg_cong[OF c(3), of "\<lambda>x. length (snd x)"] c(2) assms(3)
    by (simp add: s2_abs_def[of c] absorb_def length_hash_blocks c0(2))
  with c(3) have "take (unat len mod 64) (s2_buf c) = snd (hash_blocks 64 sha256_transform (s2_state c0) (take (unat len) data))"
    by (metis absorb_def append_Nil c0(2) fst_conv s2_abs_def snd_conv)
  then have "s2_buf c = tail_and_first 64 (take (unat len) data)"
    using c(2,4) assms(2,3) by (intro fresh_block_buffer) simp_all
  with c(1) show ?thesis by (simp add: c0_def)
qed

lemma fresh_sha512_buffer:
  assumes "length buf = 128" "128 \<le> unat len" "unat len \<le> length data" "unat len + 128 < 2 ^ 32"
  shows "\<exists>c. fio_sha512_update (fio_sha512_init \<lparr>s5_state = [], s5_count = [], s5_buf = buf\<rparr>) data len = Some c \<and>
    s5_buf c = tail_and_first 128 (take (unat len) data)"
proof -
  define c0 where "c0 = fio_sha512_init \<lparr>s5_state = [], s5_count = [], s5_buf = buf\<rparr>"
  have c0: "s5_ok c0" "s5_abs c0 = (s5_state c0, [])" "s5_count c0 ! 0 = 0"
    using assms(1) by (simp_all add: c0_def fio_sha512_init_def s5_ok_def s5_abs_def)
  obtain c where c: "fio_sha512_update c0 data len = Some c" "length (s5_buf c) = 128"
    "s5_abs c = absorb 128 sha512_transform (s5_abs c0) (take (unat len) data)"
    "drop (unat len mod 128) (s5_buf c) = drop (unat len mod 128) (take 128 data)"
    using fio_sha512_update_ok[OF c0(1) assms(3,4)] assms(2) unfolding c0(2,3) s5_ok_def by auto
  have "unat (s5_count c ! 0) div 8 mod 128 = unat len mod 128"
    using arg_cong[OF c(3), of "\<lambda>x. length (snd x)"] c(2) assms(3)
    by (simp add: s5_abs_def[of c] absorb_def length_hash_blocks c0(2))
  with c(3) have "take (unat len mod 128) (s5_buf c) = snd (hash_blocks 128 sha512_transform (s5_state c0) (take (unat len) data))"
    by (metis absorb_def append_Nil c0(2) fst_conv s5_abs_def snd_conv)
  then have "s5_buf c = tail_and_first 128 (take (unat len) data)"
    using c(2,4) assms(2,3) by (intro fresh_block_buffer) simp_all
  with c(1) show ?thesis by (simp add: c0_def)
qed

section \<open>Properties\<close>

text \<open>C12: each of the four digests can be fed a message in pieces of any size: no update leaves
  its buffers, and afterwards the state and the buffered remainder are those of the whole
  message cut into blocks from its start, whatever the cuts between the pieces.\<close>

theorem digest_pieces:
  assumes "md_ok m" "s1_ok a" "s2_ok b" "s5_ok c" and small: "\<forall>d \<in> set ds. length d < 2 ^ 31"
  shows "(\<exists>m'. feed md5_feed m ds = Some m' \<and> md_abs m' = absorb 64 md5_transform (md_abs m) (concat ds)) \<and>
    (\<exists>a'. feed sha1_feed a ds = Some a' \<and> s1_abs a' = absorb 64 blk_SHA1Block (s1_abs a) (concat ds)) \<and>
    (\<exists>b'. feed sha256_feed b ds = Some b' \<and> s2_abs b' = absorb 64 sha256_transform (s2_abs b) (concat ds)) \<and>
    (\<exists>c'. feed sha512_feed c ds = Some c' \<and> s5_abs c' = absorb 128 sha512_transform (s5_abs c) (concat ds))"
proof -
  have "\<forall>d \<in> set ds. length d < 2 ^ 32 \<and> length d < 2 ^ 64 \<and> length d + 64 < 2 ^ 32 \<and> length d + 128 < 2 ^ 32"
    using small by fastforce
  then show ?thesis
    using md5.feed_absorb[OF assms(1), of ds] sha1.feed_absorb[OF assms(2), of ds]
      sha256.feed_absorb[OF assms(3), of ds] sha512.feed_absorb[OF assms(4), of ds] by auto
qed

definition md5_ctx0 :: fio_md5_ctx where
  "md5_ctx0 = fio_md5_init \<lparr>md_hash = [], md_block = replicate 64 0, md_byte_count = 0\<rparr>"

definition sha1_ctx0 :: fio_sha1_ctx where
  "sha1_ctx0 = fio_sha1_init \<lparr>s1_H = [], s1_W = replicate 64 0, s1_size = 0\<rparr>"

definition sha256_ctx0 :: fio_sha256_ctx where
  "sha256_ctx0 = fio_sha256_init \<lparr>s2_count = [], s2_state = [], s2_buf = replicate 64 0\<rparr>"

definition sha512_ctx0 :: fio_sha512_ctx where
  "sha512_ctx0 = fio_sha512_init \<lparr>s5_state = [], s5_count = [], s5_buf = replicate 128 0\<rparr>"

lemmas ctx0_defs = md5_ctx0_def fio_md5_init_def sha1_ctx0_def fio_sha1_init_def
  sha256_ctx0_def fio_sha256_init_def sha512_ctx0_def fio_sha512_init_def

theorem digest_pieces_witness:
  "let ds = [replicate 70 1, [2, 3], replicate 200 4] in
    (\<exists>m'. feed md5_feed md5_ctx0 ds = Some m' \<and> md_abs m' = absorb 64 md5_transform (md_abs md5_ctx0) (concat ds)) \<and>
    (\<exists>a'. feed sha1_feed sha1_ctx0 ds = Some a' \<and> s1_abs a' = absorb 64 blk_SHA1Block (s1_abs sha1_ctx0) (concat ds)) \<and>
    (\<exists>b'. feed sha256_feed sha256_ctx0 ds = Some b' \<and> s2_abs b' = absorb 64 sha256_transform (s2_abs sha256_ctx0) (concat ds)) \<and>
    (\<exists>c'. feed sha512_feed sha512_ctx0 ds = Some c' \<and> s5_abs c' = absorb 128 sha512_transform (s5_abs sha512_ctx0) (concat ds))"
  unfolding Let_def
  by (rule digest_pieces) (simp_all add: md_ok_def s1_ok_def s2_ok_def s5_ok_def ctx0_defs)

text \<open>The padding of FIPS 180: a one bit, zero bits up to eight bytes before the end of a block,
  and the length in bits, most significant byte first.\<close>

definition sha1_padding :: "nat \<Rightarrow> bytes" where
  "sha1_padding n = 0x80 # replicate ((119 - n mod 64) mod 64) 0 @
     map (\<lambda>i. of_nat (8 * n div 256 ^ (7 - i))) [0..<8]"

lemma store_be32: "le_enc 4 (be32_to_cpu w) = map (\<lambda>i. ucast (drop_bit (24 - 8 * i) w)) [0..<4]"
proof -
  have "ucast (drop_bit (8 * j) (be32_to_cpu w)) = (ucast (drop_bit (24 - 8 * j) w) :: u8)" if "j < 4" for j
  proof (rule bit_word_eqI)
    fix n assume "n < LENGTH(8)"
    with that have "8 * j + n < 32" "(8 * j + n) div 8 = j" "(8 * j + n) mod 8 = n" by simp_all
    with \<open>n < LENGTH(8)\<close> that show "bit (ucast (drop_bit (8 * j) (be32_to_cpu w)) :: u8) n = bit (ucast (drop_bit (24 - 8 * j) w) :: u8) n"
      by (simp add: bit_ucast_iff bit_drop_bit_eq bit_be32_to_cpu diff_mult_distrib2)
  qed
  from this[of 0] this[of 1] this[of 2] this[of 3] show ?thesis
    by (simp add: le_enc_def upt_rec)
qed

lemma length_byte: "of_nat (8 * n div 256 ^ k) = (ucast (drop_bit (8 * k) (push_bit 3 (of_nat n :: u64))) :: u8)"
  if "k < 8"
proof (rule bit_word_eqI)
  fix j assume j: "j < LENGTH(8)"
  have "(256 :: nat) ^ k = 2 ^ (8 * k)" by (simp add: power_mult)
  then have "8 * n div 256 ^ k = drop_bit (8 * k) (push_bit 3 n)"
    by (simp add: drop_bit_eq_div push_bit_eq_mult mult.commute)
  with j that show "bit (of_nat (8 * n div 256 ^ k) :: u8) j
      = bit (ucast (drop_bit (8 * k) (push_bit 3 (of_nat n :: u64))) :: u8) j"
    by (auto simp: bit_of_nat_iff bit_ucast_iff bit_drop_bit_eq bit_push_bit_iff)
qed

lemma padlen_bytes:
  fixes size' :: u64
  assumes "size' = of_nat n" "n < 2 ^ 61"
  shows "le_enc 4 (be32_to_cpu (ucast (drop_bit 29 size'))) @ le_enc 4 (be32_to_cpu (ucast (push_bit 3 size')))
    = map (\<lambda>i. of_nat (8 * n div 256 ^ (7 - i))) [0..<8]"
proof -
  have hi: "ucast (drop_bit (24 - 8 * i) (ucast (drop_bit 29 size') :: u32))
      = (of_nat (8 * n div 256 ^ (7 - i)) :: u8)" if "i < 4" for i
    by (subst length_byte, simp, rule bit_word_eqI) (use that assms in \<open>auto simp: bit_ucast_iff bit_drop_bit_eq bit_push_bit_iff diff_mult_distrib2\<close>)
  have lo: "ucast (drop_bit (24 - 8 * i) (ucast (push_bit 3 size') :: u32))
      = (of_nat (8 * n div 256 ^ (3 - i)) :: u8)" if "i < 4" for i
    by (subst length_byte, simp, rule bit_word_eqI) (use that assms in \<open>auto simp: bit_ucast_iff bit_drop_bit_eq bit_push_bit_iff diff_mult_distrib2\<close>)
  show ?thesis
    using hi[of 0] hi[of 1] hi[of 2] hi[of 3] lo[of 0] lo[of 1] lo[of 2] lo[of 3]
    unfolding store_be32 by (simp add: upt_rec)
qed

lemma sha1_pad_count:
  fixes size' :: u64
  shows "unat (1 + (63 AND (55 - (size' AND 63)))) = 1 + (119 - unat size' mod 64) mod 64"
proof -
  define i where "i = unat size' mod 64"
  have i: "unat (size' AND 63) = i" "i < 64" by (simp_all add: i_def unat_and_63)
  have "unat (63 AND (55 - (size' AND 63))) = unat (55 - (size' AND 63)) mod 64"
    using unat_and_63[of "55 - (size' AND 63)"] by (simp add: and.commute)
  also have "\<dots> = (119 - i) mod 64"
  proof (cases "i \<le> 55")
    case True
    then have "unat (55 - (size' AND 63)) = 55 - i" using i by (simp add: unat_sub word_le_nat_alt)
    moreover have "119 - i = (55 - i) + 64" using True by simp
    ultimately show ?thesis by (simp only: mod_add_self2)
  next
    case False
    then have "unat (55 - (size' AND 63)) = 2 ^ 64 + 55 - i" using i by (simp add: unat_sub_if_size word_size)
    moreover have "2 ^ 64 + 55 - i = (119 - i) + (2 ^ 58 - 1) * 64" using i(2) False by simp
    ultimately show ?thesis by (simp only: mod_mult_self1)
  qed
  finally have "unat (63 AND (55 - (size' AND 63))) = (119 - i) mod 64" .
  then show ?thesis by (simp add: unat_word_ariths i_def)
qed

lemma fio_sha1_final_ok:
  assumes ok: "s1_ok c" and n: "s1_size c = of_nat n" "n < 2 ^ 61"
  shows "\<exists>c'. fio_sha1_final c = Some (concat (map (\<lambda>i. le_enc 4 (be32_to_cpu
    (fst (absorb 64 blk_SHA1Block (s1_abs c) (sha1_padding n)) ! i))) [0..<5]), c')"
proof -
  define k where "k = (119 - n mod 64) mod 64"
  define pl where "pl = map (\<lambda>i. of_nat (8 * n div 256 ^ (7 - i)) :: u8) [0..<8]"
  have "unat (s1_size c) = n" using n by (simp add: unat_of_nat)
  then have cnt: "unat (1 + (63 AND (55 - (s1_size c AND 63)))) = 1 + k"
    using sha1_pad_count[of "s1_size c"] by (simp add: k_def)
  have k: "k < 64" by (simp add: k_def)
  then have pad: "take (1 + k) (0x80 # replicate 63 0) = 0x80 # replicate k (0 :: u8)" by simp
  obtain c1 where c1: "fio_sha1_update c (0x80 # replicate 63 0) (1 + (63 AND (55 - (s1_size c AND 63)))) = Some c1"
    "s1_ok c1" "s1_abs c1 = absorb 64 blk_SHA1Block (s1_abs c) (0x80 # replicate k 0)"
    using fio_sha1_update_ok[OF ok, of "1 + (63 AND (55 - (s1_size c AND 63)))" "0x80 # replicate 63 0"] cnt k pad
    by auto
  have "length pl = 8" by (simp add: pl_def)
  then obtain c2 where c2: "fio_sha1_update c1 pl 8 = Some c2" "s1_abs c2 = absorb 64 blk_SHA1Block (s1_abs c1) pl"
    using fio_sha1_update_ok[OF c1(2), of 8 pl] by auto
  have "s1_abs c2 = absorb 64 blk_SHA1Block (s1_abs c) (sha1_padding n)"
    using hash_blocks_append[of 64 blk_SHA1Block "s1_H c" "snd (s1_abs c) @ 0x80 # replicate k 0" pl]
    unfolding c2(2) c1(3) by (simp add: absorb_def sha1_padding_def s1_abs_def k_def pl_def)
  then have "s1_H c2 = fst (absorb 64 blk_SHA1Block (s1_abs c) (sha1_padding n))" by (metis fst_conv s1_abs_def)
  with c1(1) c2(1) show ?thesis
    unfolding fio_sha1_final_def Let_def padlen_bytes[OF n, folded pl_def] by simp
qed

lemma sha1_padding_length: "(n + length (sha1_padding n)) mod 64 = 0"
proof -
  define i where "i = n mod 64"
  have "i < 64" by (simp add: i_def)
  then have sum: "i + (119 - i + 9) = 128" by linarith
  have "(i + ((119 - i) mod 64 + 9)) mod 64 = (i + (119 - i + 9)) mod 64"
    by (metis mod_add_left_eq mod_add_right_eq)
  then have "(i + ((119 - i) mod 64 + 9)) mod 64 = 0" unfolding sum by simp
  then show ?thesis by (simp add: sha1_padding_def i_def mod_add_left_eq add.commute[of 9])
qed

text \<open>C13: \<open>fio_sha1_init\<close>, one update and \<open>fio_sha1_final\<close> produce the digest of FIPS 180 for
  every message below 2^61 bytes: the compression function folded over the blocks of the
  message with its standard padding, which is a whole number of blocks, and written out most
  significant byte first.\<close>

theorem sha1_message_digest:
  assumes "s1_ok c" "length data < 2 ^ 61"
  shows "\<exists>c1 c2 H. fio_sha1_update (fio_sha1_init c) data (of_nat (length data)) = Some c1 \<and>
    hash_blocks 64 blk_SHA1Block [0x67452301, 0xefcdab89, 0x98badcfe, 0x10325476, 0xc3d2e1f0]
      (data @ sha1_padding (length data)) = (H, []) \<and>
    fio_sha1_final c1 = Some (concat (map (\<lambda>i. map (\<lambda>j. ucast (drop_bit (24 - 8 * j) (H ! i))) [0..<4]) [0..<5]), c2)"
proof -
  define iv :: "u32 list" where "iv = [0x67452301, 0xefcdab89, 0x98badcfe, 0x10325476, 0xc3d2e1f0]"
  define n where "n = length data"
  have n: "unat (of_nat n :: u64) = n" "n < 2 ^ 61" using assms(2) by (simp_all add: n_def unat_of_nat)
  have init: "s1_ok (fio_sha1_init c)" "s1_abs (fio_sha1_init c) = (iv, [])" "s1_size (fio_sha1_init c) = 0"
    using assms(1) by (simp_all add: s1_ok_def s1_abs_def fio_sha1_init_def iv_def)
  obtain c1 where c1: "fio_sha1_update (fio_sha1_init c) data (of_nat n) = Some c1" "s1_ok c1" "s1_size c1 = of_nat n"
    "s1_abs c1 = absorb 64 blk_SHA1Block (iv, []) data"
    using fio_sha1_update_ok[OF init(1), of "of_nat n" data] init(2,3) n(1) by (auto simp: n_def)
  have abs: "absorb 64 blk_SHA1Block (s1_abs c1) (sha1_padding n) = hash_blocks 64 blk_SHA1Block iv (data @ sha1_padding n)"
    using hash_blocks_append[of 64 blk_SHA1Block iv data "sha1_padding n"] by (simp add: c1(4) absorb_def)
  obtain H r where H: "hash_blocks 64 blk_SHA1Block iv (data @ sha1_padding n) = (H, r)" by fastforce
  have "r = []"
    using length_hash_blocks[of 64 blk_SHA1Block iv "data @ sha1_padding n"] sha1_padding_length[of n] H
    by (simp add: n_def)
  with fio_sha1_final_ok[OF c1(2,3) n(2)] c1(1) H show ?thesis
    unfolding abs store_be32 iv_def[symmetric] n_def[symmetric] by auto
qed

theorem sha1_message_digest_witness:
  "\<exists>c1 c2 H. fio_sha1_update (fio_sha1_init sha1_ctx0) [97, 98, 99] (of_nat (length [97, 98, 99 :: u8])) = Some c1 \<and>
    hash_blocks 64 blk_SHA1Block [0x67452301, 0xefcdab89, 0x98badcfe, 0x10325476, 0xc3d2e1f0]
      ([97, 98, 99] @ sha1_padding (length [97, 98, 99 :: u8])) = (H, []) \<and>
    fio_sha1_final c1 = Some (concat (map (\<lambda>i. map (\<lambda>j. ucast (drop_bit (24 - 8 * j) (H ! i))) [0..<4]) [0..<5]), c2)"
  by (rule sha1_message_digest) (simp_all add: s1_ok_def ctx0_defs)

end
