(* ===== verification/Rand_Hash.thy ===== *)
theory Rand_Hash
  imports Fio_Prelude "HOL-Library.Monad_Syntax"
begin

text \<open>
  The random generator and buffer filler of \<open>lib/rand.c\<close> and \<open>lib/rand.h\<close>, and the hash
  functions of \<open>hash.h\<close>, for the 64 bit build.

  A buffer is a block of bytes; the filler stores whole \<open>long\<close>s, and a store that leaves
  the block gives \<open>None\<close>.
\<close>

section \<open>The Tausworthe generator\<close>

record frand_state =
  s1 :: u32
  s2 :: u32
  s3 :: u32

text \<open>The mask is an \<open>unsigned long\<close>: the left part is computed in 64 bits and truncated by the
  assignment.\<close>

definition TAUSWORTHE :: "u32 \<Rightarrow> nat \<Rightarrow> nat \<Rightarrow> u64 \<Rightarrow> nat \<Rightarrow> u32" where
  "TAUSWORTHE s a b c d =
     ucast (push_bit d (ucast s AND c) XOR ucast (drop_bit b (push_bit a s XOR s)) :: u64)"

definition c_rand :: "frand_state \<Rightarrow> u32 \<times> frand_state" where
  "c_rand st =
     (let st = st\<lparr>s1 := TAUSWORTHE (s1 st) 13 19 4294967294 12\<rparr>;
          st = st\<lparr>s2 := TAUSWORTHE (s2 st) 2 25 4294967288 4\<rparr>;
          st = st\<lparr>s3 := TAUSWORTHE (s3 st) 3 11 4294967280 17\<rparr>
      in (s1 st XOR s2 st XOR s3 st, st))"

definition c_seed :: "u32 \<Rightarrow> u32 \<Rightarrow> u32" where
  "c_seed x m = (if x < m then x + m else x)"

text \<open>In C the operator of \<open>(2^31) + (2^17) + (2^7)\<close> is exclusive or: the constant is
  29 + 19 + 5.\<close>

definition LCG :: "u32 \<Rightarrow> u32 \<Rightarrow> u32" where
  "LCG x seed = (x * 69069) XOR seed"

definition init_rand_seed :: "u32 \<Rightarrow> frand_state" where
  "init_rand_seed seed =
     (let a = c_seed (LCG ((2 XOR 31) + (2 XOR 17) + (2 XOR 7)) seed) 1;
          b = c_seed (LCG a seed) 7;
          c = c_seed (LCG b seed) 15
      in ((snd \<circ> c_rand) ^^ 6) \<lparr>s1 = a, s2 = b, s3 = c\<rparr>)"

definition init_rand :: frand_state where
  "init_rand = init_rand_seed 1"

section \<open>Filling buffers\<close>

definition GOLDEN_RATIO_PRIME :: u64 where
  "GOLDEN_RATIO_PRIME = 0x9e37fffffffc0001"

function c_fill_random_buf :: "bytes \<Rightarrow> nat \<Rightarrow> nat \<Rightarrow> u64 \<Rightarrow> bytes option" where
  "c_fill_random_buf buf ptr end seed =
     (if ptr < end then do {
        buf \<leftarrow> mem_write buf ptr (le_enc 8 seed);
        c_fill_random_buf buf (ptr + 8) end (drop_bit 3 (seed * GOLDEN_RATIO_PRIME))
      } else Some buf)"
  by pat_completeness auto
termination by (relation "measure (\<lambda>(buf, ptr, end, seed). end - ptr)") auto

declare c_fill_random_buf.simps [simp del]

definition rand_long :: "frand_state \<Rightarrow> u64 \<times> frand_state" where
  "rand_long fs =
     (let (r, fs) = c_rand fs; (r', fs) = c_rand fs in (ucast r * ucast r', fs))"

definition fill_random_buf :: "frand_state \<Rightarrow> bytes \<Rightarrow> u32 \<Rightarrow> (u64 \<times> bytes \<times> frand_state) option" where
  "fill_random_buf fs buf len = do {
     let (r, fs) = rand_long fs;
     buf \<leftarrow> c_fill_random_buf buf 0 (unat len) r;
     Some (r, buf, fs)
   }"

partial_function (option) fill_percentage_loop :: "u32 \<Rightarrow> u32 \<Rightarrow> u64 \<Rightarrow> bytes \<Rightarrow> nat \<Rightarrow> u32 \<Rightarrow> bytes option" where
  "fill_percentage_loop percentage segment r buf off len =
     (if len = 0 then Some buf
      else do {
        let this_len = (segment * (100 - percentage)) div 100;
        let this_len = (if this_len > len then len else this_len);
        buf \<leftarrow> c_fill_random_buf buf off (off + unat this_len) r;
        let len = len - this_len;
        let off = off + unat this_len;
        let this_len = (if this_len > len then len else this_len);
        buf \<leftarrow> mem_write buf off (replicate (unat this_len) 0);
        fill_percentage_loop percentage segment r buf (off + unat this_len) (len - this_len)
      })"

definition fill_random_buf_percentage ::
    "frand_state \<Rightarrow> bytes \<Rightarrow> u32 \<Rightarrow> u32 \<Rightarrow> u32 \<Rightarrow> (u64 \<times> bytes \<times> frand_state) option" where
  "fill_random_buf_percentage fs buf percentage segment len = do {
     let (r, fs1) = c_rand fs;
     if percentage = 100 then do {
       buf \<leftarrow> mem_write buf 0 (replicate (unat len) 0);
       Some (0, buf, fs1)
     } else do {
       let segment = (if segment > len then len else segment);
       let (r', fs2) = c_rand fs1;
       let r = ucast r * ucast r';
       buf \<leftarrow> fill_percentage_loop percentage segment r buf 0 len;
       Some (r, buf, fs2)
     }
   }"

section \<open>Hashes\<close>

definition hash_long :: "u64 \<Rightarrow> nat \<Rightarrow> u64" where
  "hash_long val bits =
     (let hash = val;
          n = hash;
          n = push_bit 18 n;
          hash = hash - n;
          n = push_bit 33 n;
          hash = hash - n;
          n = push_bit 3 n;
          hash = hash + n;
          n = push_bit 3 n;
          hash = hash - n;
          n = push_bit 4 n;
          hash = hash + n;
          n = push_bit 2 n;
          hash = hash + n
      in drop_bit (64 - bits) hash)"

definition rol32 :: "u32 \<Rightarrow> nat \<Rightarrow> u32" where
  "rol32 word shift = push_bit shift word OR drop_bit (32 - shift) word"

type_synonym triple = "u32 \<times> u32 \<times> u32"

definition jhash_mix :: "triple \<Rightarrow> triple" where
  "jhash_mix t =
     (let (a, b, c) = t;
          a = a - c; a = a XOR rol32 c 4; c = c + b;
          b = b - a; b = b XOR rol32 a 6; a = a + c;
          c = c - b; c = c XOR rol32 b 8; b = b + a;
          a = a - c; a = a XOR rol32 c 16; c = c + b;
          b = b - a; b = b XOR rol32 a 19; a = a + c;
          c = c - b; c = c XOR rol32 b 4; b = b + a
      in (a, b, c))"

definition jhash_final :: "triple \<Rightarrow> triple" where
  "jhash_final t =
     (let (a, b, c) = t;
          c = c XOR b; c = c - rol32 b 14;
          a = a XOR c; a = a - rol32 c 11;
          b = b XOR a; b = b - rol32 a 25;
          c = c XOR b; c = c - rol32 b 16;
          a = a XOR c; a = a - rol32 c 4;
          b = b XOR a; b = b - rol32 a 14;
          c = c XOR b; c = c - rol32 b 24
      in (a, b, c))"

text \<open>The last block: the cases of the switch fall through, so that \<open>length\<close> bytes are added,
  each at its place.\<close>

definition jhash_tail :: "triple \<Rightarrow> bytes \<Rightarrow> triple" where
  "jhash_tail t k =
     (let (a, b, c) = t;
          at = (\<lambda>i s. if i < length k then push_bit s (ucast (k ! i)) else 0)
      in (a + at 3 24 + at 2 16 + at 1 8 + at 0 0,
          b + at 7 24 + at 6 16 + at 5 8 + at 4 0,
          c + at 11 24 + at 10 16 + at 9 8 + at 8 0))"

function jhash_loop :: "triple \<Rightarrow> bytes \<Rightarrow> nat \<Rightarrow> triple option" where
  "jhash_loop t k length' =
     (if 12 < length' then do {
        let (a, b, c) = t;
        k0 \<leftarrow> arr_get k 0;
        k4 \<leftarrow> arr_get k 4;
        k8 \<leftarrow> arr_get k 8;
        jhash_loop (jhash_mix (a + ucast k0, b + ucast k4, c + ucast k8)) (drop 12 k) (length' - 12)
      } else do {
        d \<leftarrow> mem_read k 0 length';
        Some (if length' = 0 then t else jhash_final (jhash_tail t d))
      })"
  by pat_completeness auto
termination by (relation "measure (\<lambda>(t, k, n). n)") auto

declare jhash_loop.simps [simp del]

definition jhash :: "bytes \<Rightarrow> u32 \<Rightarrow> u32 \<Rightarrow> u32 option" where
  "jhash key len initval = do {
     let init = ucast GOLDEN_RATIO_PRIME + len + initval;
     (a, b, c) \<leftarrow> jhash_loop (init, init, init) key (unat len);
     Some c
   }"

section \<open>Properties\<close>

lemma bit_TAUSWORTHE:
  assumes "32 - b \<le> d + k" "k \<le> 32" "b \<le> 32" "c = NOT (mask k) AND mask 32" "j < 32"
  shows "bit (TAUSWORTHE s a b c d) j \<longleftrightarrow>
    (if j < 32 - b then (a \<le> j + b \<and> bit s (j + b - a)) \<noteq> bit s (j + b) else d + k \<le> j \<and> bit s (j - d))"
  using assms
  by (auto simp: TAUSWORTHE_def bit_ucast_iff bit_xor_iff bit_push_bit_iff bit_and_iff bit_drop_bit_eq bit_not_iff
      bit_mask_iff add.commute dest: bit_imp_le_length)

text \<open>If the bits of the successor from \<open>k\<close> on are clear, so are those of the predecessor.\<close>

lemma TAUSWORTHE_alive:
  assumes "32 - b = d + k" "0 < a" "a + k \<le> 32 - d" "b \<le> 32" "c = NOT (mask k) AND mask 32"
    and zero: "\<And>j. k \<le> j \<Longrightarrow> j < 32 \<Longrightarrow> \<not> bit (TAUSWORTHE s a b c d) j"
    and i: "k \<le> i" "i < 32"
  shows "\<not> bit s i"
  using i
proof (induction i rule: less_induct)
  case (less i)
  show ?case
  proof (cases "i + d < 32")
    case True
    then show ?thesis
      using zero[of "i + d"] bit_TAUSWORTHE[of b d k c "i + d" s a] less.prems assms(1,4,5) by auto
  next
    case False
    then have j: "k \<le> i - b" "i - b < 32 - b" "i - b < 32" "b \<le> i" using less.prems assms(1,3) by auto
    then have "(a \<le> i \<and> bit s (i - a)) = bit s i"
      using zero[of "i - b"] bit_TAUSWORTHE[of b d k c "i - b" s a] assms(1,4,5) by auto
    moreover have "\<not> bit s (i - a)" using less.IH[of "i - a"] less.prems assms(1-3) False by auto
    ultimately show ?thesis by blast
  qed
qed

lemma ge_power_iff: "k < 32 \<Longrightarrow> 2 ^ k \<le> s \<longleftrightarrow> (\<exists>i. k \<le> i \<and> i < 32 \<and> bit s i)" for s :: u32
proof -
  assume k: "k < 32"
  have "2 ^ k \<le> s \<longleftrightarrow> \<not> unat s < 2 ^ k" using k by (simp add: word_le_nat_alt unat_power_two not_less)
  also have "unat s < 2 ^ k \<longleftrightarrow> drop_bit k s = 0"
    using k by (simp add: word_unat_eq_iff drop_bit_eq_div unat_div unat_power_two div_eq_0_iff)
  also have "\<dots> \<longleftrightarrow> (\<forall>i. k \<le> i \<longrightarrow> \<not> bit s i)"
  proof
    assume "drop_bit k s = 0"
    then have clear: "\<not> bit (drop_bit k s) (i - k)" for i by simp
    show "\<forall>i. k \<le> i \<longrightarrow> \<not> bit s i"
    proof (intro allI impI)
      fix i assume "k \<le> i"
      with clear[of i] show "\<not> bit s i" by (simp add: bit_drop_bit_eq)
    qed
  next
    assume "\<forall>i. k \<le> i \<longrightarrow> \<not> bit s i"
    then show "drop_bit k s = 0" by (intro bit_word_eqI) (simp add: bit_drop_bit_eq)
  qed
  finally show ?thesis using bit_imp_le_length[of s] by fastforce
qed

lemma TAUSWORTHE_ge:
  assumes "32 - b = d + k" "0 < a" "a + k \<le> 32 - d" "b \<le> 32" "c = NOT (mask k) AND mask 32" "k < 32" "2 ^ k \<le> s"
  shows "2 ^ k \<le> TAUSWORTHE s a b c d"
  using TAUSWORTHE_alive[OF assms(1-5), of s] assms(6,7) unfolding ge_power_iff[OF assms(6)] by blast

text \<open>C14: once the three components are above the bounds that the header comment asks of the
  seeds (s1 > 1, s2 > 7, s3 > 15), every call of \<open>__rand\<close> keeps them there: no component of
  the generator ever collapses to zero.\<close>

theorem rand_components_alive:
  assumes "s1 st > 1" "s2 st > 7" "s3 st > 15"
  shows "(let st' = snd (c_rand st) in s1 st' > 1 \<and> s2 st' > 7 \<and> s3 st' > 15)"
proof -
  have "s1 st \<ge> 2 ^ 1" "s2 st \<ge> 2 ^ 3" "s3 st \<ge> 2 ^ 4"
    using assms by (simp_all add: word_less_nat_alt word_le_nat_alt)
  then have "TAUSWORTHE (s1 st) 13 19 4294967294 12 \<ge> 2 ^ 1" "TAUSWORTHE (s2 st) 2 25 4294967288 4 \<ge> 2 ^ 3"
    "TAUSWORTHE (s3 st) 3 11 4294967280 17 \<ge> 2 ^ 4"
    by (intro TAUSWORTHE_ge; simp add: mask_eq_exp_minus_1)+
  then show ?thesis by (simp add: c_rand_def Let_def word_less_nat_alt word_le_nat_alt)
qed

theorem rand_components_alive_witness:
  "let st' = snd (c_rand \<lparr>s1 = 2, s2 = 8, s3 = 16\<rparr>) in s1 st' > 1 \<and> s2 st' > 7 \<and> s3 st' > 15"
  by (rule rand_components_alive) simp_all

text \<open>The seeding only asks for s1 >= 1, s2 >= 7 and s3 >= 15, and a component on the bound dies
  at once: with the seed 3660657 the first component is zero after initialisation.\<close>

lemma TAUSWORTHE_zero: "TAUSWORTHE 0 a b c d = 0"
  by (simp add: TAUSWORTHE_def)

lemma rand_s1_zero: "s1 st = 0 \<Longrightarrow> s1 (((snd \<circ> c_rand) ^^ n) st) = 0"
  by (induction n) (simp_all add: c_rand_def Let_def TAUSWORTHE_zero)

lemma init_rand_seed_dead: "s1 (init_rand_seed 3660657) = 0"
proof -
  have "c_seed (LCG ((2 XOR 31) + (2 XOR 17) + (2 XOR 7)) 3660657) 1 = 1"
    by (simp add: c_seed_def LCG_def)
  moreover have "s1 (snd (c_rand \<lparr>s1 = 1, s2 = b, s3 = c\<rparr>)) = 0" for b c
    by (simp add: c_rand_def Let_def TAUSWORTHE_def)
  ultimately show ?thesis
    using rand_s1_zero[of _ 5] unfolding init_rand_seed_def Let_def by (simp add: funpow_Suc_right numeral_eq_Suc del: funpow.simps)
qed

text \<open>C15: the shifts and additions of \<open>hash_long\<close> are the multiplication by the golden ratio
  prime that the 32 bit branch performs, and the result fits the number of bits asked for.\<close>

theorem hash_long_multiplies:
  assumes "1 \<le> bits" "bits \<le> 64"
  shows "hash_long val bits = drop_bit (64 - bits) (val * GOLDEN_RATIO_PRIME) \<and> unat (hash_long val bits) < 2 ^ bits"
proof -
  have mult: "hash_long val bits = drop_bit (64 - bits) (val * GOLDEN_RATIO_PRIME)"
    unfolding hash_long_def Let_def GOLDEN_RATIO_PRIME_def push_bit_push_bit
    by (simp add: push_bit_eq_mult algebra_simps)
  have "unat (drop_bit (64 - bits) w) < 2 ^ bits" for w :: u64
  proof -
    have "unat (drop_bit (64 - bits) w) = unat w div 2 ^ (64 - bits)"
      using assms by (simp add: drop_bit_eq_div unat_div unat_power_two)
    also have "\<dots> < 2 ^ bits"
      using unat_lt[of w] assms by (simp add: less_mult_imp_div_less flip: power_add)
    finally show ?thesis .
  qed
  with mult show ?thesis by simp
qed

theorem hash_long_multiplies_witness:
  "hash_long 12345 20 = drop_bit (64 - 20) (12345 * GOLDEN_RATIO_PRIME) \<and> unat (hash_long 12345 20) < 2 ^ 20"
  by (rule hash_long_multiplies) simp_all

text \<open>One line of the mixing macro, with the names rotated for the next line, and its inverse.\<close>

definition jhash_line :: "nat \<Rightarrow> triple \<Rightarrow> triple" where
  "jhash_line n t = (let (x, y, z) = t; x = x - z; x = x XOR rol32 z n; z = z + y in (y, z, x))"

definition jhash_unline :: "nat \<Rightarrow> triple \<Rightarrow> triple" where
  "jhash_unline n t = (let (y, z, x) = t; z = z - y; x = x XOR rol32 z n; x = x + z in (x, y, z))"

lemma jhash_mix_lines:
  "jhash_mix t = jhash_line 4 (jhash_line 19 (jhash_line 16 (jhash_line 8 (jhash_line 6 (jhash_line 4 t)))))"
  unfolding jhash_mix_def jhash_line_def Let_def by (simp only: split_beta fst_conv snd_conv)

lemma jhash_unline_line: "jhash_unline n (jhash_line n t) = t"
  by (simp add: jhash_unline_def jhash_line_def Let_def split_beta xor.assoc)

text \<open>C16: the mixing step of \<open>jhash\<close> loses nothing, as its comment says: undoing its six lines in
  the opposite order gives back the three words.\<close>

theorem jhash_mix_reversible:
  "jhash_unline 4 (jhash_unline 6 (jhash_unline 8 (jhash_unline 16 (jhash_unline 19 (jhash_unline 4 (jhash_mix t)))))) = t"
  by (simp add: jhash_mix_lines jhash_unline_line)

lemma jhash_loop_ignores:
  assumes "length k' = length k" "n \<le> length k"
    and "\<And>i. i < n \<Longrightarrow> i mod 4 = 0 \<or> 12 * ((n - 1) div 12) \<le> i \<Longrightarrow> k' ! i = k ! i"
  shows "jhash_loop t k' n = jhash_loop t k n"
  using assms
proof (induction t k n arbitrary: k' rule: jhash_loop.induct)
  case (1 t k n)
  show ?case
  proof (cases "12 < n")
    case True
    have eq: "k' ! 0 = k ! 0" "k' ! 4 = k ! 4" "k' ! 8 = k ! 8" using 1(4)[of 0] 1(4)[of 4] 1(4)[of 8] True by simp_all
    obtain a b c where t: "t = (a, b, c)" by (cases t)
    have "jhash_loop u (drop 12 k') (n - 12) = jhash_loop u (drop 12 k) (n - 12)"
      if "u = jhash_mix (a + ucast (k ! 0), b + ucast (k ! 4), c + ucast (k ! 8))" for u
      unfolding that
    proof (rule 1(1)[OF True refl t[symmetric] refl])
      show "drop 12 k' ! i = drop 12 k ! i" if "i < n - 12" "i mod 4 = 0 \<or> 12 * ((n - 12 - 1) div 12) \<le> i" for i
      proof -
        have "(n - 1) div 12 = Suc ((n - 12 - 1) div 12)" using le_div_geq[of 12 "n - 1"] True by simp
        then have "(12 + i) mod 4 = 0 \<or> 12 * ((n - 1) div 12) \<le> 12 + i" using that(2) by auto
        then have "k' ! (12 + i) = k ! (12 + i)" using that(1) True by (intro 1(4)) simp_all
        then show ?thesis using True 1(2,3) by simp
      qed
    qed (use True 1(2,3) in \<open>auto simp: arr_get_def\<close>)
    moreover have "arr_get k' 0 = Some (k ! 0)" "arr_get k 0 = Some (k ! 0)"
      using True 1(2,3) eq by (auto simp: arr_get_def)
    ultimately show ?thesis
      using True 1(2,3) eq by (subst (1 2) jhash_loop.simps) (simp add: t)
  next
    case False
    then have "take n k' = take n k"
      using 1(2-4) by (intro nth_equalityI) auto
    with False 1(2,3) show ?thesis by (subst (1 2) jhash_loop.simps) simp
  qed
qed

text \<open>C17: in every block of twelve bytes but the last, \<open>jhash\<close> reads one byte of each word: keys
  that differ elsewhere in those blocks always collide.\<close>

theorem jhash_ignores_bytes:
  assumes "length key' = length key" "unat len \<le> length key"
    and "\<And>i. i < unat len \<Longrightarrow> i mod 4 = 0 \<or> 12 * ((unat len - 1) div 12) \<le> i \<Longrightarrow> key' ! i = key ! i"
  shows "jhash key' len initval = jhash key len initval"
  using jhash_loop_ignores[OF assms] by (simp add: jhash_def)

theorem jhash_ignores_bytes_witness:
  "jhash [1, 2, 3, 4, 5, 6, 7, 8, 9, 10, 11, 12, 13] 13 0 = jhash [1, 0, 0, 0, 5, 0, 0, 0, 9, 0, 0, 0, 13] 13 0"
proof (rule jhash_ignores_bytes)
  fix i assume "i < unat (13 :: u32)" "i mod 4 = 0 \<or> 12 * ((unat (13 :: u32) - 1) div 12) \<le> i"
  then have "i = 0 \<or> i = 4 \<or> i = 8 \<or> i = 12" by simp presburger
  then show "[1, 2, 3, 4, 5, 6, 7, 8, 9, 10, 11, 12, 13 :: u8] ! i = [1, 0, 0, 0, 5, 0, 0, 0, 9, 0, 0, 0, 13] ! i" by auto
qed simp_all

text \<open>The longs that the filler stores from a seed on.\<close>

fun random_bytes :: "u64 \<Rightarrow> nat \<Rightarrow> bytes" where
  "random_bytes seed 0 = []"
| "random_bytes seed (Suc n) = le_enc 8 seed @ random_bytes (drop_bit 3 (seed * GOLDEN_RATIO_PRIME)) n"

lemma length_random_bytes [simp]: "length (random_bytes seed n) = 8 * n"
  by (induction n arbitrary: seed) simp_all

lemma c_fill_random_buf_eq:
  "end = ptr + n \<Longrightarrow> c_fill_random_buf buf ptr end seed =
    (if ptr + 8 * ((n + 7) div 8) \<le> length buf \<or> n = 0
     then Some (take ptr buf @ random_bytes seed ((n + 7) div 8) @ drop (ptr + 8 * ((n + 7) div 8)) buf) else None)"
proof (induction n arbitrary: buf ptr seed rule: less_induct)
  case (less n)
  show ?case
  proof (cases "n = 0")
    case True
    then show ?thesis using less.prems by (simp add: c_fill_random_buf.simps)
  next
    case False
    define q where "q = (n - 8 + 7) div 8"
    have q: "(n + 7) div 8 = Suc q"
    proof (cases "n < 8")
      case True
      with False show ?thesis by (simp add: q_def div_nat_eqI)
    next
      case nge: False
      then show ?thesis using le_div_geq[of 8 "n + 7"] by (simp add: q_def)
    qed
    have q0: "n - 8 = 0 \<Longrightarrow> q = 0" by (simp add: q_def)
    define seed' where "seed' = drop_bit 3 (seed * GOLDEN_RATIO_PRIME)"
    show ?thesis
    proof (cases "ptr + 8 \<le> length buf")
      case False
      then show ?thesis using less.prems \<open>n \<noteq> 0\<close> q
        by (subst c_fill_random_buf.simps) (simp add: mem_write_def)
    next
      case True
      define buf' where "buf' = take ptr buf @ le_enc 8 seed @ drop (ptr + 8) buf"
      have buf': "length buf' = length buf" "mem_write buf ptr (le_enc 8 seed) = Some buf'"
        using True by (simp_all add: buf'_def)
      have "c_fill_random_buf buf ptr end seed = c_fill_random_buf buf' (ptr + 8) end seed'"
        using less.prems \<open>n \<noteq> 0\<close> buf'(2) by (subst c_fill_random_buf.simps) (simp add: seed'_def)
      also have "\<dots> = (if ptr + 8 + 8 * q \<le> length buf \<or> n - 8 = 0
          then Some (take (ptr + 8) buf' @ random_bytes seed' q @ drop (ptr + 8 + 8 * q) buf') else None)"
      proof (cases "8 \<le> n")
        case True
        then show ?thesis using less.IH[of "n - 8" "ptr + 8" buf' seed'] less.prems \<open>n \<noteq> 0\<close> buf'(1) by (simp add: q_def)
      next
        case False
        then have "q = 0" by (simp add: q_def)
        with False less.prems show ?thesis by (subst c_fill_random_buf.simps) simp
      qed
      also have "take (ptr + 8) buf' = take ptr buf @ le_enc 8 seed" using True by (simp add: buf'_def)
      also have "drop (ptr + 8 + 8 * q) buf' = drop (ptr + 8 * Suc q) buf" using True by (simp add: buf'_def add.commute add.assoc)
      finally show ?thesis
        using True \<open>n \<noteq> 0\<close> q0 unfolding q by (cases "n - 8 = 0") (simp_all add: seed'_def add.assoc)
    qed
  qed
qed

text \<open>C18: filling stores whole longs, so it needs the length rounded up to eight bytes; given
  that, it succeeds, the bytes are a function of the returned seed alone, and
  \<open>__fill_random_buf\<close> called with that seed on any other buffer produces the same bytes.\<close>

theorem fill_random_buf_reproducible:
  assumes "8 * ((unat len + 7) div 8) \<le> length buf" "length buf' = length buf"
  shows "\<exists>r b b' fs'. fill_random_buf fs buf len = Some (r, b, fs') \<and> length b = length buf \<and>
    c_fill_random_buf buf' 0 (unat len) r = Some b' \<and> take (unat len) b' = take (unat len) b"
proof -
  obtain r fs' where r: "rand_long fs = (r, fs')" by fastforce
  define q where "q = (unat len + 7) div 8"
  have q: "unat len \<le> 8 * q" by (simp add: q_def)
  have "c_fill_random_buf b 0 (unat len) r = Some (random_bytes r q @ drop (8 * q) b)" if "length b = length buf" for b
    using c_fill_random_buf_eq[of "unat len" 0 "unat len" b r] assms(1) that by (simp add: q_def)
  then show ?thesis using r assms q by (simp add: fill_random_buf_def q_def)
qed

theorem fill_random_buf_reproducible_witness:
  "\<exists>r b b' fs'. fill_random_buf init_rand (replicate 16 0) 13 = Some (r, b, fs') \<and> length b = length (replicate 16 (0 :: u8)) \<and>
    c_fill_random_buf (replicate 16 7) 0 (unat (13 :: u32)) r = Some b' \<and> take (unat (13 :: u32)) b' = take (unat (13 :: u32)) b"
  by (rule fill_random_buf_reproducible) simp_all

lemma fill_percentage_loop_stuck:
  assumes "fill_percentage_loop percentage segment r buf off len = Some b"
  shows "(segment * (100 - percentage)) div 100 = 0 \<longrightarrow> len = 0"
proof (rule fill_percentage_loop.raw_induct[OF _ assms,
      where P = "\<lambda>percentage segment r buf off len b. (segment * (100 - percentage)) div 100 = 0 \<longrightarrow> len = 0"])
  fix f :: "u32 \<Rightarrow> u32 \<Rightarrow> u64 \<Rightarrow> bytes \<Rightarrow> nat \<Rightarrow> u32 \<Rightarrow> bytes option"
    and percentage segment :: u32 and r :: u64 and buf b :: bytes and off and len :: u32
  assume IH: "\<And>percentage segment r buf off len b. f percentage segment r buf off len = Some b \<Longrightarrow>
      (segment * (100 - percentage)) div 100 = 0 \<longrightarrow> len = 0"
    and run: "(if len = 0 then Some buf else do {
        let this_len = (segment * (100 - percentage)) div 100;
        let this_len = (if this_len > len then len else this_len);
        buf \<leftarrow> c_fill_random_buf buf off (off + unat this_len) r;
        let len = len - this_len;
        let off = off + unat this_len;
        let this_len = (if this_len > len then len else this_len);
        buf \<leftarrow> mem_write buf off (replicate (unat this_len) 0);
        f percentage segment r buf (off + unat this_len) (len - this_len) }) = Some b"
  show "(segment * (100 - percentage)) div 100 = 0 \<longrightarrow> len = 0"
    using run IH[of percentage segment r _ off len] by (auto simp: Let_def Option.bind_eq_Some_conv split: if_splits)
qed

text \<open>C19: the compressible filler does not return when a segment has less than one percent of a
  byte to randomise: the chunk it advances by is empty.\<close>

theorem fill_percentage_never_returns:
  assumes "len \<noteq> 0" "percentage \<noteq> 100" "segment \<le> len" "(segment * (100 - percentage)) div 100 = 0"
  shows "fill_random_buf_percentage fs buf percentage segment len = None"
proof -
  have "fill_percentage_loop percentage segment r buf 0 len = None" for r
    using fill_percentage_loop_stuck[of percentage segment r buf 0 len] assms by (cases "fill_percentage_loop percentage segment r buf 0 len") auto
  moreover have "\<not> segment > len" using assms(3) by simp
  ultimately show ?thesis
    using assms(2) unfolding fill_random_buf_percentage_def Let_def by (simp add: split_beta)
qed

theorem fill_percentage_never_returns_witness:
  "fill_random_buf_percentage init_rand (replicate 4096 0) 60 2 4096 = None"
  by (rule fill_percentage_never_returns) simp_all

end
