(* ===== verification/Verify.thy ===== *)
theory Verify
  imports Crc Digest Rand_Hash
begin

text \<open>
  Data verification, \<open>verify.c\<close> and \<open>verify.h\<close>: the pattern that is written, the header in
  front of every interval of a buffer, its checksum, and the checks on a buffer that was
  read back.

  A buffer is a block of bytes and the structures inside it are read and written at the
  offsets the 64 bit ABI gives them (\<open>struct verify_header\<close> has 56 bytes; its padding keeps
  the bytes that were there). An access outside the buffer, a \<open>memcpy\<close> between overlapping
  regions and a failing assertion give \<open>None\<close>. Logging and dumping are not modelled.
\<close>

section \<open>Headers\<close>

datatype verify_type = VERIFY_NONE | VERIFY_MD5 | VERIFY_CRC64 | VERIFY_CRC32 | VERIFY_CRC32C
  | VERIFY_CRC32C_INTEL | VERIFY_CRC16 | VERIFY_CRC7 | VERIFY_SHA256 | VERIFY_SHA512 | VERIFY_META
  | VERIFY_SHA1 | VERIFY_PATTERN | VERIFY_NULL

fun verify_code :: "verify_type \<Rightarrow> u16" where
  "verify_code VERIFY_NONE = 0"
| "verify_code VERIFY_MD5 = 1"
| "verify_code VERIFY_CRC64 = 2"
| "verify_code VERIFY_CRC32 = 3"
| "verify_code VERIFY_CRC32C = 4"
| "verify_code VERIFY_CRC32C_INTEL = 5"
| "verify_code VERIFY_CRC16 = 6"
| "verify_code VERIFY_CRC7 = 7"
| "verify_code VERIFY_SHA256 = 8"
| "verify_code VERIFY_SHA512 = 9"
| "verify_code VERIFY_META = 10"
| "verify_code VERIFY_SHA1 = 11"
| "verify_code VERIFY_PATTERN = 12"
| "verify_code VERIFY_NULL = 13"

definition verify_types :: "verify_type list" where
  "verify_types = [VERIFY_NONE, VERIFY_MD5, VERIFY_CRC64, VERIFY_CRC32, VERIFY_CRC32C, VERIFY_CRC32C_INTEL,
     VERIFY_CRC16, VERIFY_CRC7, VERIFY_SHA256, VERIFY_SHA512, VERIFY_META, VERIFY_SHA1, VERIFY_PATTERN, VERIFY_NULL]"

definition verify_type_of :: "u16 \<Rightarrow> verify_type option" where
  "verify_type_of c = find (\<lambda>v. verify_code v = c) verify_types"

definition FIO_HDR_MAGIC :: u16 where
  "FIO_HDR_MAGIC = 0xacca"

fun priv_size :: "verify_type \<Rightarrow> u32" where
  "priv_size VERIFY_NONE = 0"
| "priv_size VERIFY_NULL = 0"
| "priv_size VERIFY_MD5 = 16"
| "priv_size VERIFY_CRC64 = 8"
| "priv_size VERIFY_CRC32C = 4"
| "priv_size VERIFY_CRC32 = 4"
| "priv_size VERIFY_CRC32C_INTEL = 4"
| "priv_size VERIFY_CRC16 = 2"
| "priv_size VERIFY_CRC7 = 1"
| "priv_size VERIFY_SHA256 = 64"
| "priv_size VERIFY_SHA512 = 128"
| "priv_size VERIFY_META = 32"
| "priv_size VERIFY_SHA1 = 20"
| "priv_size VERIFY_PATTERN = 0"

definition hdr_size :: "verify_type \<Rightarrow> u32" where
  "hdr_size v = priv_size v + 56"

text \<open>The options and the state of a job that verification uses. \<open>o_is_match\<close> is the comparison
  of the job's \<open>unique_ops\<close>; the processor enters through the crc32 instruction.\<close>

record vtd =
  o_verify :: verify_type
  o_verify_interval :: u32
  o_verify_offset :: u32
  o_verify_pattern :: bytes
  o_verify_pattern_bytes :: u32
  o_verify_fatal :: bool
  o_verify_inner :: bool
  o_randomagain :: bool
  o_rw_min_bs :: u32
  o_trim_zero :: bool
  t_thread_number :: u32
  t_write_issues :: u64
  t_is_match :: "bytes \<Rightarrow> bytes \<Rightarrow> bool"
  t_crc32c_intel_available :: bool
  t_hwb :: "u32 \<Rightarrow> u8 \<Rightarrow> u32"
  t_hwq :: "u32 \<Rightarrow> u64 \<Rightarrow> u32"
  t_buf_state :: frand_state
  t_terminate :: bool

record vio =
  i_buf :: bytes
  i_buflen :: u64
  i_offset :: u64
  i_rand_seed :: u64
  i_buf_filled_len :: u64
  i_ddir_read :: bool
  i_trimmed :: bool
  i_unique_version :: bytes
  i_time_sec :: u64
  i_time_usec :: u64

abbreviation td_crc32c :: "vtd \<Rightarrow> bytes \<Rightarrow> u64 \<Rightarrow> u32 option" where
  "td_crc32c td \<equiv> fio_crc32c (t_crc32c_intel_available td) (t_hwb td) (t_hwq td)"

section \<open>Writing\<close>

function pattern_copy :: "bytes \<Rightarrow> nat \<Rightarrow> bytes \<Rightarrow> nat \<Rightarrow> nat \<Rightarrow> bytes option" where
  "pattern_copy b len pat n i =
     (if i < len \<and> 0 < n then do {
        let size = (if n > len - i then len - i else n);
        d \<leftarrow> mem_read pat 0 size;
        b \<leftarrow> mem_write b i d;
        pattern_copy b len pat n (i + size)
      } else Some b)"
  by pat_completeness auto
termination by (relation "measure (\<lambda>(b, len, pat, n, i). len - i)") auto

declare pattern_copy.simps [simp del]

definition fill_pattern :: "vtd \<Rightarrow> vio \<Rightarrow> u32 \<Rightarrow> u64 \<Rightarrow> bool \<Rightarrow> (vtd \<times> vio) option" where
  "fill_pattern td io_u len seed use_seed =
     (if o_verify_pattern_bytes td = 0 then
        (if use_seed then do {
           b \<leftarrow> c_fill_random_buf (i_buf io_u) 0 (unat len) seed;
           Some (td, io_u\<lparr>i_buf := b\<rparr>)
         } else do {
           (r, b, fs) \<leftarrow> fill_random_buf (t_buf_state td) (i_buf io_u) len;
           Some (td\<lparr>t_buf_state := fs\<rparr>, io_u\<lparr>i_buf := b, i_rand_seed := r\<rparr>)
         })
      else if ucast len \<le> i_buf_filled_len io_u then Some (td, io_u)
      else if o_verify_pattern_bytes td = 1 then do {
        c \<leftarrow> arr_get (o_verify_pattern td) 0;
        b \<leftarrow> mem_write (i_buf io_u) 0 (replicate (unat len) c);
        Some (td, io_u\<lparr>i_buf := b, i_buf_filled_len := ucast len\<rparr>)
      } else do {
        b \<leftarrow> pattern_copy (i_buf io_u) (unat len) (o_verify_pattern td) (unat (o_verify_pattern_bytes td)) 0;
        Some (td, io_u\<lparr>i_buf := b, i_buf_filled_len := ucast len\<rparr>)
      })"

definition get_hdr_inc :: "vtd \<Rightarrow> vio \<Rightarrow> u32" where
  "get_hdr_inc td io_u =
     (if o_randomagain td then o_rw_min_bs td
      else if o_verify_interval td \<noteq> 0 \<and> ucast (o_verify_interval td) \<le> i_buflen io_u then o_verify_interval td
      else ucast (i_buflen io_u))"

definition memswp :: "bytes \<Rightarrow> nat \<Rightarrow> nat \<Rightarrow> nat \<Rightarrow> bytes option" where
  "memswp buf p1 p2 len =
     (if 200 < len \<or> (p1 < p2 + len \<and> p2 < p1 + len) then None
      else do {
        swap \<leftarrow> mem_read buf p1 len;
        d \<leftarrow> mem_read buf p2 len;
        buf \<leftarrow> mem_write buf p1 d;
        mem_write buf p2 swap
      })"

definition fill_md5 :: "bytes \<Rightarrow> u32 \<Rightarrow> bytes option" where
  "fill_md5 data len = do {
     c \<leftarrow> fio_md5_update (fio_md5_init \<lparr>md_hash = [], md_block = replicate 64 0, md_byte_count = 0\<rparr>) data len;
     Some (concat (map (le_enc 4) (md_hash c)))
   }"

definition fill_sha1 :: "bytes \<Rightarrow> u32 \<Rightarrow> bytes option" where
  "fill_sha1 data len = do {
     c \<leftarrow> fio_sha1_update (fio_sha1_init \<lparr>s1_H = [], s1_W = replicate 64 0, s1_size = 0\<rparr>) data (ucast len);
     Some (concat (map (le_enc 4) (s1_H c)))
   }"

text \<open>For sha256 and sha512 it is the block buffer that is put into the header and compared; its
  old contents are an argument.\<close>

definition fill_sha256 :: "bytes \<Rightarrow> bytes \<Rightarrow> u32 \<Rightarrow> bytes option" where
  "fill_sha256 buf data len = do {
     c \<leftarrow> fio_sha256_update (fio_sha256_init \<lparr>s2_count = [], s2_state = [], s2_buf = buf\<rparr>) data len;
     Some (s2_buf c)
   }"

definition fill_sha512 :: "bytes \<Rightarrow> bytes \<Rightarrow> u32 \<Rightarrow> bytes option" where
  "fill_sha512 buf data len = do {
     c \<leftarrow> fio_sha512_update (fio_sha512_init \<lparr>s5_state = [], s5_count = [], s5_buf = buf\<rparr>) data len;
     Some (s5_buf c)
   }"

definition fill_crc7 :: "bytes \<Rightarrow> u32 \<Rightarrow> bytes option" where
  "fill_crc7 data len = map_option (le_enc 1) (fio_crc7 data len)"

definition fill_crc16 :: "bytes \<Rightarrow> u32 \<Rightarrow> bytes option" where
  "fill_crc16 data len = map_option (le_enc 2) (fio_crc16 data len)"

definition fill_crc32 :: "bytes \<Rightarrow> u32 \<Rightarrow> bytes option" where
  "fill_crc32 data len = map_option (le_enc 4) (fio_crc32 data (ucast len))"

definition fill_crc32c :: "vtd \<Rightarrow> bytes \<Rightarrow> u32 \<Rightarrow> bytes option" where
  "fill_crc32c td data len = map_option (le_enc 4) (td_crc32c td data (ucast len))"

definition fill_crc64 :: "bytes \<Rightarrow> u32 \<Rightarrow> bytes option" where
  "fill_crc64 data len = map_option (le_enc 8) (fio_crc64 data (ucast len))"

fun checksum :: "vtd \<Rightarrow> verify_type \<Rightarrow> bytes \<Rightarrow> bytes \<Rightarrow> u32 \<Rightarrow> bytes option" where
  "checksum td VERIFY_MD5 old data len = fill_md5 data len"
| "checksum td VERIFY_CRC64 old data len = fill_crc64 data len"
| "checksum td VERIFY_CRC32C old data len = fill_crc32c td data len"
| "checksum td VERIFY_CRC32C_INTEL old data len = fill_crc32c td data len"
| "checksum td VERIFY_CRC32 old data len = fill_crc32 data len"
| "checksum td VERIFY_CRC16 old data len = fill_crc16 data len"
| "checksum td VERIFY_CRC7 old data len = fill_crc7 data len"
| "checksum td VERIFY_SHA256 old data len = fill_sha256 old data len"
| "checksum td VERIFY_SHA512 old data len = fill_sha512 old data len"
| "checksum td VERIFY_SHA1 old data len = fill_sha1 data len"
| "checksum td _ old data len = None"

lemmas fill_crc_defs = fill_crc7_def fill_crc16_def fill_crc32_def fill_crc32c_def fill_crc64_def

definition fill_meta :: "vtd \<Rightarrow> vio \<Rightarrow> bytes \<Rightarrow> nat \<Rightarrow> u32 \<Rightarrow> bytes option" where
  "fill_meta td io_u buf vh header_num = do {
     buf \<leftarrow> mem_write buf (vh + 8) (le_enc 1 (ucast (t_thread_number td) :: u8));
     buf \<leftarrow> mem_write buf (vh + 16) (le_enc 8 (i_time_sec io_u));
     buf \<leftarrow> mem_write buf (vh + 24) (le_enc 8 (i_time_usec io_u));
     buf \<leftarrow> mem_write buf (vh + 10) (le_enc 2 (ucast (t_write_issues td) :: u16));
     mem_write buf vh (le_enc 8 (i_offset io_u + ucast (header_num * o_verify_interval td)))
   }"

definition put_header :: "vtd \<Rightarrow> vio \<Rightarrow> bytes \<Rightarrow> nat \<Rightarrow> u32 \<Rightarrow> u32 \<Rightarrow> bytes option" where
  "put_header td io_u buf p header_num header_len = do {
     buf \<leftarrow> mem_write buf p (le_enc 2 FIO_HDR_MAGIC);
     buf \<leftarrow> mem_write buf (p + 2) (le_enc 2 (verify_code (o_verify td)));
     buf \<leftarrow> mem_write buf (p + 8) (le_enc 8 (i_offset io_u + ucast (header_num * header_len)));
     buf \<leftarrow> (if o_verify_inner td then mem_write buf (p + 40) (i_unique_version io_u) else Some buf);
     buf \<leftarrow> mem_write buf (p + 16) (le_enc 4 header_len);
     buf \<leftarrow> mem_write buf (p + 24) (le_enc 8 (i_rand_seed io_u));
     hdr \<leftarrow> mem_read buf p 32;
     crc \<leftarrow> td_crc32c td hdr 32;
     mem_write buf (p + 32) (le_enc 4 crc)
   }"

definition populate_hdr :: "vtd \<Rightarrow> vio \<Rightarrow> bytes \<Rightarrow> nat \<Rightarrow> u32 \<Rightarrow> u32 \<Rightarrow> bytes option" where
  "populate_hdr td io_u buf p header_num header_len = do {
     buf \<leftarrow> put_header td io_u buf p header_num header_len;
     let hs = hdr_size (o_verify td);
     let data_len = header_len - hs;
     let data = drop (p + unat hs) buf;
     buf \<leftarrow> (case o_verify td of
         VERIFY_META \<Rightarrow> fill_meta td io_u buf (p + 56) header_num
       | VERIFY_PATTERN \<Rightarrow> Some buf
       | v \<Rightarrow> do {
           old \<leftarrow> mem_read buf (p + 56) (unat (priv_size v));
           sum \<leftarrow> checksum td v old data data_len;
           mem_write buf (p + 56) sum
         });
     if o_verify_offset td \<noteq> 0 then memswp buf p (p + unat (o_verify_offset td)) (unat hs) else Some buf
   }"

partial_function (option) populate_headers :: "vtd \<Rightarrow> vio \<Rightarrow> u32 \<Rightarrow> bytes \<Rightarrow> nat \<Rightarrow> u32 \<Rightarrow> bytes option" where
  "populate_headers td io_u hdr_inc buf p header_num =
     (if p < unat (i_buflen io_u) then do {
        buf \<leftarrow> populate_hdr td io_u buf p header_num hdr_inc;
        populate_headers td io_u hdr_inc buf (p + unat hdr_inc) (header_num + 1)
      } else Some buf)"

definition fill_pattern_headers :: "vtd \<Rightarrow> vio \<Rightarrow> u64 \<Rightarrow> bool \<Rightarrow> (vtd \<times> vio) option" where
  "fill_pattern_headers td io_u seed use_seed = do {
     (td, io_u) \<leftarrow> fill_pattern td io_u (ucast (i_buflen io_u)) seed use_seed;
     buf \<leftarrow> populate_headers td io_u (get_hdr_inc td io_u) (i_buf io_u) 0 0;
     Some (td, io_u\<lparr>i_buf := buf\<rparr>)
   }"

definition populate_verify_io_u :: "vtd \<Rightarrow> vio \<Rightarrow> (vtd \<times> vio) option" where
  "populate_verify_io_u td io_u =
     (if o_verify td = VERIFY_NULL then Some (td, io_u) else fill_pattern_headers td io_u 0 False)"

section \<open>Reading back\<close>

definition EILSEQ :: int where
  "EILSEQ = 84"

definition EINVAL :: int where
  "EINVAL = 22"

definition rd16 :: "bytes \<Rightarrow> nat \<Rightarrow> u16 option" where
  "rd16 buf off = map_option le_dec (mem_read buf off 2)"

definition rd32 :: "bytes \<Rightarrow> nat \<Rightarrow> u32 option" where
  "rd32 buf off = map_option le_dec (mem_read buf off 4)"

definition rd64 :: "bytes \<Rightarrow> nat \<Rightarrow> u64 option" where
  "rd64 buf off = map_option le_dec (mem_read buf off 8)"

definition verify_header :: "vtd \<Rightarrow> vio \<Rightarrow> bytes \<Rightarrow> nat \<Rightarrow> bool option" where
  "verify_header td io_u buf p = do {
     magic \<leftarrow> rd16 buf p;
     if magic \<noteq> FIO_HDR_MAGIC then Some False
     else do {
       len \<leftarrow> rd32 buf (p + 16);
       if ucast len > i_buflen io_u then Some False
       else do {
         hdr \<leftarrow> mem_read buf p 32;
         crc \<leftarrow> td_crc32c td hdr 32;
         want \<leftarrow> rd32 buf (p + 32);
         Some (crc = want)
       }
     }
   }"

definition hweight8 :: "u32 \<Rightarrow> u32" where
  "hweight8 w =
     (let res = w - (drop_bit 1 w AND 0x55);
          res = (res AND 0x33) + (drop_bit 2 res AND 0x33)
      in (res + drop_bit 4 res) AND 0x0F)"

text \<open>The quick comparison by chunks: the index and the phase where it stopped.\<close>

function pattern_scan :: "bytes \<Rightarrow> nat \<Rightarrow> nat \<Rightarrow> bytes \<Rightarrow> nat \<Rightarrow> nat \<Rightarrow> nat \<Rightarrow> (nat \<times> nat) option" where
  "pattern_scan buf off len pat psize i md =
     (if i < len \<and> md < psize then do {
        let size = (if psize - md > len - i then len - i else psize - md);
        d \<leftarrow> mem_read buf (off + i) size;
        e \<leftarrow> mem_read pat md size;
        if d \<noteq> e then Some (i, md) else pattern_scan buf off len pat psize (i + size) 0
      } else Some (i, md))"
  by pat_completeness auto
termination by (relation "measure (\<lambda>(buf, off, len, pat, psize, i, md). len - i)") auto

declare pattern_scan.simps [simp del]

function pattern_find :: "bytes \<Rightarrow> nat \<Rightarrow> nat \<Rightarrow> bytes \<Rightarrow> nat \<Rightarrow> nat \<Rightarrow> nat \<Rightarrow> int option" where
  "pattern_find buf off len pat nbytes i md =
     (if i < len then do {
        c \<leftarrow> arr_get buf (off + i);
        d \<leftarrow> arr_get pat md;
        if c \<noteq> d then Some EILSEQ
        else pattern_find buf off len pat nbytes (i + 1) (if md + 1 = nbytes then 0 else md + 1)
      } else Some 0)"
  by pat_completeness auto
termination by (relation "measure (\<lambda>(buf, off, len, pat, nbytes, i, md). len - i)") auto

declare pattern_find.simps [simp del]

definition verify_io_u_pattern :: "vtd \<Rightarrow> vio \<Rightarrow> bytes \<Rightarrow> nat \<Rightarrow> int option" where
  "verify_io_u_pattern td io_u buf p = do {
     let header_size = hdr_size (o_verify td);
     let pattern_size = (if o_verify_pattern_bytes td \<le> 1 then 512 else o_verify_pattern_bytes td);
     let off = p + unat header_size;
     let len = unat (get_hdr_inc td io_u - header_size);
     (i, md) \<leftarrow> pattern_scan buf off len (o_verify_pattern td) (unat pattern_size) 0 (unat (header_size mod pattern_size));
     pattern_find buf off len (o_verify_pattern td) (unat (o_verify_pattern_bytes td)) i md
   }"

definition verify_io_u_meta :: "vtd \<Rightarrow> vio \<Rightarrow> bytes \<Rightarrow> nat \<Rightarrow> u32 \<Rightarrow> int option" where
  "verify_io_u_meta td io_u buf p hdr_num = do {
     off \<leftarrow> rd64 buf (p + 56);
     let ret = (if off = i_offset io_u + ucast (hdr_num * o_verify_interval td) then 0 else EILSEQ);
     ret' \<leftarrow> (if o_verify_pattern_bytes td \<noteq> 0 then verify_io_u_pattern td io_u buf p else Some 0);
     Some (ret OR ret')
   }"

text \<open>The checks by checksum recompute it over the data area behind the header, whose place follows
  from the number and the length in the header (\<open>io_u_verify_off\<close>), and compare it with the one
  stored. \<open>f\<close> is the routine and \<open>ps\<close> the size of what it produces.\<close>

definition io_u_verify_off :: "verify_type \<Rightarrow> u32 \<Rightarrow> u32 \<Rightarrow> nat" where
  "io_u_verify_off v hdr_num len = unat (hdr_num * len) + unat (hdr_size v)"

definition verify_sum :: "verify_type \<Rightarrow> (bytes \<Rightarrow> u32 \<Rightarrow> bytes option) \<Rightarrow> bytes \<Rightarrow> nat \<Rightarrow> u32 \<Rightarrow> int option" where
  "verify_sum v f buf p hdr_num = do {
     len \<leftarrow> rd32 buf (p + 16);
     sum \<leftarrow> f (drop (io_u_verify_off v hdr_num len) buf) (len - hdr_size v);
     vh \<leftarrow> mem_read buf (p + 56) (unat (priv_size v));
     Some (if sum = vh then 0 else EILSEQ)
   }"

text \<open>\<open>stk\<close> is the uninitialised buffer on the stack of the two sha2 checks.\<close>

definition verify_io_u_sha512 :: "bytes \<Rightarrow> bytes \<Rightarrow> nat \<Rightarrow> u32 \<Rightarrow> int option" where
  "verify_io_u_sha512 stk = verify_sum VERIFY_SHA512 (fill_sha512 (take 128 stk))"

definition verify_io_u_sha256 :: "bytes \<Rightarrow> bytes \<Rightarrow> nat \<Rightarrow> u32 \<Rightarrow> int option" where
  "verify_io_u_sha256 stk = verify_sum VERIFY_SHA256 (fill_sha256 (take 64 stk))"

definition verify_io_u_sha1 :: "bytes \<Rightarrow> nat \<Rightarrow> u32 \<Rightarrow> int option" where
  "verify_io_u_sha1 = verify_sum VERIFY_SHA1 fill_sha1"

definition verify_io_u_crc7 :: "bytes \<Rightarrow> nat \<Rightarrow> u32 \<Rightarrow> int option" where
  "verify_io_u_crc7 = verify_sum VERIFY_CRC7 fill_crc7"

definition verify_io_u_crc16 :: "bytes \<Rightarrow> nat \<Rightarrow> u32 \<Rightarrow> int option" where
  "verify_io_u_crc16 = verify_sum VERIFY_CRC16 fill_crc16"

definition verify_io_u_crc64 :: "bytes \<Rightarrow> nat \<Rightarrow> u32 \<Rightarrow> int option" where
  "verify_io_u_crc64 = verify_sum VERIFY_CRC64 fill_crc64"

definition verify_io_u_crc32 :: "bytes \<Rightarrow> nat \<Rightarrow> u32 \<Rightarrow> int option" where
  "verify_io_u_crc32 = verify_sum VERIFY_CRC32 fill_crc32"

definition verify_io_u_crc32c :: "vtd \<Rightarrow> verify_type \<Rightarrow> bytes \<Rightarrow> nat \<Rightarrow> u32 \<Rightarrow> int option" where
  "verify_io_u_crc32c td v = verify_sum v (fill_crc32c td)"

definition verify_io_u_md5 :: "bytes \<Rightarrow> nat \<Rightarrow> u32 \<Rightarrow> int option" where
  "verify_io_u_md5 = verify_sum VERIFY_MD5 fill_md5"

definition verify_one :: "vtd \<Rightarrow> vio \<Rightarrow> bytes \<Rightarrow> bytes \<Rightarrow> nat \<Rightarrow> u32 \<Rightarrow> int option" where
  "verify_one td io_u stk buf p hdr_num = do {
     code \<leftarrow> rd16 buf (p + 2);
     (case verify_type_of code of
        Some VERIFY_MD5 \<Rightarrow> verify_io_u_md5 buf p hdr_num
      | Some VERIFY_CRC64 \<Rightarrow> verify_io_u_crc64 buf p hdr_num
      | Some VERIFY_CRC32C \<Rightarrow> verify_io_u_crc32c td VERIFY_CRC32C buf p hdr_num
      | Some VERIFY_CRC32C_INTEL \<Rightarrow> verify_io_u_crc32c td VERIFY_CRC32C_INTEL buf p hdr_num
      | Some VERIFY_CRC32 \<Rightarrow> verify_io_u_crc32 buf p hdr_num
      | Some VERIFY_CRC16 \<Rightarrow> verify_io_u_crc16 buf p hdr_num
      | Some VERIFY_CRC7 \<Rightarrow> verify_io_u_crc7 buf p hdr_num
      | Some VERIFY_SHA256 \<Rightarrow> verify_io_u_sha256 stk buf p hdr_num
      | Some VERIFY_SHA512 \<Rightarrow> verify_io_u_sha512 stk buf p hdr_num
      | Some VERIFY_SHA1 \<Rightarrow> verify_io_u_sha1 buf p hdr_num
      | Some VERIFY_META \<Rightarrow> verify_io_u_meta td io_u buf p hdr_num
      | Some VERIFY_PATTERN \<Rightarrow> verify_io_u_pattern td io_u buf p
      | _ \<Rightarrow> Some EINVAL)
   }"

lemmas verify_io_u_defs = verify_io_u_sha512_def verify_io_u_sha256_def verify_io_u_sha1_def verify_io_u_crc7_def
  verify_io_u_crc16_def verify_io_u_crc64_def verify_io_u_crc32_def verify_io_u_crc32c_def verify_io_u_md5_def

text \<open>One turn of the loop: \<open>Inl\<close> is an early return of \<open>EILSEQ\<close>.\<close>

definition verify_turn :: "vtd \<Rightarrow> vio \<Rightarrow> bytes \<Rightarrow> bytes \<Rightarrow> u32 \<Rightarrow> nat \<Rightarrow> u32 \<Rightarrow> (int + int \<times> bytes) option" where
  "verify_turn td io_u stk buf hdr_inc p hdr_num = do {
     buf \<leftarrow> (if o_verify_offset td \<noteq> 0
        then memswp buf p (p + unat (o_verify_offset td)) (unat (hdr_size (o_verify td))) else Some buf);
     good \<leftarrow> verify_header td io_u buf p;
     if \<not> good then Some (Inl EILSEQ)
     else do {
       off \<leftarrow> rd64 buf (p + 8);
       if off \<noteq> i_offset io_u + ucast (hdr_num * hdr_inc) then Some (Inl EILSEQ)
       else do {
         match \<leftarrow> (if o_verify_inner td
            then map_option (\<lambda>uv. t_is_match td uv (i_unique_version io_u)) (mem_read buf (p + 40) 16) else Some True);
         if \<not> match then Some (Inl EILSEQ)
         else do {
           ret \<leftarrow> verify_one td io_u stk buf p hdr_num;
           Some (Inr (ret, buf))
         }
       }
     }
   }"

partial_function (option) verify_loop ::
    "vtd \<Rightarrow> vio \<Rightarrow> bytes \<Rightarrow> u32 \<Rightarrow> bytes \<Rightarrow> nat \<Rightarrow> u32 \<Rightarrow> int \<Rightarrow> (int + int \<times> bytes) option" where
  "verify_loop td io_u stk hdr_inc buf p hdr_num ret =
     (if p < unat (i_buflen io_u) then
        (if ret \<noteq> 0 \<and> o_verify_fatal td then Some (Inr (ret, buf))
         else do {
           r \<leftarrow> verify_turn td io_u stk buf hdr_inc p hdr_num;
           (case r of
              Inl e \<Rightarrow> Some (Inl e)
            | Inr (ret', buf') \<Rightarrow> verify_loop td io_u stk hdr_inc buf' (p + unat hdr_inc) (hdr_num + 1) ret')
         })
      else Some (Inr (ret, buf)))"

function trim_scan :: "bytes \<Rightarrow> nat \<Rightarrow> nat \<Rightarrow> int option" where
  "trim_scan buf p len = do {
     let this_len = (if 1024 > len then len else 1024);
     d \<leftarrow> mem_read buf p this_len;
     if d \<noteq> replicate this_len 0 then Some EILSEQ
     else if len - this_len = 0 then Some 0
     else trim_scan buf (p + this_len) (len - this_len)
   }"
  by pat_completeness auto
termination by (relation "measure (\<lambda>(buf, p, len). len)") (auto split: if_splits)

declare trim_scan.simps [simp del]

definition verify_trimmed_io_u :: "vtd \<Rightarrow> vio \<Rightarrow> int option" where
  "verify_trimmed_io_u td io_u =
     (if \<not> o_trim_zero td then Some 0 else trim_scan (i_buf io_u) 0 (unat (ucast (i_buflen io_u) :: u32)))"

definition verify_io_u :: "vtd \<Rightarrow> vio \<Rightarrow> bytes \<Rightarrow> (int \<times> vtd) option" where
  "verify_io_u td io_u stk =
     (if o_verify td = VERIFY_NULL \<or> \<not> i_ddir_read io_u then Some (0, td)
      else do {
        r \<leftarrow> (if i_trimmed io_u then map_option (\<lambda>ret. Inr (ret, i_buf io_u)) (verify_trimmed_io_u td io_u)
              else verify_loop td io_u stk (get_hdr_inc td io_u) (i_buf io_u) 0 0 0);
        (case r of
           Inl e \<Rightarrow> Some (e, td)
         | Inr (ret, _) \<Rightarrow> Some (ret, if ret \<noteq> 0 \<and> o_verify_fatal td then td\<lparr>t_terminate := True\<rparr> else td))
      })"

section \<open>Checksums as functions of the data\<close>

definition sum_type :: "verify_type \<Rightarrow> bool" where
  "sum_type v \<longleftrightarrow> v \<notin> {VERIFY_NONE, VERIFY_META, VERIFY_PATTERN, VERIFY_NULL}"

definition cpu_ok :: "vtd \<Rightarrow> bool" where
  "cpu_ok td \<longleftrightarrow> crc32_instruction (t_hwb td) (t_hwq td)"

text \<open>The sha2 checks are only reproducible when the data fills the block buffer.\<close>

fun min_data :: "verify_type \<Rightarrow> nat" where
  "min_data VERIFY_SHA256 = 64"
| "min_data VERIFY_SHA512 = 128"
| "min_data _ = 0"

definition sum_of :: "verify_type \<Rightarrow> bytes \<Rightarrow> bytes" where
  "sum_of v d = (case v of
     VERIFY_MD5 \<Rightarrow> concat (map (le_enc 4) (fst (hash_blocks 64 md5_transform
       [0x67452301, 0xefcdab89, 0x98badcfe, 0x10325476] d)))
   | VERIFY_SHA1 \<Rightarrow> concat (map (le_enc 4) (fst (hash_blocks 64 blk_SHA1Block
       [0x67452301, 0xefcdab89, 0x98badcfe, 0x10325476, 0xc3d2e1f0] d)))
   | VERIFY_SHA256 \<Rightarrow> tail_and_first 64 d
   | VERIFY_SHA512 \<Rightarrow> tail_and_first 128 d
   | VERIFY_CRC64 \<Rightarrow> le_enc 8 (crc_fold (refl_adv 0x95AC9329AC4BC9B5) refl_in 0 d :: u64)
   | VERIFY_CRC32 \<Rightarrow> le_enc 4 (crc_fold (msb_adv 0x04C11DB7) msb_in 0 d :: u32)
   | VERIFY_CRC16 \<Rightarrow> le_enc 2 (crc_fold (refl_adv 0xA001) refl_in 0 d :: u16)
   | VERIFY_CRC7 \<Rightarrow> le_enc 1 (the (fio_crc7 d (of_nat (length d))))
   | _ \<Rightarrow> le_enc 4 (crc_fold (refl_adv 0x82F63B78) refl_in (NOT 0) d :: u32))"

lemma length_concat_le_enc: "length (concat (map (le_enc n) ws)) = n * length ws"
  by (induction ws) simp_all

lemma td_crc32c_eq:
  assumes "cpu_ok td" "unat len \<le> length buf" "unat len < 2 ^ 35"
  shows "td_crc32c td buf len = Some (crc_fold (refl_adv 0x82F63B78) refl_in (NOT 0) (take (unat len) buf))"
  using fio_crc32c_eq_sw[OF _ assms(2,3)] assms crc_values(3)[OF assms(2)] by (simp add: cpu_ok_def)

lemma fill_md5_eq:
  assumes "unat len \<le> length data"
  shows "fill_md5 data len = Some (sum_of VERIFY_MD5 (take (unat len) data))"
proof -
  have ok: "md_ok (fio_md5_init \<lparr>md_hash = [], md_block = replicate 64 0, md_byte_count = 0\<rparr>)"
    by (simp add: md_ok_def fio_md5_init_def)
  show ?thesis
    using fio_md5_update_ok[OF ok assms] by (auto simp: fill_md5_def sum_of_def md_abs_def absorb_def fio_md5_init_def prod_eq_iff)
qed

lemma fill_sha1_eq:
  assumes "unat len \<le> length data"
  shows "fill_sha1 data len = Some (sum_of VERIFY_SHA1 (take (unat len) data))"
proof -
  have ok: "s1_ok (fio_sha1_init \<lparr>s1_H = [], s1_W = replicate 64 0, s1_size = 0\<rparr>)"
    by (simp add: s1_ok_def fio_sha1_init_def)
  have "unat (ucast len :: u64) = unat len" using unat_lt[of len] by (simp add: unat_ucast_small)
  then show ?thesis
    using fio_sha1_update_ok[OF ok, of "ucast len" data] assms
    by (auto simp: fill_sha1_def sum_of_def s1_abs_def absorb_def fio_sha1_init_def prod_eq_iff)
qed

lemma fio_crc7_take: "unat len \<le> length data \<Longrightarrow> \<exists>c. fio_crc7 data len = Some c \<and> fio_crc7 (take (unat len) data) len = Some c"
proof -
  assume len: "unat len \<le> length data"
  obtain c where c: "fio_crc7 data len = Some c" "push_bit 1 c = crc_fold (msb_adv 0x12) msb_in 0 (take (unat len) data)" "c < 128"
    using crc7.while_fold[of 0 "unat len" data] len by (auto simp: fio_crc7_def)
  obtain d where d: "fio_crc7 (take (unat len) data) len = Some d"
    "push_bit 1 d = crc_fold (msb_adv 0x12) msb_in 0 (take (unat len) data)" "d < 128"
    using crc7.while_fold[of 0 "unat len" "take (unat len) data"] len by (auto simp: fio_crc7_def)
  have "drop_bit 1 (push_bit 1 e) = e" if "e < 128" for e :: u8
    using that drop_push_top[of e] by (simp only: lt_128_iff) simp
  with c d have "c = d" by metis
  with c d show ?thesis by simp
qed

lemma checksum_eq:
  assumes "sum_type v" "cpu_ok td" "unat len \<le> length data" "min_data v \<le> unat len" "unat len + 128 < 2 ^ 32"
    and "length old = unat (priv_size v)"
  shows "checksum td v old data len = Some (sum_of v (take (unat len) data))"
proof -
  have u: "unat (ucast len :: u64) = unat len" using unat_lt[of len] by (simp add: unat_ucast_small)
  have crc7: "fio_crc7 (take (unat len) data) (of_nat (unat len)) = fio_crc7 data len"
    using fio_crc7_take[OF assms(3)] by auto
  show ?thesis
    using assms fresh_sha256_buffer[of old len data] fresh_sha512_buffer[of old len data]
      fio_crc7_take[OF assms(3)] td_crc32c_eq[OF assms(2), of "ucast len" data]
    by (cases v) (auto simp: sum_type_def fill_md5_eq fill_sha1_eq fill_sha256_def fill_sha512_def fill_crc_defs sum_of_def u crc_values crc7)
qed

lemma length_sum_of: "sum_type v \<Longrightarrow> min_data v \<le> length d \<Longrightarrow> length (sum_of v d) = unat (priv_size v)"
  by (cases v) (auto simp: sum_type_def sum_of_def length_concat_le_enc length_fst_hash_blocks tail_and_first_def)

section \<open>A populated header passes its checks\<close>

definition header_ready :: "vtd \<Rightarrow> vio \<Rightarrow> bytes \<Rightarrow> nat \<Rightarrow> u32 \<Rightarrow> u32 \<Rightarrow> bool" where
  "header_ready td io_u B p k inc \<longleftrightarrow>
     rd16 B p = Some FIO_HDR_MAGIC \<and> rd16 B (p + 2) = Some (verify_code (o_verify td)) \<and>
     rd64 B (p + 8) = Some (i_offset io_u + ucast (k * inc)) \<and> rd32 B (p + 16) = Some inc \<and>
     (\<exists>h c. mem_read B p 32 = Some h \<and> td_crc32c td h 32 = Some c \<and> rd32 B (p + 32) = Some c) \<and>
     (o_verify_inner td \<longrightarrow> mem_read B (p + 40) 16 = Some (i_unique_version io_u))"

lemma header_ready_agree:
  "agree B B' p 56 \<Longrightarrow> header_ready td io_u B p k inc \<Longrightarrow> header_ready td io_u B' p k inc"
  unfolding header_ready_def rd16_def rd32_def rd64_def by (simp add: mem_read_agree[where a = p and n = 56])

lemma rd_enc [simp]:
  "mem_read B off 2 = Some (le_enc 2 w2) \<Longrightarrow> rd16 B off = Some w2"
  "mem_read B off 4 = Some (le_enc 4 w4) \<Longrightarrow> rd32 B off = Some w4"
  "mem_read B off 8 = Some (le_enc 8 w8) \<Longrightarrow> rd64 B off = Some w8"
  by (simp_all add: rd16_def rd32_def rd64_def)

lemma put_header_ok:
  assumes len: "p + 56 \<le> length B" and cpu: "cpu_ok td" and uv: "length (i_unique_version io_u) = 16"
  shows "\<exists>B'. put_header td io_u B p k inc = Some B' \<and> frame B B' p 56 \<and>
    header_ready td io_u B' p k inc"
proof -
  obtain B1 where w1: "mem_write B p (le_enc 2 FIO_HDR_MAGIC) = Some B1" "length B1 = length B"
    using mem_write_ok[of p "le_enc 2 FIO_HDR_MAGIC" B] len by auto
  obtain B2 where w2: "mem_write B1 (p + 2) (le_enc 2 (verify_code (o_verify td))) = Some B2" "length B2 = length B"
    using mem_write_ok[of "p + 2" "le_enc 2 (verify_code (o_verify td))" B1] len w1(2) by auto
  obtain B3 where w3: "mem_write B2 (p + 8) (le_enc 8 (i_offset io_u + ucast (k * inc))) = Some B3" "length B3 = length B"
    using mem_write_ok[of "p + 8" "le_enc 8 (i_offset io_u + ucast (k * inc))" B2] len w2(2) by auto
  obtain B4 where w4: "(if o_verify_inner td then mem_write B3 (p + 40) (i_unique_version io_u) else Some B3) = Some B4"
    "length B4 = length B" "\<And>a n. p + 56 \<le> a \<or> a + n \<le> p + 40 \<Longrightarrow> agree B3 B4 a n"
    "o_verify_inner td \<Longrightarrow> mem_read B4 (p + 40) 16 = Some (i_unique_version io_u)" "frame B3 B4 p 56"
  proof (cases "o_verify_inner td")
    case True
    obtain B4 where "mem_write B3 (p + 40) (i_unique_version io_u) = Some B4" "length B4 = length B"
      using mem_write_ok[of "p + 40" "i_unique_version io_u" B3] len w3(2) uv by auto
    with True show ?thesis using uv mem_read_write_same[of B3 "p + 40" "i_unique_version io_u" B4]
      by (intro that[of B4]) (auto intro: mem_write_agree mem_write_frame)
  qed (use that[of B3] w3(2) in simp)
  obtain B5 where w5: "mem_write B4 (p + 16) (le_enc 4 inc) = Some B5" "length B5 = length B"
    using mem_write_ok[of "p + 16" "le_enc 4 inc" B4] len w4(2) by auto
  obtain B6 where w6: "mem_write B5 (p + 24) (le_enc 8 (i_rand_seed io_u)) = Some B6" "length B6 = length B"
    using mem_write_ok[of "p + 24" "le_enc 8 (i_rand_seed io_u)" B5] len w5(2) by auto
  define h where "h = take 32 (drop p B6)"
  define c where "c = crc_fold (refl_adv 0x82F63B78) refl_in (NOT 0 :: u32) h"
  have h: "mem_read B6 p 32 = Some h" "td_crc32c td h 32 = Some c"
    using len w6(2) td_crc32c_eq[OF cpu, of 32 h] by (simp_all add: h_def c_def)
  obtain B7 where w7: "mem_write B6 (p + 32) (le_enc 4 c) = Some B7" "length B7 = length B"
    using mem_write_ok[of "p + 32" "le_enc 4 c" B6] len w6(2) by auto
  have put: "put_header td io_u B p k inc = Some B7"
    unfolding put_header_def using w1(1) w2(1) w3(1) w4(1) w5(1) w6(1) h w7(1) by simp
  have r4: "mem_read B4 a n = mem_read B3 a n" if "a + n \<le> p + 40" for a n
    using mem_read_agree[OF w4(3), of a n] that by simp
  note same = mem_read_write_same[OF w1(1)] mem_read_write_same[OF w2(1)] mem_read_write_same[OF w3(1)]
    mem_read_write_same[OF w5(1)] mem_read_write_same[OF w6(1)] mem_read_write_same[OF w7(1)]
  note other = mem_read_write_other[OF w7(1)] mem_read_write_other[OF w6(1)] mem_read_write_other[OF w5(1)]
    r4 mem_read_write_other[OF w3(1)] mem_read_write_other[OF w2(1)]
  have "header_ready td io_u B7 p k inc"
    using h w4(4) same by (simp add: header_ready_def other)
  moreover have "frame B B7 p 56"
  proof -
    have "frame B B1 p 56" "frame B1 B2 p 56" "frame B2 B3 p 56" "frame B3 B4 p 56" "frame B4 B5 p 56" "frame B5 B6 p 56" "frame B6 B7 p 56"
      using w4(5) by (auto intro!: mem_write_frame[OF w1(1)] mem_write_frame[OF w2(1)] mem_write_frame[OF w3(1)]
          mem_write_frame[OF w5(1)] mem_write_frame[OF w6(1)] mem_write_frame[OF w7(1)])
    then show ?thesis by (blast intro: frame_trans)
  qed
  ultimately show ?thesis using put by force
qed

section \<open>One interval, written and read back\<close>

lemma memswp_ok:
  assumes "p1 + n \<le> p2" "p2 + n \<le> length B" "n \<le> 200"
  shows "\<exists>C. memswp B p1 p2 n = Some C \<and> memswp C p1 p2 n = Some B \<and>
    frame B C p1 (p2 + n - p1)"
proof -
  define x y where "x = take n (drop p1 B)" and "y = take n (drop p2 B)"
  have r: "mem_read B p1 n = Some x" "mem_read B p2 n = Some y" and l: "length x = n" "length y = n"
    using assms by (auto simp: x_def y_def)
  obtain B1 where w1: "mem_write B p1 y = Some B1" "length B1 = length B" using mem_write_ok[of p1 y B] assms l by auto
  obtain C where w2: "mem_write B1 p2 x = Some C" "length C = length B" using mem_write_ok[of p2 x B1] assms l w1 by auto
  have rc: "mem_read C p1 n = Some y" "mem_read C p2 n = Some x"
    using mem_read_write_same[OF w2(1)] mem_read_write_same[OF w1(1)] mem_read_write_other[OF w2(1), of p1 n] assms l by auto
  obtain C1 where w3: "mem_write C p1 x = Some C1" "length C1 = length B" using mem_write_ok[of p1 x C] assms l w2 by auto
  obtain D where w4: "mem_write C1 p2 y = Some D" "length D = length B" using mem_write_ok[of p2 y C1] assms l w3 by auto
  have "D = B"
  proof (rule nth_equalityI)
    fix i assume "i < length D"
    then show "D ! i = B ! i"
      using assms l mem_write_nth[OF w1(1), of i] mem_write_nth[OF w2(1), of i] mem_write_nth[OF w3(1), of i] mem_write_nth[OF w4(1), of i]
      by (auto simp: w1 w2 w3 w4 x_def y_def)
  qed (simp add: w4)
  moreover have "frame B C p1 (p2 + n - p1)"
    by (rule frame_trans[OF mem_write_frame[OF w1(1)] mem_write_frame[OF w2(1)]]) (use assms l in simp_all)
  moreover have "memswp B p1 p2 n = Some C" "memswp C p1 p2 n = Some D"
    using assms r rc w1(1) w2(1) w3(1) w4(1) by (simp_all add: memswp_def)
  ultimately show ?thesis by blast
qed

lemma memswp_agree:
  assumes "memswp B p1 p2 n = Some C" "agree B B' a m" "a \<le> p1" "p1 + n \<le> a + m" "a \<le> p2" "p2 + n \<le> a + m"
  shows "\<exists>C'. memswp B' p1 p2 n = Some C' \<and> agree C C' a m"
proof -
  obtain x y B1 where g: "\<not> (200 < n \<or> (p1 < p2 + n \<and> p2 < p1 + n))" "mem_read B p1 n = Some x" "mem_read B p2 n = Some y"
    "mem_write B p1 y = Some B1" "mem_write B1 p2 x = Some C"
    using assms(1) by (auto simp: memswp_def split: if_splits bind_splits)
  have len: "length B' = length B" using assms(2) by (simp add: agree_def)
  have r: "mem_read B' p1 n = Some x" "mem_read B' p2 n = Some y"
    using mem_read_agree[OF assms(2)] g assms by simp_all
  obtain B1' where w1: "mem_write B' p1 y = Some B1'" using g(4) len by (auto simp: mem_write_def split: if_splits)
  have l1: "length B1' = length B1" using mem_write_length[OF w1] mem_write_length[OF g(4)] len by simp
  obtain C' where w2: "mem_write B1' p2 x = Some C'" using g(5) l1 by (auto simp: mem_write_def split: if_splits)
  have l2: "length C' = length C" using mem_write_length[OF w2] mem_write_length[OF g(5)] l1 by simp
  have "agree C C' a m"
    using assms(2) l1 l2 mem_write_length[OF g(4)] mem_write_length[OF g(5)]
      mem_write_nth[OF w1] mem_write_nth[OF w2] mem_write_nth[OF g(4)] mem_write_nth[OF g(5)]
    by (auto simp: agree_def)
  with g r w1 w2 show ?thesis by (auto simp: memswp_def)
qed

text \<open>The geometry under which an interval can hold its header: the header fits, a displaced
  header does not overlap its place, and the data area is large enough for the checksum.\<close>

definition layout_ok :: "vtd \<Rightarrow> u32 \<Rightarrow> bool" where
  "layout_ok td inc \<longleftrightarrow>
     (let hs = unat (hdr_size (o_verify td)); vo = unat (o_verify_offset td) in
      sum_type (o_verify td) \<and> hs + min_data (o_verify td) \<le> unat inc \<and> unat inc + 128 < 2 ^ 32 \<and>
      (vo = 0 \<or> hs \<le> vo \<and> vo + hs \<le> unat inc))"

definition interval_ready :: "vtd \<Rightarrow> vio \<Rightarrow> bytes \<Rightarrow> nat \<Rightarrow> u32 \<Rightarrow> u32 \<Rightarrow> bool" where
  "interval_ready td io_u B p k inc \<longleftrightarrow>
     header_ready td io_u B p k inc \<and>
     mem_read B (p + 56) (unat (priv_size (o_verify td))) =
       map_option (sum_of (o_verify td)) (mem_read B (p + unat (hdr_size (o_verify td))) (unat inc - unat (hdr_size (o_verify td))))"

definition interval_stored :: "vtd \<Rightarrow> vio \<Rightarrow> bytes \<Rightarrow> nat \<Rightarrow> u32 \<Rightarrow> u32 \<Rightarrow> bool" where
  "interval_stored td io_u B p k inc \<longleftrightarrow>
     (if o_verify_offset td \<noteq> 0
      then \<exists>C. memswp B p (p + unat (o_verify_offset td)) (unat (hdr_size (o_verify td))) = Some C \<and> interval_ready td io_u C p k inc
      else interval_ready td io_u B p k inc)"

lemma hdr_size_unat: "unat (hdr_size v) = unat (priv_size v) + 56" and hdr_size_le: "unat (hdr_size v) \<le> 184"
  by (cases v; simp add: hdr_size_def)+

lemma interval_ready_agree:
  assumes "agree B B' p (unat inc)" "layout_ok td inc" "interval_ready td io_u B p k inc"
  shows "interval_ready td io_u B' p k inc"
proof -
  have "agree B B' p 56" using assms(1,2) by (auto simp: layout_ok_def Let_def hdr_size_unat intro: agree_sub)
  moreover have "mem_read B' off m = mem_read B off m" if "p \<le> off" "off + m \<le> p + unat inc" for off m
    using mem_read_agree[OF assms(1) that] .
  ultimately show ?thesis
    using assms(2,3) header_ready_agree[of B B' p] by (simp add: interval_ready_def layout_ok_def Let_def hdr_size_unat)
qed

lemma interval_stored_agree:
  assumes "agree B B' p (unat inc)" "layout_ok td inc" "interval_stored td io_u B p k inc"
  shows "interval_stored td io_u B' p k inc"
proof (cases "o_verify_offset td = 0")
  case False
  then have "unat (o_verify_offset td) \<noteq> 0" by (simp add: unat_eq_0)
  with False assms show ?thesis
    using memswp_agree[OF _ assms(1), of p "p + unat (o_verify_offset td)" "unat (hdr_size (o_verify td))"]
    by (fastforce simp: interval_stored_def layout_ok_def Let_def intro: interval_ready_agree[OF _ assms(2)])
qed (use assms interval_ready_agree in \<open>auto simp: interval_stored_def\<close>)

lemma populate_sum:
  assumes "layout_ok td inc"
  shows "populate_hdr td io_u buf p k inc = do {
     buf \<leftarrow> put_header td io_u buf p k inc;
     old \<leftarrow> mem_read buf (p + 56) (unat (priv_size (o_verify td)));
     sum \<leftarrow> checksum td (o_verify td) old (drop (p + unat (hdr_size (o_verify td))) buf) (inc - hdr_size (o_verify td));
     buf \<leftarrow> mem_write buf (p + 56) sum;
     if o_verify_offset td \<noteq> 0 then memswp buf p (p + unat (o_verify_offset td)) (unat (hdr_size (o_verify td))) else Some buf
   }"
  using assms unfolding populate_hdr_def layout_ok_def Let_def sum_type_def
  by (cases "o_verify td") auto

lemma populate_hdr_ok:
  assumes lay: "layout_ok td inc" and len: "p + unat inc \<le> length B" and cpu: "cpu_ok td"
    and uv: "length (i_unique_version io_u) = 16"
  shows "\<exists>B'. populate_hdr td io_u B p k inc = Some B' \<and> frame B B' p (unat inc) \<and> interval_stored td io_u B' p k inc"
proof -
  let ?v = "o_verify td" let ?hs = "unat (hdr_size ?v)"
  have fits: "?hs + min_data ?v \<le> unat inc" and sum: "sum_type ?v" and small: "unat inc + 128 < 2 ^ 32"
    using lay by (auto simp: layout_ok_def Let_def)
  have dl: "unat (inc - hdr_size ?v) = unat inc - ?hs" using fits by (simp add: unat_sub word_le_nat_alt)
  obtain B1 where put: "put_header td io_u B p k inc = Some B1" and b1: "frame B B1 p 56" "header_ready td io_u B1 p k inc"
    using put_header_ok[OF _ cpu uv, of p B k inc] fits len by (auto simp: hdr_size_unat)
  have l1: "length B1 = length B" using b1 by (simp add: frame_def)
  define d where "d = take (unat inc - ?hs) (drop (p + ?hs) B1)"
  have sumlen: "length (sum_of ?v d) = unat (priv_size ?v)"
    using length_sum_of[OF sum, of d] fits len l1 by (simp add: d_def)
  have chk: "checksum td ?v (take (unat (priv_size ?v)) (drop (p + 56) B1)) (drop (p + ?hs) B1) (inc - hdr_size ?v) = Some (sum_of ?v d)"
    using checksum_eq[OF sum cpu] fits len l1 dl small by (simp add: d_def hdr_size_unat)
  obtain B2 where w2: "mem_write B1 (p + 56) (sum_of ?v d) = Some B2" "length B2 = length B"
    using mem_write_ok[of "p + 56" "sum_of ?v d" B1] sumlen fits len l1 by (auto simp: hdr_size_unat)
  have ready: "interval_ready td io_u B2 p k inc"
    using header_ready_agree[OF mem_write_agree[OF w2(1)], of p td io_u k inc] b1(2) mem_read_write_same[OF w2(1)]
      mem_read_write_other[OF w2(1), of "p + ?hs" "unat inc - ?hs"] sumlen fits len l1
    by (simp add: interval_ready_def hdr_size_unat d_def)
  have fr: "frame B B2 p (unat inc)"
    using frame_mono[OF b1(1), of p "unat inc"] mem_write_frame[OF w2(1), of p "unat inc"] sumlen fits
    by (auto simp: hdr_size_unat intro: frame_trans)
  have pop: "populate_hdr td io_u B p k inc =
      (if o_verify_offset td \<noteq> 0 then memswp B2 p (p + unat (o_verify_offset td)) ?hs else Some B2)"
    unfolding populate_sum[OF lay] using put chk w2 fits len l1 by (simp add: hdr_size_unat)
  show ?thesis
  proof (cases "o_verify_offset td = 0")
    case False
    then have vo: "unat (o_verify_offset td) \<noteq> 0" by (simp add: unat_eq_0)
    then have geo: "?hs \<le> unat (o_verify_offset td)" "unat (o_verify_offset td) + ?hs \<le> unat inc"
      using lay by (auto simp: layout_ok_def Let_def)
    obtain C where C: "memswp B2 p (p + unat (o_verify_offset td)) ?hs = Some C"
      "memswp C p (p + unat (o_verify_offset td)) ?hs = Some B2" "frame B2 C p (p + unat (o_verify_offset td) + ?hs - p)"
      using memswp_ok[of p ?hs "p + unat (o_verify_offset td)" B2] hdr_size_le[of ?v] len w2(2) geo by auto
    have "frame B C p (unat inc)" using fr frame_mono[OF C(3), of p "unat inc"] geo by (simp add: frame_trans)
    with False C pop ready show ?thesis by (auto simp: interval_stored_def)
  qed (use pop ready fr in \<open>simp add: interval_stored_def\<close>)
qed

lemma verify_type_of_code [simp]: "verify_type_of (verify_code v) = Some v"
  by (cases v) (simp_all add: verify_type_of_def verify_types_def)

lemma verify_one_sum:
  "rd16 buf (p + 2) = Some (verify_code v) \<Longrightarrow> sum_type v \<Longrightarrow> verify_one td io_u stk buf p k = verify_sum v (checksum td v (take (unat (priv_size v)) stk)) buf p k"
  by (simp add: verify_one_def) (cases v; simp add: sum_type_def verify_io_u_defs verify_sum_def)

abbreviation type_check :: "vtd \<Rightarrow> bytes \<Rightarrow> bytes \<Rightarrow> nat \<Rightarrow> u32 \<Rightarrow> int option" where
  "type_check td stk \<equiv> verify_sum (o_verify td) (checksum td (o_verify td) (take (unat (priv_size (o_verify td))) stk))"

lemma verify_sum_value:
  assumes lay: "layout_ok td inc" and ready: "header_ready td io_u C p k inc" and p: "p = unat (k * inc)"
    and len: "p + unat inc \<le> length C" and cpu: "cpu_ok td" and stk: "128 \<le> length stk"
    and s: "mem_read C (p + 56) (unat (priv_size (o_verify td))) = Some s"
  shows "type_check td stk C p k = Some (if sum_of (o_verify td)
      (take (unat inc - unat (hdr_size (o_verify td))) (drop (p + unat (hdr_size (o_verify td))) C)) = s then 0 else EILSEQ)"
proof -
  let ?v = "o_verify td" let ?hs = "unat (hdr_size ?v)"
  have fits: "?hs + min_data ?v \<le> unat inc" and sum: "sum_type ?v" and small: "unat inc + 128 < 2 ^ 32"
    using lay by (auto simp: layout_ok_def Let_def)
  have dl: "unat (inc - hdr_size ?v) = unat inc - ?hs" using fits by (simp add: unat_sub word_le_nat_alt)
  have "length (take (unat (priv_size ?v)) stk) = unat (priv_size ?v)" using stk by (cases ?v) simp_all
  then have "checksum td ?v (take (unat (priv_size ?v)) stk) (drop (p + ?hs) C) (inc - hdr_size ?v) =
      Some (sum_of ?v (take (unat inc - ?hs) (drop (p + ?hs) C)))"
    using checksum_eq[OF sum cpu, of "inc - hdr_size ?v" "drop (p + ?hs) C" "take (unat (priv_size ?v)) stk"] fits small len dl by simp
  with ready s show ?thesis unfolding verify_sum_def io_u_verify_off_def p by (simp add: header_ready_def p)
qed

lemma verify_sum_ok:
  assumes "layout_ok td inc" "interval_ready td io_u C p k inc" "p = unat (k * inc)"
    and "p + unat inc \<le> length C" "cpu_ok td" "128 \<le> length stk"
  shows "type_check td stk C p k = Some 0"
  using assms verify_sum_value[of td inc io_u C p k stk]
  by (fastforce simp: interval_ready_def layout_ok_def Let_def)

lemma verify_turn_ok:
  assumes lay: "layout_ok td inc" and stored: "interval_stored td io_u B p k inc" and p: "p = unat (k * inc)"
    and len: "p + unat inc \<le> length B" and cpu: "cpu_ok td" and stk: "128 \<le> length stk"
    and blen: "unat inc \<le> unat (i_buflen io_u)" and match: "t_is_match td (i_unique_version io_u) (i_unique_version io_u)"
  shows "\<exists>C. verify_turn td io_u stk B inc p k = Some (Inr (0, C)) \<and> frame B C p (unat inc)"
proof -
  let ?v = "o_verify td" let ?hs = "unat (hdr_size ?v)"
  obtain C where C: "(if o_verify_offset td \<noteq> 0 then memswp B p (p + unat (o_verify_offset td)) ?hs else Some B) = Some C"
    "interval_ready td io_u C p k inc"
    using stored by (auto simp: interval_stored_def split: if_splits)
  have fr: "frame B C p (unat inc)"
  proof (cases "o_verify_offset td = 0")
    case False
    then have "unat (o_verify_offset td) \<noteq> 0" by (simp add: unat_eq_0)
    then have geo: "?hs \<le> unat (o_verify_offset td)" "unat (o_verify_offset td) + ?hs \<le> unat inc"
      using lay by (auto simp: layout_ok_def Let_def)
    have "frame B C p (p + unat (o_verify_offset td) + ?hs - p)"
      using memswp_ok[of p ?hs "p + unat (o_verify_offset td)" B] hdr_size_le[of ?v] geo len C(1) False by auto
    then show ?thesis using geo frame_mono[of B C p _ p "unat inc"] by simp
  qed (use C in simp)
  then have lenC: "p + unat inc \<le> length C" using len by (simp add: frame_def)
  have u: "unat (ucast inc :: u64) = unat inc" using unat_lt[of inc] by (simp add: unat_ucast_small)
  have hdr: "verify_header td io_u C p = Some True"
    using C(2) blen u by (auto simp: verify_header_def interval_ready_def header_ready_def word_less_nat_alt)
  have one: "verify_one td io_u stk C p k = Some 0"
    using verify_one_sum[of C p ?v] verify_sum_ok[OF lay C(2) p lenC cpu stk] C(2) lay
    by (simp add: interval_ready_def header_ready_def layout_ok_def Let_def)
  have "verify_turn td io_u stk B inc p k = Some (Inr (0, C))"
    using C hdr one match unfolding verify_turn_def by (simp add: interval_ready_def header_ready_def)
  with fr show ?thesis by blast
qed

section \<open>Whole buffers\<close>

lemma populate_headers_ok:
  assumes lay: "layout_ok td inc" and inc: "unat inc = n" "0 < n" and cpu: "cpu_ok td" and uv: "length (i_unique_version io_u) = 16"
    and blen: "unat (i_buflen io_u) = N * n" "N * n \<le> length B" "N * n < 2 ^ 32" and j: "j \<le> N"
  shows "\<exists>B'. populate_headers td io_u inc B (j * n) (of_nat j) = Some B' \<and> agree B B' 0 (j * n) \<and>
    (\<forall>i. j \<le> i \<and> i < N \<longrightarrow> interval_stored td io_u B' (i * n) (of_nat i) inc)"
  using blen(2) j
proof (induction "N - j" arbitrary: j B)
  case 0
  then show ?case using blen(1) by (subst populate_headers.simps) auto
next
  case (Suc m)
  then have j: "j < N" and m: "m = N - Suc j" by simp_all
  then have le: "Suc j * n \<le> N * n" by (meson Suc_leI mult_le_mono1)
  obtain B1 where B1: "populate_hdr td io_u B (j * n) (of_nat j) inc = Some B1" "frame B B1 (j * n) n"
    "interval_stored td io_u B1 (j * n) (of_nat j) inc"
    using populate_hdr_ok[OF lay _ cpu uv, of "j * n" B "of_nat j"] le inc Suc.prems(1) by auto
  obtain B' where B': "populate_headers td io_u inc B1 (Suc j * n) (of_nat (Suc j)) = Some B'" "agree B1 B' 0 (Suc j * n)"
    "\<forall>i. Suc j \<le> i \<and> i < N \<longrightarrow> interval_stored td io_u B' (i * n) (of_nat i) inc"
    using Suc.hyps(1)[OF m, of B1] Suc.prems(1) B1(2) j by (auto simp: frame_def)
  have run: "populate_headers td io_u inc B (j * n) (of_nat j) = Some B'"
    using B1(1) B'(1) blen(1) le inc j by (subst populate_headers.simps) (simp add: add.commute)
  have "agree B B' 0 (j * n)"
    using frame_agree[OF B1(2), of 0 "j * n"] agree_sub[OF B'(2), of 0 "j * n"] by (auto intro: agree_trans)
  moreover have "interval_stored td io_u B' (j * n) (of_nat j) inc"
    using interval_stored_agree[OF _ lay B1(3)] agree_sub[OF B'(2), of "j * n" n] inc by (simp add: add.commute)
  ultimately show ?case using run B'(3) by (metis Suc_leI le_neq_implies_less)
qed

lemma index_pos:
  assumes "unat (inc :: u32) = n" "j * n < 2 ^ 32"
  shows "j * n = unat (of_nat j * inc)"
proof -
  have "of_nat j * inc = of_nat (j * n)" using assms(1) by auto
  then show ?thesis using assms(2) by (simp only: unat_of_nat) (simp add: take_bit_nat_eq_self)
qed

lemma verify_loop_prefix:
  assumes lay: "layout_ok td inc" and inc: "unat inc = n" "0 < n" and cpu: "cpu_ok td" and stk: "128 \<le> length stk"
    and match: "t_is_match td (i_unique_version io_u) (i_unique_version io_u)"
    and blen: "unat (i_buflen io_u) = N * n" "N * n \<le> length B" "N * n < 2 ^ 32" and j: "j \<le> N"
    and st: "\<And>i. i < j \<Longrightarrow> interval_stored td io_u B (i * n) (of_nat i) inc"
  shows "\<exists>C. verify_loop td io_u stk inc B 0 0 0 = verify_loop td io_u stk inc C (j * n) (of_nat j) 0 \<and>
    agree B C (j * n) (length B)"
  using j st
proof (induction j)
  case (Suc j)
  then obtain C where C: "verify_loop td io_u stk inc B 0 0 0 = verify_loop td io_u stk inc C (j * n) (of_nat j) 0"
    "agree B C (j * n) (length B)" by auto
  have le: "Suc j * n \<le> N * n" using Suc.prems(1) by (meson mult_le_mono1)
  have pos: "j * n = unat (of_nat j * inc)" using le blen(3) by (intro index_pos[OF inc(1)]) simp
  have len: "length C = length B" using C(2) by (simp add: agree_def)
  have N: "Suc 0 \<le> N" using Suc.prems(1) by simp
  then have "interval_stored td io_u C (j * n) (of_nat j) inc"
    using interval_stored_agree[OF agree_sub[OF C(2)] lay Suc.prems(2)[of j]] le inc blen(2) by simp
  then obtain D where D: "verify_turn td io_u stk C inc (j * n) (of_nat j) = Some (Inr (0, D))" "frame C D (j * n) n"
    using verify_turn_ok[OF lay _ pos _ cpu stk _ match, of C] le inc blen len N by auto
  have "verify_loop td io_u stk inc C (j * n) (of_nat j) 0 = verify_loop td io_u stk inc D (Suc j * n) (of_nat (Suc j)) 0"
    using D(1) blen(1) Suc.prems(1) inc by (subst verify_loop.simps) (simp add: add.commute)
  moreover have "agree B D (Suc j * n) (length B)"
    using C(2) frame_agree[OF D(2), of "Suc j * n" "length B"] by (auto simp: agree_def)
  ultimately show ?case using C(1) by auto
qed auto

text \<open>A job that is set up for verification by checksums with \<open>N\<close> intervals per buffer.\<close>

definition verify_setup :: "vtd \<Rightarrow> vio \<Rightarrow> nat \<Rightarrow> bool" where
  "verify_setup td io_u N \<longleftrightarrow>
     layout_ok td (get_hdr_inc td io_u) \<and> cpu_ok td \<and> length (i_unique_version io_u) = 16 \<and>
     t_is_match td (i_unique_version io_u) (i_unique_version io_u) \<and>
     unat (i_buflen io_u) = N * unat (get_hdr_inc td io_u) \<and> unat (i_buflen io_u) < 2 ^ 32 \<and>
     unat (i_buflen io_u) \<le> length (i_buf io_u) \<and> unat (o_verify_pattern_bytes td) \<le> length (o_verify_pattern td) \<and>
     (o_verify_pattern_bytes td = 0 \<longrightarrow> 8 dvd unat (i_buflen io_u))"

lemma pattern_copy_ok:
  assumes "len \<le> length b" "n \<le> length pat" "0 < n" "i mod n = 0"
  shows "\<exists>b'. pattern_copy b len pat n i = Some b' \<and> length b' = length b \<and>
    (\<forall>j < length b. b' ! j = (if i \<le> j \<and> j < len then pat ! (j mod n) else b ! j))"
  using assms
proof (induction "len - i" arbitrary: i b rule: less_induct)
  case less
  show ?case
  proof (cases "i < len")
    case True
    define sz where "sz = (if n > len - i then len - i else n)"
    have sz: "sz \<le> n" "i + sz \<le> len" "0 < sz" using True less.prems by (auto simp: sz_def)
    obtain b1 where b1: "mem_write b i (take sz pat) = Some b1" "length b1 = length b"
      using mem_write_ok[of i "take sz pat" b] sz less.prems by auto
    have step: "pattern_copy b len pat n i = pattern_copy b1 len pat n (i + sz)"
      using True less.prems b1 sz by (subst pattern_copy.simps) (simp add: sz_def[symmetric] Let_def)
    have nth: "b1 ! j = (if i \<le> j \<and> j < i + sz then pat ! (j mod n) else b ! j)" if "j < length b" for j
    proof -
      have "(i + (j - i)) mod n = (j - i) mod n" using less.prems(4) by (simp add: mod_add_left_eq[symmetric])
      then have "i \<le> j \<Longrightarrow> j < i + sz \<Longrightarrow> j mod n = j - i" using sz by simp
      then show ?thesis using mem_write_nth[OF b1(1) that] sz less.prems by auto
    qed
    show ?thesis
    proof (cases "i + sz < len")
      case True
      then have "sz = n" by (auto simp: sz_def split: if_splits)
      have lt: "len - (i + sz) < len - i" using True sz by simp
      obtain b' where "pattern_copy b1 len pat n (i + sz) = Some b'" "length b' = length b1"
        "\<forall>j < length b1. b' ! j = (if i + sz \<le> j \<and> j < len then pat ! (j mod n) else b1 ! j)"
        using less.hyps[of "i + sz" b1, OF lt] less.prems b1(2) \<open>sz = n\<close> by auto
      with step b1 nth sz show ?thesis by auto
    next
      case False
      then have "pattern_copy b1 len pat n (i + sz) = Some b1" by (subst pattern_copy.simps) simp
      with step b1 nth sz False show ?thesis by auto
    qed
  qed (use less.prems in \<open>subst pattern_copy.simps, auto\<close>)
qed

lemma stored_fields [simp]:
  "interval_stored td (io_u\<lparr>i_buf := b\<rparr>) = interval_stored td io_u"
  "get_hdr_inc td (io_u\<lparr>i_buf := b\<rparr>) = get_hdr_inc td io_u"
  "interval_stored td (io_u\<lparr>i_ddir_read := r, i_trimmed := t\<rparr>) = interval_stored td io_u"
  "get_hdr_inc td (io_u\<lparr>i_ddir_read := r, i_trimmed := t\<rparr>) = get_hdr_inc td io_u"
  by (simp_all add: interval_stored_def interval_ready_def header_ready_def get_hdr_inc_def fun_eq_iff)

lemma fill_pattern_ok:
  assumes "verify_setup td io_u N" "len = ucast (i_buflen io_u)"
  shows "\<exists>td' io'. fill_pattern td io_u len 0 False = Some (td', io') \<and> verify_setup td' io' N \<and>
    o_verify td' = o_verify td \<and> o_verify_fatal td' = o_verify_fatal td \<and> o_verify_offset td' = o_verify_offset td \<and> get_hdr_inc td' io' = get_hdr_inc td io_u"
proof -
  have len: "unat len = unat (i_buflen io_u)" "unat len \<le> length (i_buf io_u)"
    using assms by (auto simp: verify_setup_def unat_ucast_small unsigned_ucast_eq take_bit_nat_eq_self)
  have pat: "unat (o_verify_pattern_bytes td) \<le> length (o_verify_pattern td)" using assms(1) by (simp add: verify_setup_def)
  have keep: "verify_setup (td\<lparr>t_buf_state := s\<rparr>) (io_u\<lparr>i_buf := b, i_rand_seed := r\<rparr>) N"
      "verify_setup td (io_u\<lparr>i_buf := b, i_buf_filled_len := l\<rparr>) N" if "length b = length (i_buf io_u)" for s b r l
  proof -
    have "get_hdr_inc (td\<lparr>t_buf_state := s\<rparr>) (io_u\<lparr>i_buf := b, i_rand_seed := r\<rparr>) = get_hdr_inc td io_u"
      "get_hdr_inc td (io_u\<lparr>i_buf := b, i_buf_filled_len := l\<rparr>) = get_hdr_inc td io_u" by (simp_all add: get_hdr_inc_def)
    then show "verify_setup (td\<lparr>t_buf_state := s\<rparr>) (io_u\<lparr>i_buf := b, i_rand_seed := r\<rparr>) N"
      "verify_setup td (io_u\<lparr>i_buf := b, i_buf_filled_len := l\<rparr>) N"
      using assms(1) that by (auto simp: verify_setup_def layout_ok_def cpu_ok_def)
  qed
  consider "o_verify_pattern_bytes td = 0" | "o_verify_pattern_bytes td \<noteq> 0" "ucast len \<le> i_buf_filled_len io_u"
    | "o_verify_pattern_bytes td = 1" "\<not> ucast len \<le> i_buf_filled_len io_u"
    | "o_verify_pattern_bytes td \<noteq> 0" "o_verify_pattern_bytes td \<noteq> 1" "\<not> ucast len \<le> i_buf_filled_len io_u" by blast
  then show ?thesis
  proof cases
    case 1
    then have "8 dvd unat len" using assms len by (auto simp: verify_setup_def)
    then obtain q where q: "unat len = 8 * q" by (rule dvdE)
    obtain r s where r: "rand_long (t_buf_state td) = (r, s)" by fastforce
    have "c_fill_random_buf (i_buf io_u) 0 (unat len) r = Some (random_bytes r q @ drop (8 * q) (i_buf io_u))"
    proof -
      have "(unat len + 7) div 8 = q" "8 * q \<le> length (i_buf io_u)" using q len(2) by linarith+
      then show ?thesis using c_fill_random_buf_eq[of "unat len" 0 "unat len" "i_buf io_u" r] by simp
    qed
    with 1 r keep(1)[of "random_bytes r q @ drop (8 * q) (i_buf io_u)" s r] q len show ?thesis
      by (simp add: fill_pattern_def fill_random_buf_def get_hdr_inc_def)
  next
    case 2
    then show ?thesis using assms(1) by (simp add: fill_pattern_def)
  next
    case 3
    then have "0 < length (o_verify_pattern td)" using pat by (cases "o_verify_pattern td") auto
    moreover obtain b where b: "mem_write (i_buf io_u) 0 (replicate (unat len) (o_verify_pattern td ! 0)) = Some b"
      "length b = length (i_buf io_u)"
      using mem_write_ok[of 0 "replicate (unat len) (o_verify_pattern td ! 0)" "i_buf io_u"] len by auto
    ultimately show ?thesis using 3 keep(2)[OF b(2)] by (simp add: fill_pattern_def arr_get_def get_hdr_inc_def)
  next
    case 4
    then have "0 < unat (o_verify_pattern_bytes td)" by (simp add: unat_gt_0)
    then obtain b where "pattern_copy (i_buf io_u) (unat len) (o_verify_pattern td) (unat (o_verify_pattern_bytes td)) 0 = Some b"
      "length b = length (i_buf io_u)"
      using pattern_copy_ok[of "unat len" "i_buf io_u" "unat (o_verify_pattern_bytes td)" "o_verify_pattern td" 0] len pat by auto
    then show ?thesis using 4 keep(2)[of b] by (simp add: fill_pattern_def get_hdr_inc_def)
  qed
qed

lemma populate_ok:
  assumes "verify_setup td io_u N"
  shows "\<exists>td' io'. populate_verify_io_u td io_u = Some (td', io') \<and> verify_setup td' io' N \<and>
    o_verify td' = o_verify td \<and> o_verify_fatal td' = o_verify_fatal td \<and> o_verify_offset td' = o_verify_offset td \<and> get_hdr_inc td' io' = get_hdr_inc td io_u \<and>
    (\<forall>i < N. interval_stored td' io' (i_buf io') (i * unat (get_hdr_inc td io_u)) (of_nat i) (get_hdr_inc td io_u))"
proof -
  let ?inc = "get_hdr_inc td io_u"
  obtain td1 io1 where f: "fill_pattern td io_u (ucast (i_buflen io_u)) 0 False = Some (td1, io1)" "verify_setup td1 io1 N"
    "o_verify td1 = o_verify td" "o_verify_fatal td1 = o_verify_fatal td" "o_verify_offset td1 = o_verify_offset td" "get_hdr_inc td1 io1 = ?inc"
    using fill_pattern_ok[OF assms refl] by blast
  have pos: "0 < unat ?inc" using assms by (auto simp: verify_setup_def layout_ok_def Let_def hdr_size_unat)
  obtain B where B: "populate_headers td1 io1 ?inc (i_buf io1) 0 0 = Some B" "length B = length (i_buf io1)"
    "\<forall>i < N. interval_stored td1 io1 B (i * unat ?inc) (of_nat i) ?inc"
    using populate_headers_ok[of td1 ?inc "unat ?inc" io1 N "i_buf io1" 0] f(2,6) pos by (auto simp: verify_setup_def agree_def)
  have "verify_setup td1 (io1\<lparr>i_buf := B\<rparr>) N" using f(2) B(2) by (auto simp: verify_setup_def)
  moreover have "o_verify td \<noteq> VERIFY_NULL" using assms by (auto simp: verify_setup_def layout_ok_def sum_type_def Let_def)
  ultimately show ?thesis using f B by (simp add: populate_verify_io_u_def fill_pattern_headers_def)
qed

lemma verify_io_u_prefix:
  assumes su: "verify_setup td io_u N" and n: "n = unat (get_hdr_inc td io_u)" and stk: "128 \<le> length stk"
    and io: "i_ddir_read io_u" "\<not> i_trimmed io_u" and j: "j \<le> N"
    and st: "\<And>i. i < j \<Longrightarrow> interval_stored td io_u (i_buf io_u) (i * n) (of_nat i) (get_hdr_inc td io_u)"
  shows "\<exists>C. agree (i_buf io_u) C (j * n) (length (i_buf io_u)) \<and> verify_io_u td io_u stk =
    (case verify_loop td io_u stk (get_hdr_inc td io_u) C (j * n) (of_nat j) 0 of
       Some (Inl e) \<Rightarrow> Some (e, td)
     | Some (Inr (ret, _)) \<Rightarrow> Some (ret, if ret \<noteq> 0 \<and> o_verify_fatal td then td\<lparr>t_terminate := True\<rparr> else td)
     | None \<Rightarrow> None)"
proof -
  have pos: "0 < n" using su n by (auto simp: verify_setup_def layout_ok_def Let_def hdr_size_unat)
  have v: "o_verify td \<noteq> VERIFY_NULL" using su by (auto simp: verify_setup_def layout_ok_def sum_type_def Let_def)
  obtain C where "verify_loop td io_u stk (get_hdr_inc td io_u) (i_buf io_u) 0 0 0 =
      verify_loop td io_u stk (get_hdr_inc td io_u) C (j * n) (of_nat j) 0" "agree (i_buf io_u) C (j * n) (length (i_buf io_u))"
    using verify_loop_prefix[of td "get_hdr_inc td io_u" n stk io_u N "i_buf io_u" j] su n pos stk j st
    by (auto simp: verify_setup_def)
  then show ?thesis using io v by (auto simp: verify_io_u_def split: option.split sum.split)
qed


section \<open>Corruption is noticed\<close>

definition crc_type :: "verify_type \<Rightarrow> bool" where
  "crc_type v \<longleftrightarrow> v \<in> {VERIFY_CRC64, VERIFY_CRC32, VERIFY_CRC32C, VERIFY_CRC32C_INTEL, VERIFY_CRC16}"

lemma le_enc_eq_iff [simp]: "8 * n = LENGTH('a) \<Longrightarrow> le_enc n a = le_enc n b \<longleftrightarrow> a = b" for a b :: "'a::len word"
proof -
  assume n: "8 * n = LENGTH('a)"
  have "a = b" if "le_enc n a = le_enc n b"
  proof -
    have "a = le_dec (le_enc n a)" by (rule le_dec_enc[OF n, symmetric])
    also have "\<dots> = le_dec (le_enc n b)" by (simp only: that)
    also have "\<dots> = b" by (rule le_dec_enc[OF n])
    finally show ?thesis .
  qed
  then show ?thesis by blast
qed

lemma sum_of_burst:
  assumes "crc_type v" "length ds \<le> unat (priv_size v)" "length es = length ds" "ds \<noteq> es"
  shows "sum_of v (pre @ ds @ post) \<noteq> sum_of v (pre @ es @ post)"
proof -
  note d = reg16.burst_detected[OF _ assms(3,4)] reg32.burst_detected[OF _ assms(3,4)]
    reg32c.burst_detected[OF _ assms(3,4)] reg64.burst_detected[OF _ assms(3,4)]
  consider "v = VERIFY_CRC64" | "v = VERIFY_CRC32" | "v \<in> {VERIFY_CRC32C, VERIFY_CRC32C_INTEL}" | "v = VERIFY_CRC16"
    using assms(1) by (auto simp: crc_type_def)
  then show ?thesis
  proof cases
    case 1
    with assms(2) d(4)[of 0 pre post] show ?thesis by (simp add: sum_of_def del: fold_append)
  next
    case 2
    with assms(2) d(2)[of 0 pre post] show ?thesis by (simp add: sum_of_def del: fold_append)
  next
    case 3
    with assms(2) d(3)[of "NOT 0" pre post] show ?thesis by (auto simp: sum_of_def)
  next
    case 4
    with assms(2) d(1)[of 0 pre post] show ?thesis by (simp add: sum_of_def del: fold_append)
  qed
qed

lemma verify_turn_sum:
  assumes lay: "layout_ok td inc" and vo: "o_verify_offset td = 0" and ready: "header_ready td io_u C p k inc" and p: "p = unat (k * inc)"
    and len: "p + unat inc \<le> length C" and cpu: "cpu_ok td" and stk: "128 \<le> length stk"
    and blen: "unat inc \<le> unat (i_buflen io_u)" and match: "t_is_match td (i_unique_version io_u) (i_unique_version io_u)"
  shows "verify_turn td io_u stk C inc p k = map_option (\<lambda>r. Inr (r, C)) (type_check td stk C p k)"
proof -
  have u: "unat (ucast inc :: u64) = unat inc" using unat_lt[of inc] by (simp add: unat_ucast_small)
  have hdr: "verify_header td io_u C p = Some True"
    using ready blen u by (auto simp: verify_header_def header_ready_def word_less_nat_alt)
  have "verify_one td io_u stk C p k = type_check td stk C p k"
    using verify_one_sum[of C p "o_verify td"] ready lay by (simp add: header_ready_def layout_ok_def Let_def)
  then show ?thesis using vo hdr ready match unfolding verify_turn_def
    by (cases "type_check td stk C p k") (simp_all add: header_ready_def)
qed

text \<open>Replacing a stretch of a list.\<close>

definition patch :: "'a list \<Rightarrow> nat \<Rightarrow> 'a list \<Rightarrow> 'a list" where
  "patch B a es = take a B @ es @ drop (a + length es) B"

lemma patch_frame: "a + length es \<le> length B \<Longrightarrow> frame B (patch B a es) a (length es)"
  by (auto simp: frame_def patch_def nth_append min_def)

lemma patch_self: "patch B a (take l (drop a B)) = B" if "a + l \<le> length B"
  using that by (simp add: patch_def min_def) (metis append_take_drop_id drop_drop add.commute)

lemma take_drop_patch:
  assumes "q \<le> a" "a + length es \<le> q + m" "q + m \<le> length B"
  shows "take m (drop q (patch B a es)) = take (a - q) (drop q B) @ es @ take (q + m - a - length es) (drop (a + length es) B)"
proof -
  define x y where "x = a - q" and "y = m - x"
  then have "a = q + x" "m = x + y" "length es \<le> y" using assms by simp_all
  then show ?thesis using assms by (auto simp: patch_def drop_take min_def)
qed

lemma verify_loop_stops:
  assumes turn: "verify_turn td io_u stk C inc (j * n) (of_nat j) = Some (Inr (r, C'))" and r: "r \<noteq> 0"
    and n: "unat inc = n" "0 < n" and blen: "unat (i_buflen io_u) = N * n" and j: "j < N"
    and stop: "o_verify_fatal td \<or> Suc j = N"
  shows "verify_loop td io_u stk inc C (j * n) (of_nat j) 0 = Some (Inr (r, C'))"
proof -
  have "verify_loop td io_u stk inc C' (n + j * n) (1 + of_nat j) r = Some (Inr (r, C'))"
    using stop r n blen by (subst verify_loop.simps) (auto simp: algebra_simps)
  then show ?thesis using turn n blen j by (subst verify_loop.simps) (simp add: add.commute)
qed

lemma ready_of_stored: "interval_stored td io_u B p k inc \<Longrightarrow> o_verify_offset td = 0 \<Longrightarrow> interval_ready td io_u B p k inc"
  by (simp add: interval_stored_def)

lemma corrupt_turn:
  assumes lay: "layout_ok td inc" and vo: "o_verify_offset td = 0" and v: "crc_type (o_verify td)"
    and st: "interval_stored td io_u B p k inc" and p: "p = unat (k * inc)" and len: "p + unat inc \<le> length B"
    and cpu: "cpu_ok td" and stk: "128 \<le> length stk" and blen: "unat inc \<le> unat (i_buflen io_u)"
    and match: "t_is_match td (i_unique_version io_u) (i_unique_version io_u)"
    and r: "unat (hdr_size (o_verify td)) \<le> r" "r + length es \<le> unat inc" "length es \<le> unat (priv_size (o_verify td))"
    and diff: "take (length es) (drop (p + r) B) \<noteq> es"
    and C: "agree (patch B (p + r) es) C p (unat inc)"
  shows "verify_turn td io_u stk C inc p k = Some (Inr (EILSEQ, C))"
proof -
  let ?v = "o_verify td" let ?hs = "unat (hdr_size ?v)" let ?B = "patch B (p + r) es"
  let ?d = "\<lambda>X. take (unat inc - ?hs) (drop (p + ?hs) X)"
  have fits: "?hs \<le> unat inc" using lay by (auto simp: layout_ok_def Let_def)
  have inside: "p + r + length es \<le> length B" using r len by simp
  have fr: "frame B ?B (p + r) (length es)" using patch_frame[OF inside] .
  have lenB: "length ?B = length B" using fr by (simp add: frame_def)
  have ag: "agree B C p ?hs"
    using frame_agree[OF fr, of p ?hs] agree_sub[OF C, of p ?hs] r fits by (auto intro: agree_trans)
  have rdy: "interval_ready td io_u B p k inc" using ready_of_stored[OF st vo] .
  have hdr: "header_ready td io_u C p k inc"
    using header_ready_agree[OF agree_sub[OF ag, of p 56]] rdy by (simp add: interval_ready_def hdr_size_unat)
  have sum: "mem_read C (p + 56) (unat (priv_size ?v)) = Some (sum_of ?v (?d B))"
    using mem_read_agree[OF ag, of "p + 56" "unat (priv_size ?v)"] rdy len fits by (simp add: interval_ready_def hdr_size_unat)
  have lenC: "length C = length B" using C lenB by (simp add: agree_def)
  have "?d C = ?d ?B"
    using mem_read_agree[OF C, of "p + ?hs" "unat inc - ?hs"] len lenC lenB fits by simp
  moreover have "sum_of ?v (?d ?B) \<noteq> sum_of ?v (?d B)"
  proof -
    define old where "old = take (length es) (drop (p + r) B)"
    have old: "length old = length es" "patch B (p + r) old = B" using inside patch_self[OF inside] by (simp_all add: old_def)
    then show ?thesis
      using take_drop_patch[of "p + ?hs" "p + r" es "unat inc - ?hs" B] take_drop_patch[of "p + ?hs" "p + r" old "unat inc - ?hs" B]
        sum_of_burst[OF v r(3) old(1)] diff r len fits by (simp add: old_def[symmetric])
  qed
  ultimately have "type_check td stk C p k = Some EILSEQ"
    using verify_sum_value[OF lay hdr p _ cpu stk sum] len lenC by simp
  then show ?thesis using verify_turn_sum[OF lay vo hdr p _ cpu stk blen match] len lenC by simp
qed


section \<open>Patterns and trimmed blocks\<close>

definition matches :: "bytes \<Rightarrow> nat \<Rightarrow> bytes \<Rightarrow> nat \<Rightarrow> nat \<Rightarrow> nat \<Rightarrow> nat \<Rightarrow> bool" where
  "matches buf off pat n md a b \<longleftrightarrow> (\<forall>j. a \<le> j \<and> j < b \<longrightarrow> buf ! (off + j) = pat ! ((md + j) mod n))"

lemma matches_step:
  assumes "i < len"
  shows "matches buf off pat n md i len \<longleftrightarrow> buf ! (off + i) = pat ! ((md + i) mod n) \<and> matches buf off pat n md (Suc i) len"
  using assms by (auto simp: matches_def Suc_le_eq) (metis le_neq_implies_less)

lemma pattern_find_exact:
  assumes "off + len \<le> length buf" "n \<le> length pat" "0 < n" "md = (md0 + i) mod n" "i \<le> len"
  shows "pattern_find buf off len pat n i md = Some (if matches buf off pat n md0 i len then 0 else EILSEQ)"
  using assms
proof (induction "len - i" arbitrary: i md)
  case 0
  then show ?case by (subst pattern_find.simps) (auto simp: matches_def)
next
  case (Suc m)
  then have i: "i < len" "m = len - Suc i" by auto
  have md: "md < n" using Suc.prems by simp
  have nx: "(if md + 1 = n then 0 else md + 1) = (md0 + Suc i) mod n" using Suc.prems by (simp add: mod_Suc)
  have split: "matches buf off pat n md0 i len \<longleftrightarrow> buf ! (off + i) = pat ! md \<and> matches buf off pat n md0 (Suc i) len"
    using matches_step[of i len buf off pat n md0] i Suc.prems(4) by simp
  have "pattern_find buf off len pat n (Suc i) ((md0 + Suc i) mod n) =
      Some (if matches buf off pat n md0 (Suc i) len then 0 else EILSEQ)"
    using Suc.hyps(1)[OF i(2)] Suc.prems i by simp
  then show ?case using i md Suc.prems(1,2) split nx by (subst pattern_find.simps) (auto simp: arr_get_def)
qed

lemma pattern_scan_sound:
  assumes "off + len \<le> length buf" "n \<le> length pat" "0 < n" "md = (md0 + i) mod n" "i \<le> len" "matches buf off pat n md0 0 i"
  shows "\<exists>i' md'. pattern_scan buf off len pat n i md = Some (i', md') \<and> i' \<le> len \<and>
    (i' < len \<longrightarrow> md' = (md0 + i') mod n) \<and> matches buf off pat n md0 0 i'"
  using assms
proof (induction "len - i" arbitrary: i md rule: less_induct)
  case less
  show ?case
  proof (cases "i < len")
    case True
    define sz where "sz = (if n - md > len - i then len - i else n - md)"
    have md: "md < n" using less.prems by simp
    have sz: "0 < sz" "i + sz \<le> len" "md + sz \<le> n" using True md by (auto simp: sz_def)
    have dec: "pattern_scan buf off len pat n i md = (if take sz (drop (off + i) buf) \<noteq> take sz (drop md pat) then Some (i, md)
        else pattern_scan buf off len pat n (i + sz) 0)"
      using True md sz less.prems(1,2) by (subst pattern_scan.simps) (simp add: sz_def[symmetric] Let_def)
    show ?thesis
    proof (cases "take sz (drop (off + i) buf) = take sz (drop md pat)")
      case eq: True
      have nth: "buf ! (off + i + t) = pat ! (md + t)" if "t < sz" for t
      proof -
        have "take sz (drop (off + i) buf) ! t = take sz (drop md pat) ! t" by (simp only: eq)
        then show ?thesis using that sz less.prems(1,2) by simp
      qed
      have ext: "matches buf off pat n md0 0 (i + sz)"
        unfolding matches_def
      proof (intro allI impI)
        fix j assume j: "0 \<le> j \<and> j < i + sz"
        show "buf ! (off + j) = pat ! ((md0 + j) mod n)"
        proof (cases "j < i")
          case False
          have "(md0 + i + (j - i)) mod n = (md + (j - i)) mod n" using less.prems(4) by (simp add: mod_add_left_eq)
          moreover have "md + (j - i) < n" using j False sz by linarith
          ultimately have "(md0 + j) mod n = md + (j - i)" using False by (simp add: add.assoc)
          then show ?thesis using nth[of "j - i"] j False by simp
        qed (use less.prems(6) in \<open>auto simp: matches_def\<close>)
      qed
      show ?thesis
      proof (cases "i + sz < len")
        case True
        then have "sz = n - md" by (auto simp: sz_def split: if_splits)
        then have "(md + sz) mod n = 0" using md by simp
        then have "0 = (md0 + (i + sz)) mod n"
          unfolding less.prems(4) by (simp add: mod_add_left_eq add.assoc)
        moreover have lt: "len - (i + sz) < len - i" using True sz by simp
        ultimately show ?thesis using less.hyps[OF lt, of 0] less.prems(1-3) ext sz True dec eq by auto
      next
        case False
        then have "i + sz = len" using sz by simp
        then have "pattern_scan buf off len pat n (i + sz) 0 = Some (len, 0)" by (subst pattern_scan.simps) simp
        then show ?thesis using dec eq ext \<open>i + sz = len\<close> by auto
      qed
    qed (use dec less.prems in auto)
  qed (use less.prems in \<open>subst pattern_scan.simps, auto\<close>)
qed

text \<open>C5: for a pattern of at least two bytes the check of one interval returns 0 exactly when every
  byte behind the header continues the repeated pattern at the phase of the header size, and
  \<open>EILSEQ\<close> otherwise; the quick comparison by chunks loses nothing.\<close>

theorem verify_pattern_exact:
  assumes "2 \<le> o_verify_pattern_bytes td" "unat (o_verify_pattern_bytes td) \<le> length (o_verify_pattern td)"
    and "hdr_size (o_verify td) \<le> get_hdr_inc td io_u" "p + unat (get_hdr_inc td io_u) \<le> length buf"
  shows "verify_io_u_pattern td io_u buf p =
    Some (if \<forall>j < unat (get_hdr_inc td io_u) - unat (hdr_size (o_verify td)).
              buf ! (p + unat (hdr_size (o_verify td)) + j) =
                o_verify_pattern td ! ((unat (hdr_size (o_verify td)) + j) mod unat (o_verify_pattern_bytes td))
          then 0 else EILSEQ)"
proof -
  let ?pb = "o_verify_pattern_bytes td" let ?n = "unat ?pb" let ?pat = "o_verify_pattern td"
  let ?hs = "unat (hdr_size (o_verify td))" let ?off = "p + ?hs"
  define len where "len = unat (get_hdr_inc td io_u - hdr_size (o_verify td))"
  define md where "md = unat (hdr_size (o_verify td) mod ?pb)"
  have len: "len = unat (get_hdr_inc td io_u) - ?hs" using assms(3) by (simp add: len_def unat_sub)
  have n: "0 < ?n" "\<not> ?pb \<le> 1" using assms(1) by (auto simp: word_le_nat_alt)
  have md: "md = ?hs mod ?n" by (simp add: md_def unat_mod)
  have bound: "?off + len \<le> length buf" using assms(3,4) len by (simp add: word_le_nat_alt)
  obtain i m where scan: "pattern_scan buf ?off len ?pat ?n 0 md = Some (i, m)" "i \<le> len" "i < len \<longrightarrow> m = (?hs + i) mod ?n"
    "matches buf ?off ?pat ?n ?hs 0 i"
    using pattern_scan_sound[OF bound assms(2) n(1), of md ?hs 0] md by (auto simp: matches_def)
  have find: "pattern_find buf ?off len ?pat ?n i m = Some (if matches buf ?off ?pat ?n ?hs i len then 0 else EILSEQ)"
  proof (cases "i < len")
    case True
    then show ?thesis using pattern_find_exact[OF bound assms(2) n(1), of m ?hs i] scan by simp
  next
    case False
    then show ?thesis by (subst pattern_find.simps) (auto simp: matches_def)
  qed
  have "verify_io_u_pattern td io_u buf p = Some (if matches buf ?off ?pat ?n ?hs i len then 0 else EILSEQ)"
    unfolding verify_io_u_pattern_def Let_def using n(2) scan(1) find by (simp add: len_def md_def)
  moreover have "matches buf ?off ?pat ?n ?hs i len \<longleftrightarrow> matches buf ?off ?pat ?n ?hs 0 len"
    using scan(2,4) by (auto simp: matches_def) (metis not_le)
  ultimately show ?thesis by (simp add: matches_def len)
qed

lemma trim_scan_exact:
  assumes "p + len \<le> length buf" "0 < len"
  shows "trim_scan buf p len = Some (if take len (drop p buf) = replicate len 0 then 0 else EILSEQ)"
  using assms
proof (induction len arbitrary: p rule: less_induct)
  case (less len)
  define t where "t = (if 1024 > len then len else 1024)"
  have t: "t \<le> len" "0 < t" using less.prems by (auto simp: t_def)
  have sp: "take len (drop p buf) = take t (drop p buf) @ take (len - t) (drop (p + t) buf)"
    using take_add[of t "len - t" "drop p buf"] t by (simp add: add.commute)
  have rep: "replicate len 0 = replicate t 0 @ replicate (len - t) (0 :: u8)"
    using t by (simp add: replicate_add[symmetric])
  have "trim_scan buf p len = (if take t (drop p buf) \<noteq> replicate t 0 then Some EILSEQ
      else if len - t = 0 then Some 0 else trim_scan buf (p + t) (len - t))"
    using less.prems t by (subst trim_scan.simps) (simp add: t_def[symmetric] Let_def)
  moreover have "take len (drop p buf) = replicate len 0 \<longleftrightarrow>
      take t (drop p buf) = replicate t 0 \<and> take (len - t) (drop (p + t) buf) = replicate (len - t) 0"
    unfolding sp rep using less.prems t by (subst append_eq_append_conv) auto
  ultimately show ?case using less.IH[of "len - t" "p + t"] less.prems t by auto
qed

text \<open>C6: a trimmed block passes exactly when it reads back as zeroes, if zeroes are asked for.\<close>

theorem verify_trimmed_exact:
  assumes "0 < unat (i_buflen io_u)" "unat (i_buflen io_u) < 2 ^ 32" "unat (i_buflen io_u) \<le> length (i_buf io_u)"
    and "i_ddir_read io_u" "i_trimmed io_u" "o_verify td \<noteq> VERIFY_NULL"
  shows "map_option fst (verify_io_u td io_u stk) =
    Some (if o_trim_zero td \<and> take (unat (i_buflen io_u)) (i_buf io_u) \<noteq> replicate (unat (i_buflen io_u)) 0 then EILSEQ else 0)"
proof -
  have "unat (ucast (i_buflen io_u) :: u32) = unat (i_buflen io_u)"
    using assms(2) by (simp add: unsigned_ucast_eq take_bit_nat_eq_self)
  then show ?thesis
    using trim_scan_exact[of 0 "unat (i_buflen io_u)" "i_buf io_u"] assms
    by (simp add: verify_io_u_def verify_trimmed_io_u_def)
qed

text \<open>C7: the sha256 check stores the block buffer, not the digest: two data areas that agree on their
  first 64 bytes and on the bytes behind the last full block get the same header, whatever is
  between, so that corruption there passes.\<close>

theorem sha256_misses_middle:
  assumes "length old = 64" "length old' = 64" "64 \<le> unat len" "unat len + 128 < 2 ^ 32"
    and "unat len = length data" "unat len = length data'" "take 64 data = take 64 data'"
    and "drop (unat len - unat len mod 64) data = drop (unat len - unat len mod 64) data'"
  shows "\<exists>s. checksum td VERIFY_SHA256 old data len = Some s \<and> checksum td VERIFY_SHA256 old' data' len = Some s"
  using fresh_sha256_buffer[OF assms(1,3), of data] fresh_sha256_buffer[OF assms(2,3), of data'] assms
  by (auto simp: fill_sha256_def tail_and_first_def)

section \<open>A concrete job\<close>

definition demo_td :: vtd where
  "demo_td = \<lparr>o_verify = VERIFY_CRC32C, o_verify_interval = 64, o_verify_offset = 0, o_verify_pattern = [0xde, 0xad, 0xbe],
     o_verify_pattern_bytes = 3, o_verify_fatal = True, o_verify_inner = True, o_randomagain = False, o_rw_min_bs = 512,
     o_trim_zero = True, t_thread_number = 1, t_write_issues = 0, t_is_match = (=), t_crc32c_intel_available = True,
     t_hwb = instruction_byte, t_hwq = instruction_quad, t_buf_state = init_rand, t_terminate = False\<rparr>"

definition demo_io :: vio where
  "demo_io = \<lparr>i_buf = replicate 128 0, i_buflen = 128, i_offset = 4096, i_rand_seed = 0, i_buf_filled_len = 0,
     i_ddir_read = True, i_trimmed = True, i_unique_version = replicate 16 7, i_time_sec = 0, i_time_usec = 0\<rparr>"

lemma demo_hdr_inc [simp]: "get_hdr_inc demo_td demo_io = 64"
  by (simp add: get_hdr_inc_def demo_td_def demo_io_def)

lemma demo_setup: "verify_setup demo_td demo_io 2"
  unfolding verify_setup_def demo_hdr_inc
  by (simp add: layout_ok_def Let_def hdr_size_def sum_type_def cpu_ok_def demo_td_def demo_io_def
      crc32_instruction_def instruction_byte_def instruction_quad_def le_enc_quad)



theorem verify_pattern_exact_witness:
  "verify_io_u_pattern demo_td demo_io (replicate 64 0xde) 0 = Some EILSEQ"
proof -
  have "\<not> (\<forall>j < unat (get_hdr_inc demo_td demo_io) - unat (hdr_size (o_verify demo_td)).
      replicate 64 (0xde :: u8) ! (0 + unat (hdr_size (o_verify demo_td)) + j) =
        o_verify_pattern demo_td ! ((unat (hdr_size (o_verify demo_td)) + j) mod unat (o_verify_pattern_bytes demo_td)))"
    unfolding demo_hdr_inc by (simp add: demo_td_def hdr_size_def) (rule exI[of _ 1], simp)
  then show ?thesis
    using verify_pattern_exact[of demo_td demo_io 0 "replicate 64 0xde"]
    unfolding demo_hdr_inc by (auto simp: demo_td_def hdr_size_def word_le_nat_alt)
qed

theorem verify_trimmed_exact_witness:
  "map_option fst (verify_io_u demo_td demo_io []) = Some 0"
  using verify_trimmed_exact[of demo_io demo_td "[]"] by (simp add: demo_td_def demo_io_def)

theorem sha256_misses_middle_witness:
  "\<exists>s. checksum demo_td VERIFY_SHA256 (replicate 64 0) (replicate 192 1) 192 = Some s \<and>
    checksum demo_td VERIFY_SHA256 (replicate 64 9) (replicate 64 1 @ replicate 128 2) 192 = Some s"
  by (rule sha256_misses_middle) simp_all

end
