(* ===== verification/Thread_Data.thy ===== *)
theory Thread_Data
  imports Stat Verify
begin

text \<open>
  The structures that the I/O path works on: the options and the state of a job (\<open>fio.h\<close>), its
  files (\<open>file.h\<close>) and its I/O units (\<open>ioengine.h\<close>), with the small inline functions of these
  headers. Fields that only the operating system, the output or parts outside the model use are left out.
  Pointers to files and I/O units are indices into the lists of the job; the bits of a flag word are
  separate fields. A job has two kinds of random number generators, the one of the C library, whose
  state is a number here and whose function is a parameter, and the generator of \<open>lib/rand.h\<close>.
\<close>

section \<open>Random numbers\<close>

record rand_state =
  rs_os :: nat
  rs_frand :: frand_state

type_synonym os_random = "nat \<Rightarrow> u64 \<times> nat"

definition OS_RAND_MAX :: u64 where "OS_RAND_MAX = 0x7fffffff"
definition FRAND_MAX :: u64 where "FRAND_MAX = 0xffffffff"

definition next_rand :: "os_random \<Rightarrow> bool \<Rightarrow> rand_state \<Rightarrow> u64 \<times> rand_state" where
  "next_rand osr use_os_rand st =
     (if use_os_rand then let (r, s) = osr (rs_os st) in (r, st\<lparr>rs_os := s\<rparr>)
      else let (r, s) = c_rand (rs_frand st) in (ucast r, st\<lparr>rs_frand := s\<rparr>))"

definition rand_max :: "bool \<Rightarrow> u64" where
  "rand_max use_os_rand = (if use_os_rand then OS_RAND_MAX else FRAND_MAX)"

text \<open>The expression \<open>x * (r / (rand_max + 1.0))\<close> in doubles, converted back to an integer. The divisor
  is a power of two, so the quotient is exact; the conversion of \<open>x\<close> and the product round to 53
  significant bits, ties to even.\<close>

definition round53 :: "nat \<Rightarrow> nat" where
  "round53 n =
     (if n < 2 ^ 53 then n
      else let e = nat_msb n - 52; q = n div 2 ^ e; r = n mod 2 ^ e; half = 2 ^ (e - 1)
           in (if r > half \<or> r = half \<and> odd q then q + 1 else q) * 2 ^ e)"

definition scale_rand :: "nat \<Rightarrow> bool \<Rightarrow> u64 \<Rightarrow> nat" where
  "scale_rand x use_os_rand r = round53 (round53 x * unat r) div (unat (rand_max use_os_rand) + 1)"

section \<open>Structures\<close>

datatype fio_filetype = FIO_TYPE_FILE | FIO_TYPE_BD | FIO_TYPE_CHAR | FIO_TYPE_PIPE

record fio_file =
  f_name :: string
  f_filetype :: fio_filetype
  f_fd :: int
  f_real_file_size :: u64
  f_file_offset :: u64
  f_io_size :: u64
  f_last_pos :: u64
  f_last_start :: u64
  f_first_write :: u64
  f_last_write :: u64
  f_file_pos :: u64
  f_file_map :: "u64 list option"
  f_file_map2 :: "u64 list option"
  f_num_maps :: u64
  f_last_free_lookup :: u64
  f_failed_rands :: u32
  f_references :: int
  f_open :: bool
  f_closing :: bool
  f_extend :: bool
  f_done :: bool
  f_size_known :: bool
  f_hashed :: bool

datatype end_io = No_end_io | Verify_io_u | Verify_io_u_async

record io_u =
  u_start_time :: timeval
  u_issue_time :: timeval
  u_unique_version :: bytes
  u_randomagain :: bool
  u_buf :: bytes
  u_buflen :: u64
  u_offset :: u64
  u_rand_seed :: u64
  u_xfer_buf :: bool
  u_xfer_buflen :: u64
  u_buf_filled_len :: u64
  u_resid :: u32
  u_error :: u32
  u_ddir :: fio_ddir
  u_free :: bool
  u_flight :: bool
  u_free_def :: bool
  u_in_cur_depth :: bool
  u_busy_ok :: bool
  u_trimmed :: bool
  u_barrier :: bool
  u_ver_list :: bool
  u_file :: "nat option"
  u_end_io :: end_io

datatype rw_seq = RW_SEQ_SEQ | RW_SEQ_IDENT | RW_SEQ_OTHER
datatype fservice = FIO_FSERVICE_RANDOM | FIO_FSERVICE_RR | FIO_FSERVICE_SEQ

record thread_options =
  o_td_ddir :: u32
  o_rw_seq :: rw_seq
  o_ddir_seq_nr :: u32
  o_ddir_seq_add :: int
  o_iodepth :: u32
  o_iodepth_low :: u32
  o_iodepth_batch :: u32
  o_iodepth_batch_complete :: u32
  o_size :: u64
  o_size_percent :: u32
  o_fill_device :: bool
  o_file_size_low :: u64
  o_file_size_high :: u64
  o_start_offset :: u64
  o_bs :: "u32 \<times> u32"
  o_ba :: "u32 \<times> u32"
  o_min_bs :: "u32 \<times> u32"
  o_max_bs :: "u32 \<times> u32"
  o_bssplit :: "(u32 \<times> u8) list \<times> (u32 \<times> u8) list"
  o_nr_files :: u32
  o_open_files :: u32
  o_odirect :: bool
  o_invalidate_cache :: bool
  o_create_on_open :: bool
  o_pre_read :: bool
  o_override_sync :: bool
  o_use_os_rand :: bool
  o_again :: bool
  o_norandommap :: bool
  o_softrandommap :: bool
  o_bs_unaligned :: bool
  o_fsync_on_close :: bool
  o_rwmin :: u32
  o_thinktime :: u32
  o_thinktime_spin :: u32
  o_thinktime_blocks :: u32
  o_fsync_blocks :: u32
  o_fdatasync_blocks :: u32
  o_barrier_blocks :: u32
  o_timeout :: u64
  o_loops :: u32
  o_numjobs :: u32
  o_offset_increment :: u64
  o_zone_range :: u64
  o_zone_size :: u64
  o_zone_skip :: u64
  o_rwmix :: "u32 \<times> u32"
  o_file_service_type :: fservice
  o_time_based :: bool
  o_zero_buffers :: bool
  o_refill_buffers :: bool
  o_scramble_buffers :: bool
  o_compress_percentage :: u32
  o_compress_chunk :: u32
  o_disable_lat :: bool
  o_disable_clat :: bool
  o_disable_slat :: bool
  o_disable_bw :: bool
  o_trim_percentage :: u32
  o_trim_batch :: u32
  o_trim_backlog :: u64
  o_verify_backlog :: u64
  o_verify_batch :: u32
  o_verify_async :: u32
  o_do_verify :: bool
  o_read_iolog :: bool
  o_write_iolog :: bool
  o_continue_on_error :: u32
  o_rate :: "u32 \<times> u32"
  o_ratemin :: "u32 \<times> u32"
  o_rate_iops :: "u32 \<times> u32"
  o_rate_iops_min :: "u32 \<times> u32"
  o_bw_avg_time :: u32
  o_iops_avg_time :: u32
  o_ramp_time :: u64
  o_overwrite :: bool
  o_verifysort :: bool

text \<open>\<open>td_vtd\<close> holds the options of the verify mode in the form the theory of verification uses;
  \<open>td_clock\<close> counts the readings of the clock.\<close>

record 'd thread_data =
  td_o :: thread_options
  td_vtd :: vtd
  td_ts :: "'d thread_stat"
  td_slat_log :: "'d io_log option"
  td_clat_log :: "'d io_log option"
  td_lat_log :: "'d io_log option"
  td_bw_log :: "'d io_log option"
  td_iops_log :: "'d io_log option"
  td_stat_io_bytes :: "u64 \<times> u64"
  td_bw_sample_time :: timeval
  td_stat_io_blocks :: "u64 \<times> u64"
  td_iops_sample_time :: timeval
  td_files :: "fio_file list"
  td_thread_number :: u32
  td_engine :: string
  td_rawio :: bool
  td_pipeio :: bool
  td_diskless :: bool
  td_total_io_size :: u64
  td_fill_device_size :: u64
  td_nr_open_files :: u32
  td_nr_done_files :: u32
  td_next_file :: u32
  td_next_file_state :: rand_state
  td_error :: int
  td_done :: bool
  td_terminate :: bool
  td_runstate :: nat
  td_last_was_sync :: bool
  td_last_ddir :: fio_ddir
  td_bsrange_state :: rand_state
  td_verify_state :: rand_state
  td_trim_state :: rand_state
  td_buf_state :: frand_state
  td_verify_batch :: u32
  td_trim_batch :: u32
  td_noio :: bool
  td_barrier :: bool
  td_syncio :: bool
  td_cur_depth :: u32
  td_io_u_queued :: u32
  td_io_u_in_flight :: u32
  td_io_us :: "io_u list"
  td_freelist :: "nat list"
  td_busylist :: "nat list"
  td_requeues :: "nat list"
  td_rate_bps :: "u64 \<times> u64"
  td_rate_pending_usleep :: "int \<times> int"
  td_rate_bytes :: "u64 \<times> u64"
  td_rate_blocks :: "u64 \<times> u64"
  td_lastrate :: "timeval \<times> timeval"
  td_io_issues :: "u64 \<times> u64"
  td_io_blocks :: "u64 \<times> u64"
  td_this_io_blocks :: "u64 \<times> u64"
  td_io_bytes :: "u64 \<times> u64"
  td_io_skip_bytes :: u64
  td_this_io_bytes :: "u64 \<times> u64"
  td_zone_bytes :: u64
  td_random_state :: rand_state
  td_start :: timeval
  td_epoch :: timeval
  td_last_issue :: timeval
  td_ramp_time_over :: bool
  td_rwmix_state :: rand_state
  td_rwmix_issues :: u64
  td_rwmix_ddir :: fio_ddir
  td_ddir_seq_nr :: u32
  td_io_hist_len :: u64
  td_trim_entries :: u64
  td_file_service_nr :: u32
  td_file_service_left :: u32
  td_file_service_file :: "nat option"
  td_sync_file_range_nr :: u32
  td_file_size_state :: rand_state
  td_total_err_count :: u32
  td_first_error :: int
  td_clock :: nat

section \<open>Zeroed structures\<close>

text \<open>The structures as an allocation with zeroed memory leaves them; the examples below start from them.\<close>

definition zero_tv :: timeval where "zero_tv = \<lparr>tv_sec = 0, tv_usec = 0\<rparr>"

definition zero_frand :: frand_state where "zero_frand = \<lparr>s1 = 0, s2 = 0, s3 = 0\<rparr>"

definition zero_rand :: rand_state where "zero_rand = \<lparr>rs_os = 0, rs_frand = zero_frand\<rparr>"

definition zero_vtd :: "vtd" where
  "zero_vtd =
   \<lparr>o_verify = VERIFY_NONE, o_verify_interval = 0, o_verify_offset = 0, o_verify_pattern = [], o_verify_pattern_bytes = 0,
     o_verify_fatal = False, o_verify_inner = False, o_randomagain = False, o_rw_min_bs = 0, o_trim_zero = False,
     t_thread_number = 0, t_write_issues = 0, t_is_match = (\<lambda>a b. a = b), t_crc32c_intel_available = False,
     t_hwb = (\<lambda>c x. c), t_hwq = (\<lambda>c x. c), t_buf_state = zero_frand, t_terminate = False\<rparr>"

definition zero_file :: "fio_file" where
  "zero_file =
   \<lparr>f_name = [], f_filetype = FIO_TYPE_FILE, f_fd = 0, f_real_file_size = 0, f_file_offset = 0, f_io_size = 0, f_last_pos = 0,
     f_last_start = 0, f_first_write = 0, f_last_write = 0, f_file_pos = 0, f_file_map = None, f_file_map2 = None,
     f_num_maps = 0, f_last_free_lookup = 0, f_failed_rands = 0, f_references = 0, f_open = False, f_closing = False,
     f_extend = False, f_done = False, f_size_known = False, f_hashed = False\<rparr>"

definition zero_io_u :: "io_u" where
  "zero_io_u =
   \<lparr>u_start_time = zero_tv, u_issue_time = zero_tv, u_unique_version = [], u_randomagain = False, u_buf = [], u_buflen = 0,
     u_offset = 0, u_rand_seed = 0, u_xfer_buf = False, u_xfer_buflen = 0, u_buf_filled_len = 0, u_resid = 0, u_error = 0,
     u_ddir = DDIR_READ, u_free = False, u_flight = False, u_free_def = False, u_in_cur_depth = False, u_busy_ok = False,
     u_trimmed = False, u_barrier = False, u_ver_list = False, u_file = None, u_end_io = No_end_io\<rparr>"

definition zero_options :: "thread_options" where
  "zero_options =
   \<lparr>o_td_ddir = 0, o_rw_seq = RW_SEQ_SEQ, o_ddir_seq_nr = 0, o_ddir_seq_add = 0, o_iodepth = 0, o_iodepth_low = 0,
     o_iodepth_batch = 0, o_iodepth_batch_complete = 0, o_size = 0, o_size_percent = 0, o_fill_device = False,
     o_file_size_low = 0, o_file_size_high = 0, o_start_offset = 0, o_bs = (0, 0), o_ba = (0, 0), o_min_bs = (0, 0),
     o_max_bs = (0, 0), o_bssplit = ([], []), o_nr_files = 0, o_open_files = 0, o_odirect = False, o_invalidate_cache = False,
     o_create_on_open = False, o_pre_read = False, o_override_sync = False, o_use_os_rand = False, o_again = False,
     o_norandommap = False, o_softrandommap = False, o_bs_unaligned = False, o_fsync_on_close = False, o_rwmin = 0,
     o_thinktime = 0, o_thinktime_spin = 0, o_thinktime_blocks = 0, o_fsync_blocks = 0, o_fdatasync_blocks = 0,
     o_barrier_blocks = 0, o_timeout = 0, o_loops = 0, o_numjobs = 0, o_offset_increment = 0, o_zone_range = 0, o_zone_size = 0,
     o_zone_skip = 0, o_rwmix = (0, 0), o_file_service_type = FIO_FSERVICE_RANDOM, o_time_based = False, o_zero_buffers = False,
     o_refill_buffers = False, o_scramble_buffers = False, o_compress_percentage = 0, o_compress_chunk = 0,
     o_disable_lat = False, o_disable_clat = False, o_disable_slat = False, o_disable_bw = False, o_trim_percentage = 0,
     o_trim_batch = 0, o_trim_backlog = 0, o_verify_backlog = 0, o_verify_batch = 0, o_verify_async = 0, o_do_verify = False,
     o_read_iolog = False, o_write_iolog = False, o_continue_on_error = 0, o_rate = (0, 0), o_ratemin = (0, 0),
     o_rate_iops = (0, 0), o_rate_iops_min = (0, 0), o_bw_avg_time = 0, o_iops_avg_time = 0, o_ramp_time = 0,
     o_overwrite = False, o_verifysort = False\<rparr>"

definition zero_td :: "real thread_data" where
  "zero_td =
   \<lparr>td_o = zero_options, td_vtd = zero_vtd, td_ts = init_thread_stat exact, td_slat_log = None, td_clat_log = None,
     td_lat_log = None, td_bw_log = None, td_iops_log = None, td_stat_io_bytes = (0, 0), td_bw_sample_time = zero_tv,
     td_stat_io_blocks = (0, 0), td_iops_sample_time = zero_tv, td_files = [], td_thread_number = 0, td_engine = [],
     td_rawio = False, td_pipeio = False, td_diskless = False, td_total_io_size = 0, td_fill_device_size = 0,
     td_nr_open_files = 0, td_nr_done_files = 0, td_next_file = 0, td_next_file_state = zero_rand, td_error = 0, td_done = False,
     td_terminate = False, td_runstate = 0, td_last_was_sync = False, td_last_ddir = DDIR_READ, td_bsrange_state = zero_rand,
     td_verify_state = zero_rand, td_trim_state = zero_rand, td_buf_state = zero_frand, td_verify_batch = 0, td_trim_batch = 0,
     td_noio = False, td_barrier = False, td_syncio = False, td_cur_depth = 0, td_io_u_queued = 0, td_io_u_in_flight = 0,
     td_io_us = [], td_freelist = [], td_busylist = [], td_requeues = [], td_rate_bps = (0, 0), td_rate_pending_usleep = (0, 0),
     td_rate_bytes = (0, 0), td_rate_blocks = (0, 0), td_lastrate = (zero_tv, zero_tv), td_io_issues = (0, 0),
     td_io_blocks = (0, 0), td_this_io_blocks = (0, 0), td_io_bytes = (0, 0), td_io_skip_bytes = 0, td_this_io_bytes = (0, 0),
     td_zone_bytes = 0, td_random_state = zero_rand, td_start = zero_tv, td_epoch = zero_tv, td_last_issue = zero_tv,
     td_ramp_time_over = False, td_rwmix_state = zero_rand, td_rwmix_issues = 0, td_rwmix_ddir = DDIR_READ, td_ddir_seq_nr = 0,
     td_io_hist_len = 0, td_trim_entries = 0, td_file_service_nr = 0, td_file_service_left = 0, td_file_service_file = None,
     td_sync_file_range_nr = 0, td_file_size_state = zero_rand, td_total_err_count = 0, td_first_error = 0, td_clock = 0\<rparr>"

lemmas zero_defs = zero_tv_def zero_frand_def zero_rand_def zero_vtd_def zero_file_def zero_io_u_def zero_options_def zero_td_def

section \<open>Inline functions\<close>

definition td_read :: "'d thread_data \<Rightarrow> bool" where
  "td_read td \<longleftrightarrow> o_td_ddir (td_o td) AND TD_DDIR_READ \<noteq> 0"

definition td_write :: "'d thread_data \<Rightarrow> bool" where
  "td_write td \<longleftrightarrow> o_td_ddir (td_o td) AND TD_DDIR_WRITE \<noteq> 0"

definition td_rw :: "'d thread_data \<Rightarrow> bool" where
  "td_rw td \<longleftrightarrow> o_td_ddir (td_o td) AND TD_DDIR_RW = TD_DDIR_RW"

definition td_random :: "'d thread_data \<Rightarrow> bool" where
  "td_random td \<longleftrightarrow> o_td_ddir (td_o td) AND TD_DDIR_RAND \<noteq> 0"

definition file_randommap :: "'d thread_data \<Rightarrow> fio_file \<Rightarrow> bool" where
  "file_randommap td f \<longleftrightarrow> \<not> o_norandommap (td_o td) \<and> f_file_map f \<noteq> None"

definition EIO :: int where "EIO = 5"

definition td_non_fatal_error :: "int \<Rightarrow> bool" where
  "td_non_fatal_error e \<longleftrightarrow> e = EIO \<or> e = EILSEQ"

definition td_error_type :: "fio_ddir \<Rightarrow> int \<Rightarrow> u32" where
  "td_error_type ddir err = (if err = EILSEQ then 4 else if ddir = DDIR_READ then 1 else 2)"

definition update_error_count :: "int \<Rightarrow> 'd thread_data \<Rightarrow> 'd thread_data" where
  "update_error_count err td =
     (let td = td\<lparr>td_total_err_count := td_total_err_count td + 1\<rparr>
      in if td_total_err_count td = 1 then td\<lparr>td_first_error := err\<rparr> else td)"

definition should_fsync :: "'d thread_data \<Rightarrow> bool" where
  "should_fsync td =
     (if td_last_was_sync td then False
      else if o_odirect (td_o td) then False
      else td_write td \<or> td_rw td \<or> o_override_sync (td_o td))"

definition fio_fill_issue_time :: "'d thread_data \<Rightarrow> bool" where
  "fio_fill_issue_time td \<longleftrightarrow> o_read_iolog (td_o td) \<or> \<not> o_disable_clat (td_o td) \<or> \<not> o_disable_slat (td_o td) \<or> \<not> o_disable_bw (td_o td)"

definition should_check_rate1 :: "'d thread_data \<Rightarrow> fio_ddir \<Rightarrow> bool" where
  "should_check_rate1 td ddir \<longleftrightarrow>
     at2 (o_rate (td_o td)) ddir \<noteq> 0 \<or> at2 (o_ratemin (td_o td)) ddir \<noteq> 0 \<or>
     at2 (o_rate_iops (td_o td)) ddir \<noteq> 0 \<or> at2 (o_rate_iops_min (td_o td)) ddir \<noteq> 0"

definition should_check_rate :: "'d thread_data \<Rightarrow> u64 \<times> u64 \<Rightarrow> bool" where
  "should_check_rate td bytes_done \<longleftrightarrow>
     fst bytes_done \<noteq> 0 \<and> should_check_rate1 td DDIR_READ \<or> snd bytes_done \<noteq> 0 \<and> should_check_rate1 td DDIR_WRITE"

definition td_verror :: "int \<Rightarrow> 'd thread_data \<Rightarrow> 'd thread_data" where
  "td_verror err td = (if td_error td \<noteq> 0 then td else td\<lparr>td_error := err\<rparr>)"

text \<open>\<open>clean_map\<close> of \<open>seg_2bitsmap.c\<close> clears the second map when no history is kept.\<close>

definition clean_map :: "u64 \<Rightarrow> fio_file \<Rightarrow> fio_file" where
  "clean_map io_hist_len f =
     (case f_file_map2 f of
        None \<Rightarrow> f
      | Some m \<Rightarrow> if io_hist_len = 0 then f\<lparr>f_file_map2 := Some (replicate (2 * unat (f_num_maps f)) 0)\<rparr> else f)"

definition fio_file_reset :: "u64 \<Rightarrow> fio_file \<Rightarrow> fio_file" where
  "fio_file_reset io_hist_len f =
     (let f = f\<lparr>f_last_free_lookup := 0, f_failed_rands := 0, f_last_pos := f_file_offset f, f_last_start := - 1, f_file_pos := - 1\<rparr>;
          f = (case f_file_map f of None \<Rightarrow> f | Some m \<Rightarrow> f\<lparr>f_file_map := Some (replicate (unat (f_num_maps f)) 0 @ drop (unat (f_num_maps f)) m)\<rparr>)
      in clean_map io_hist_len f)"

end
