(* ===== verification/Io_Offset.thy ===== *)
theory Io_Offset
  imports Thread_Data
begin

text \<open>
  Where the next I/O goes and how long it is (the first part of \<open>io_u.c\<close>): the map of blocks that
  random I/O has covered, the choice of a random or sequential offset, and the choice of a length.
\<close>

section \<open>The random map\<close>

abbreviation BLOCKS_PER_MAP :: nat where "BLOCKS_PER_MAP \<equiv> 64"

definition RAND_MAP_IDX :: "u64 \<Rightarrow> u32" where
  "RAND_MAP_IDX b = ucast (b div 64)"

definition RAND_MAP_BIT :: "u64 \<Rightarrow> nat" where
  "RAND_MAP_BIT b = unat (b AND 63)"

definition map_word :: "fio_file \<Rightarrow> nat \<Rightarrow> u64 option" where
  "map_word f i = (case f_file_map f of None \<Rightarrow> None | Some m \<Rightarrow> arr_get m i)"

definition set_map_word :: "fio_file \<Rightarrow> nat \<Rightarrow> u64 \<Rightarrow> fio_file" where
  "set_map_word f i w = f\<lparr>f_file_map := map_option (\<lambda>m. m[i := w]) (f_file_map f)\<rparr>"

definition random_map_free :: "fio_file \<Rightarrow> u64 \<Rightarrow> bool option" where
  "random_map_free f block = do {
     w \<leftarrow> map_word f (unat (RAND_MAP_IDX block));
     Some (w AND push_bit (RAND_MAP_BIT block) 1 = 0)
   }"

definition block_mask :: "nat \<Rightarrow> nat \<Rightarrow> u64" where
  "block_mask this_blocks mbit =
     (if this_blocks = BLOCKS_PER_MAP then - 1 else push_bit mbit (push_bit this_blocks 1 - 1))"

lemma RAND_MAP_BIT_less: "RAND_MAP_BIT b < 64"
proof -
  have "b AND 63 = take_bit 6 b" by (simp add: take_bit_eq_mask mask_numeral)
  hence "RAND_MAP_BIT b = take_bit 6 (unat b)" by (simp only: RAND_MAP_BIT_def unsigned_take_bit_eq)
  thus ?thesis using take_bit_nat_less_exp[of 6 "unat b"] by simp
qed

function mark_bit_loop :: "fio_file \<Rightarrow> nat \<Rightarrow> u64 \<Rightarrow> bool \<Rightarrow> (bool \<times> fio_file) option" where
  "mark_bit_loop f nr_blocks block again =
     (if nr_blocks = 0 then Some (again, f)
      else do {
        let idx = RAND_MAP_IDX block;
        let mbit = RAND_MAP_BIT block;
        if \<not> ucast idx < f_num_maps f then None
        else do {
          let this_blocks = (if nr_blocks + mbit > BLOCKS_PER_MAP then BLOCKS_PER_MAP - mbit else nr_blocks);
          let mask = block_mask this_blocks mbit;
          w \<leftarrow> map_word f (unat idx);
          mark_bit_loop (set_map_word f (unat idx) (w OR mask)) (nr_blocks - this_blocks)
            (block + of_nat this_blocks) (again \<or> w AND mask \<noteq> 0)
        }
      })"
  by pat_completeness auto

termination
  by (relation "measure (\<lambda>(f, n, b, a). n)") (auto split: if_splits intro: diff_less simp: RAND_MAP_BIT_less)

declare mark_bit_loop.simps [simp del]

definition blocks_of :: "u64 \<Rightarrow> u32 \<Rightarrow> nat" where
  "blocks_of buflen min_bs = unat (ucast ((buflen + ucast min_bs - 1) div ucast min_bs) :: u32)"

definition mark_bit_map :: "'d thread_data \<Rightarrow> io_u \<Rightarrow> fio_file \<Rightarrow> (io_u \<times> fio_file) option" where
  "mark_bit_map td io_u f =
     (let min_bs = o_rwmin (td_o td)
      in if u_busy_ok io_u then Some (io_u\<lparr>u_randomagain := True\<rparr>, f)
         else if min_bs = 0 then None
         else do {
           let block = (u_offset io_u - f_file_offset f) div ucast min_bs;
           (again, f) \<leftarrow> mark_bit_loop f (blocks_of (u_buflen io_u) min_bs) block (u_randomagain io_u);
           Some (io_u\<lparr>u_randomagain := again\<rparr>, f)
         })"

text \<open>The inner loop of \<open>mark_random_map\<close> gives blocks up from the end until the rest is free.\<close>

fun shrink_blocks :: "u64 \<Rightarrow> nat \<Rightarrow> nat \<Rightarrow> nat" where
  "shrink_blocks w mbit 0 = 0"
| "shrink_blocks w mbit (Suc n) = (if w AND block_mask (Suc n) mbit = 0 then Suc n else shrink_blocks w mbit n)"

lemma shrink_blocks_le: "shrink_blocks w mbit n \<le> n"
  by (induction n) auto

function mark_random_loop :: "bool \<Rightarrow> bool \<Rightarrow> fio_file \<Rightarrow> nat \<Rightarrow> nat \<Rightarrow> u64 \<Rightarrow> (nat \<times> fio_file) option" where
  "mark_random_loop busy_check seq_one f nr_blocks blocks block =
     (if nr_blocks = 0 then Some (blocks, f)
      else if \<not> busy_check then Some (nr_blocks, f)
      else do {
        free \<leftarrow> (if seq_one then random_map_free f block else Some True);
        if \<not> free then Some (blocks, f)
        else do {
          let idx = RAND_MAP_IDX block;
          let mbit = RAND_MAP_BIT block;
          if \<not> ucast idx < f_num_maps f then None
          else do {
            w \<leftarrow> map_word f (unat idx);
            let this_blocks = shrink_blocks w mbit (if nr_blocks + mbit > BLOCKS_PER_MAP then BLOCKS_PER_MAP - mbit else nr_blocks);
            if this_blocks = 0 then Some (blocks, f)
            else mark_random_loop busy_check seq_one (set_map_word f (unat idx) (w OR block_mask this_blocks mbit))
                   (nr_blocks - this_blocks) (blocks + this_blocks) (block + of_nat this_blocks)
          }
        }
      })"
  by pat_completeness auto
termination
  by (relation "measure (\<lambda>(c, s, f, n, k, b). n)") auto

declare mark_random_loop.simps [simp del]

definition mark_random_map :: "'d thread_data \<Rightarrow> io_u \<Rightarrow> fio_file \<Rightarrow> (io_u \<times> fio_file) option" where
  "mark_random_map td io_u f =
     (let min_bs = o_rwmin (td_o td)
      in if min_bs = 0 then None
         else do {
           let block = (u_offset io_u - f_file_offset f) div ucast min_bs;
           (blocks, f) \<leftarrow> mark_random_loop (\<not> u_busy_ok io_u) (o_ddir_seq_nr (td_o td) = 1) f
                            (blocks_of (u_buflen io_u) min_bs) 0 block;
           let len = ucast (of_nat blocks * min_bs :: u32);
           Some (if len < u_buflen io_u then io_u\<lparr>u_buflen := len\<rparr> else io_u, f)
         })"

section \<open>Random offsets\<close>

definition last_block :: "'d thread_data \<Rightarrow> fio_file \<Rightarrow> fio_ddir \<Rightarrow> u64 option" where
  "last_block td f ddir =
     (if \<not> ddir_rw ddir then None
      else let max_size = (if f_io_size f > f_real_file_size f then f_real_file_size f else f_io_size f);
               max_size = (if o_zone_range (td_o td) \<noteq> 0 then o_zone_range (td_o td) else max_size);
               ba = at2 (o_ba (td_o td)) ddir
           in if ba = 0 then None else Some (max_size div ucast ba))"

text \<open>The results of the functions below: whether the search failed, and the block found.\<close>

function free_block_loop :: "u64 \<Rightarrow> u64 \<Rightarrow> fio_file \<Rightarrow> nat \<Rightarrow> u64 \<Rightarrow> u64 \<Rightarrow> (bool \<times> u64 \<times> fio_file) option" where
  "free_block_loop min_bs lastb f i block b =
     (if block * min_bs < f_real_file_size f \<and> block * min_bs < f_io_size f then do {
        w \<leftarrow> map_word f i;
        if w \<noteq> - 1 then
          let block = block + of_nat (ffz w)
          in if block > lastb then Some (True, b, f)
             else Some (False, block, f\<lparr>f_last_free_lookup := of_nat i\<rparr>)
        else free_block_loop min_bs lastb f (i + 1) (block + 64) b
      } else Some (True, b, f))"
  by pat_completeness auto
termination
  by (relation "measure (\<lambda>(m, l, f, i, k, b). (case f_file_map f of None \<Rightarrow> 0 | Some m \<Rightarrow> length m - i))")
    (auto simp: map_word_def arr_get_def split: option.splits if_splits)

declare free_block_loop.simps [simp del]

definition get_next_free_block :: "'d thread_data \<Rightarrow> fio_file \<Rightarrow> fio_ddir \<Rightarrow> u64 \<Rightarrow> (bool \<times> u64 \<times> fio_file) option" where
  "get_next_free_block td f ddir b = do {
     lastb \<leftarrow> last_block td f ddir;
     if lastb = 0 then Some (True, b, f)
     else let i = unat (f_last_free_lookup f)
          in free_block_loop (ucast (o_rwmin (td_o td))) lastb f i (of_nat i * 64) b
   }"

definition rand_block :: "os_random \<Rightarrow> 'd thread_data \<Rightarrow> u64 \<Rightarrow> u64 \<times> u64 \<times> 'd thread_data" where
  "rand_block osr td lastb =
     (let os = o_use_os_rand (td_o td); (r, st) = next_rand osr os (td_random_state td)
      in (r, of_nat (scale_rand (unat (lastb - 1)) os r), td\<lparr>td_random_state := st\<rparr>))"

text \<open>The first loop of \<open>get_next_rand_offset\<close>: up to \<open>n\<close> random blocks.\<close>

fun rand_tries :: "os_random \<Rightarrow> fio_file \<Rightarrow> u64 \<Rightarrow> nat \<Rightarrow> u64 \<Rightarrow> u64 \<Rightarrow> 'd thread_data \<Rightarrow> (bool \<times> u64 \<times> u64 \<times> 'd thread_data) option" where
  "rand_tries osr f lastb 0 r b td = Some (False, r, b, td)"
| "rand_tries osr f lastb (Suc n) r b td =
     (let (r, b, td) = rand_block osr td lastb
      in if \<not> file_randommap td f \<or> o_again (td_o td) then Some (True, r, b, td)
         else do {
           free \<leftarrow> random_map_free f b;
           if free then Some (True, r, b, td) else rand_tries osr f lastb n r b td
         })"

text \<open>The second loop: searches from random places in the map.\<close>

fun lookup_tries :: "os_random \<Rightarrow> fio_ddir \<Rightarrow> nat \<Rightarrow> u64 \<Rightarrow> u64 \<Rightarrow> 'd thread_data \<Rightarrow> fio_file \<Rightarrow> (bool \<times> u64 \<times> 'd thread_data \<times> fio_file) option" where
  "lookup_tries osr ddir 0 r b td f = Some (False, b, td, f)"
| "lookup_tries osr ddir (Suc n) r b td f = do {
     let os = o_use_os_rand (td_o td);
     let f = f\<lparr>f_last_free_lookup := of_nat (scale_rand (unat (f_num_maps f - 1)) os r)\<rparr>;
     (failed, b, f) \<leftarrow> get_next_free_block td f ddir b;
     if \<not> failed then Some (True, b, td, f)
     else let (r, st) = next_rand osr os (td_random_state td)
          in lookup_tries osr ddir n r b (td\<lparr>td_random_state := st\<rparr>) f
   }"

definition exhaustive_search :: "'d thread_data \<Rightarrow> fio_file \<Rightarrow> fio_ddir \<Rightarrow> u64 \<Rightarrow> (bool \<times> u64 \<times> fio_file) option" where
  "exhaustive_search td f ddir b = do {
     (failed, b, f) \<leftarrow> get_next_free_block td f ddir b;
     if \<not> failed then Some (False, b, f)
     else get_next_free_block td (f\<lparr>f_last_free_lookup := 0\<rparr>) ddir b
   }"

definition count_failed :: "fio_file \<Rightarrow> fio_file" where
  "count_failed f =
     (let f = (if f_failed_rands f = 0 then f\<lparr>f_last_free_lookup := 0\<rparr> else f)
      in f\<lparr>f_failed_rands := f_failed_rands f + 1\<rparr>)"

definition get_next_rand_offset :: "os_random \<Rightarrow> 'd thread_data \<Rightarrow> fio_file \<Rightarrow> fio_ddir \<Rightarrow> u64 \<Rightarrow> (bool \<times> u64 \<times> 'd thread_data \<times> fio_file) option" where
  "get_next_rand_offset osr td f ddir b = do {
     lastb \<leftarrow> last_block td f ddir;
     if lastb = 0 then Some (True, b, td, f)
     else if f_failed_rands f \<ge> 200 then do {
       (failed, b, f) \<leftarrow> exhaustive_search td f ddir b;
       Some (failed, b, td, f)
     } else do {
       (good, r, b, td) \<leftarrow> rand_tries osr f lastb 5 0 b td;
       if good then Some (False, b, td, f\<lparr>f_failed_rands := 0\<rparr>)
       else do {
         (good, b, td, f) \<leftarrow> lookup_tries osr ddir 10 r b td (count_failed f);
         if good then Some (False, b, td, f)
         else do {
           (failed, b, f) \<leftarrow> exhaustive_search td (f\<lparr>f_last_free_lookup := 0\<rparr>) ddir b;
           Some (failed, b, td, f)
         }
       }
     }
   }"

definition get_next_rand_block :: "os_random \<Rightarrow> 'd thread_data \<Rightarrow> fio_file \<Rightarrow> fio_ddir \<Rightarrow> u64 \<Rightarrow> (bool \<times> u64 \<times> 'd thread_data \<times> fio_file) option" where
  "get_next_rand_block osr td f ddir b = do {
     (failed, b, td, f) \<leftarrow> get_next_rand_offset osr td f ddir b;
     if \<not> failed then Some (False, b, td, f)
     else if o_time_based (td_o td) then
       get_next_rand_offset osr td (fio_file_reset (td_io_hist_len td) f) ddir b
     else Some (True, b, td, f)
   }"

section \<open>Sequential offsets\<close>

definition get_next_seq_offset :: "'d thread_data \<Rightarrow> fio_file \<Rightarrow> fio_ddir \<Rightarrow> u64 \<Rightarrow> (bool \<times> u64 \<times> fio_file) option" where
  "get_next_seq_offset td f ddir offset =
     (if \<not> ddir_rw ddir then None
      else let f = (if f_last_pos f \<ge> f_io_size f \<and> o_time_based (td_o td) then f\<lparr>f_last_pos := f_last_pos f - f_io_size f\<rparr> else f)
           in if f_last_pos f < f_real_file_size f then
                let f = (if f_last_pos f = f_file_offset f \<and> o_ddir_seq_add (td_o td) < 0 then f\<lparr>f_last_pos := f_real_file_size f\<rparr> else f);
                    pos = f_last_pos f - f_file_offset f;
                    pos = (if pos \<noteq> 0 then pos + word_of_int (o_ddir_seq_add (td_o td)) else pos)
                in Some (False, pos, f)
              else Some (True, offset, f))"

section \<open>The next offset\<close>

definition get_next_block ::
  "os_random \<Rightarrow> 'd thread_data \<Rightarrow> io_u \<Rightarrow> fio_file \<Rightarrow> fio_ddir \<Rightarrow> bool \<Rightarrow> (bool \<times> io_u \<times> 'd thread_data \<times> fio_file) option" where
  "get_next_block osr td io_u f ddir rw_seq =
     (if \<not> ddir_rw ddir then None
      else do {
        (failed, b, offset, io_u, td, f) \<leftarrow>
          (if rw_seq then
             if td_random td then do {
               (failed, b, td, f) \<leftarrow> get_next_rand_block osr td f ddir (- 1);
               Some (failed, b, - 1, io_u, td, f)
             } else do {
               (failed, offset, f) \<leftarrow> get_next_seq_offset td f ddir (- 1);
               Some (failed, - 1, offset, io_u, td, f)
             }
           else do {
             let io_u = io_u\<lparr>u_busy_ok := True\<rparr>;
             (case o_rw_seq (td_o td) of
                RW_SEQ_SEQ \<Rightarrow> do {
                  (failed, offset, f) \<leftarrow> get_next_seq_offset td f ddir (- 1);
                  if failed then do {
                    (failed, b, td, f) \<leftarrow> get_next_rand_block osr td f ddir (- 1);
                    Some (failed, b, offset, io_u, td, f)
                  } else Some (failed, - 1, offset, io_u, td, f)
                }
              | RW_SEQ_IDENT \<Rightarrow>
                  Some (False, - 1, (if f_last_start f \<noteq> - 1 then f_last_start f - f_file_offset f else 0), io_u, td, f)
              | RW_SEQ_OTHER \<Rightarrow> Some (True, - 1, - 1, io_u, td, f))
           });
        if failed then Some (True, io_u, td, f)
        else if offset \<noteq> - 1 then Some (False, io_u\<lparr>u_offset := offset\<rparr>, td, f)
        else if b \<noteq> - 1 then Some (False, io_u\<lparr>u_offset := b * ucast (at2 (o_ba (td_o td)) ddir)\<rparr>, td, f)
        else Some (True, io_u, td, f)
      })"

definition get_next_offset1 :: "os_random \<Rightarrow> 'd thread_data \<Rightarrow> io_u \<Rightarrow> fio_file \<Rightarrow> (bool \<times> io_u \<times> 'd thread_data \<times> fio_file) option" where
  "get_next_offset1 osr td io_u f =
     (if \<not> ddir_rw (u_ddir io_u) then None
      else do {
        let td = (if o_ddir_seq_nr (td_o td) \<noteq> 0 then td\<lparr>td_ddir_seq_nr := td_ddir_seq_nr td - 1\<rparr> else td);
        let rw_seq_hit = (o_ddir_seq_nr (td_o td) \<noteq> 0 \<and> td_ddir_seq_nr td = 0);
        let td = (if rw_seq_hit then td\<lparr>td_ddir_seq_nr := o_ddir_seq_nr (td_o td)\<rparr> else td);
        (failed, io_u, td, f) \<leftarrow> get_next_block osr td io_u f (u_ddir io_u) rw_seq_hit;
        if failed then Some (True, io_u, td, f)
        else if u_offset io_u \<ge> f_io_size f then Some (True, io_u, td, f)
        else let io_u = io_u\<lparr>u_offset := u_offset io_u + f_file_offset f\<rparr>
             in Some (u_offset io_u \<ge> f_real_file_size f, io_u, td, f)
      })"

text \<open>A profile may bring its own functions for the offset and for the length; they are parameters.\<close>

type_synonym 'd offset_hook = "'d thread_data \<Rightarrow> io_u \<Rightarrow> fio_file \<Rightarrow> (bool \<times> io_u \<times> 'd thread_data \<times> fio_file) option"
type_synonym 'd size_hook = "'d thread_data \<Rightarrow> io_u \<Rightarrow> fio_file \<Rightarrow> (u32 \<times> 'd thread_data) option"

definition get_next_offset :: "'d offset_hook option \<Rightarrow> os_random \<Rightarrow> 'd thread_data \<Rightarrow> io_u \<Rightarrow> fio_file \<Rightarrow> (bool \<times> io_u \<times> 'd thread_data \<times> fio_file) option" where
  "get_next_offset fill_io_u_off osr td io_u f =
     (case fill_io_u_off of Some h \<Rightarrow> h td io_u f | None \<Rightarrow> get_next_offset1 osr td io_u f)"

section \<open>The next length\<close>

definition io_u_fits :: "'d thread_data \<Rightarrow> io_u \<Rightarrow> fio_file \<Rightarrow> u32 \<Rightarrow> bool" where
  "io_u_fits td io_u f buflen \<longleftrightarrow> u_offset io_u + ucast buflen \<le> f_io_size f + o_start_offset (td_o td)"

fun pick_split :: "'d thread_data \<Rightarrow> io_u \<Rightarrow> fio_file \<Rightarrow> u64 \<Rightarrow> u64 \<Rightarrow> u64 \<Rightarrow> u32 \<Rightarrow> (u32 \<times> u8) list \<Rightarrow> u32" where
  "pick_split td io_u f rmax r perc buflen [] = buflen"
| "pick_split td io_u f rmax r perc buflen ((bs, p) # bssplit) =
     (let buflen = bs; perc = perc + ucast p
      in if r \<le> (rmax div 100) * perc \<and> io_u_fits td io_u f buflen then buflen
         else pick_split td io_u f rmax r perc buflen bssplit)"

definition align_buflen :: "'d thread_data \<Rightarrow> u32 \<Rightarrow> u32 \<Rightarrow> u32" where
  "align_buflen td minbs buflen =
     (if \<not> o_bs_unaligned (td_o td) \<and> is_power_of_2 minbs then (buflen + minbs - 1) AND NOT (minbs - 1) else buflen)"

definition draw_buflen :: "os_random \<Rightarrow> 'd thread_data \<Rightarrow> io_u \<Rightarrow> fio_file \<Rightarrow> u32 \<Rightarrow> u32 \<Rightarrow> u32 \<times> 'd thread_data" where
  "draw_buflen osr td io_u f minbs maxbs =
     (let os = o_use_os_rand (td_o td); (r, st) = next_rand osr os (td_bsrange_state td);
          split = at2 (o_bssplit (td_o td)) (u_ddir io_u);
          buflen = (if split = [] then
                      let b = 1 + of_nat (scale_rand (unat maxbs) os r) in if b < minbs then minbs else b
                    else pick_split td io_u f (rand_max os) r 0 0 split)
      in (align_buflen td minbs buflen, td\<lparr>td_bsrange_state := st\<rparr>))"

partial_function (option) buflen_loop :: "os_random \<Rightarrow> 'd thread_data \<Rightarrow> io_u \<Rightarrow> fio_file \<Rightarrow> u32 \<Rightarrow> u32 \<Rightarrow> (u32 \<times> 'd thread_data) option" where
  "buflen_loop osr td io_u f minbs maxbs =
     (let (buflen, td) = draw_buflen osr td io_u f minbs maxbs
      in if io_u_fits td io_u f buflen then Some (buflen, td) else buflen_loop osr td io_u f minbs maxbs)"

definition get_next_buflen1 :: "os_random \<Rightarrow> 'd thread_data \<Rightarrow> io_u \<Rightarrow> fio_file \<Rightarrow> (u32 \<times> 'd thread_data) option" where
  "get_next_buflen1 osr td io_u f =
     (if \<not> ddir_rw (u_ddir io_u) then None
      else let minbs = at2 (o_min_bs (td_o td)) (u_ddir io_u); maxbs = at2 (o_max_bs (td_o td)) (u_ddir io_u)
           in if minbs = maxbs then Some (minbs, td)
              else if \<not> io_u_fits td io_u f minbs then Some (0, td)
              else do {
                (buflen, td) \<leftarrow> buflen_loop osr td io_u f minbs maxbs;
                if minbs = 0 then None else Some (buflen div minbs * minbs, td)
              })"

definition get_next_buflen :: "'d size_hook option \<Rightarrow> os_random \<Rightarrow> 'd thread_data \<Rightarrow> io_u \<Rightarrow> fio_file \<Rightarrow> (u32 \<times> 'd thread_data) option" where
  "get_next_buflen fill_io_u_size osr td io_u f =
     (case fill_io_u_size of Some h \<Rightarrow> h td io_u f | None \<Rightarrow> get_next_buflen1 osr td io_u f)"

end
