(* ===== verification/Io_Map.thy ===== *)
theory Io_Map
  imports Io_Offset
begin

text \<open>
  What the random map promises: the blocks it hands out were free and are marked afterwards, and the
  search for a free block fails only when every block has been handed out.
\<close>

section \<open>The map as a set of blocks\<close>

definition marked :: "fio_file \<Rightarrow> nat \<Rightarrow> bool" where
  "marked f b \<longleftrightarrow> (case f_file_map f of None \<Rightarrow> False | Some m \<Rightarrow> b div 64 < length m \<and> bit (m ! (b div 64)) (b mod 64))"

definition map_ok :: "fio_file \<Rightarrow> bool" where
  "map_ok f \<longleftrightarrow> (\<exists>m. f_file_map f = Some m \<and> length m = unat (f_num_maps f)) \<and> unat (f_num_maps f) \<le> 2 ^ 32"

lemma unat_div_64: "unat ((b :: u64) div 64) = unat b div 64"
  by (simp add: unat_div)

lemma idx_eq: "unat b < 64 * n \<Longrightarrow> n \<le> 2 ^ 32 \<Longrightarrow> unat (RAND_MAP_IDX b) = unat b div 64"
  unfolding RAND_MAP_IDX_def unat_div_64[symmetric]
  by (rule unat_ucast_small) (simp add: unat_div_64)

lemma bit_eq: "RAND_MAP_BIT b = unat b mod 64"
proof -
  have "b AND 63 = take_bit 6 b" by (simp add: take_bit_eq_mask mask_numeral)
  hence "RAND_MAP_BIT b = take_bit 6 (unat b)" by (simp only: RAND_MAP_BIT_def unsigned_take_bit_eq)
  thus ?thesis by (simp add: take_bit_eq_mod)
qed

lemma bit_block_mask:
  assumes "k + n \<le> 64" "0 < n" "j < 64"
  shows "bit (block_mask n k) j \<longleftrightarrow> k \<le> j \<and> j < k + n"
proof (cases "n = 64")
  case True
  thus ?thesis using assms by (simp add: block_mask_def)
next
  case False
  have "push_bit n (1 :: u64) - 1 = mask n" by (simp add: mask_eq_exp_minus_1 push_bit_eq_mult)
  thus ?thesis using False assms by (auto simp: block_mask_def bit_push_bit_iff bit_mask_iff)
qed

lemma and_mask_zero:
  assumes "k + n \<le> 64" "0 < n"
  shows "w AND block_mask n k = 0 \<longleftrightarrow> (\<forall>j. k \<le> j \<and> j < k + n \<longrightarrow> \<not> bit w j)"
proof -
  have "w AND block_mask n k = 0 \<longleftrightarrow> (\<forall>j < 64. \<not> (bit w j \<and> bit (block_mask n k) j))"
  proof
    assume "\<forall>j < 64. \<not> (bit w j \<and> bit (block_mask n k) j)"
    thus "w AND block_mask n k = 0" by (intro bit_word_eqI) (simp add: bit_and_iff)
  next
    assume z: "w AND block_mask n k = 0"
    have "\<not> bit (w AND block_mask n k) j" for j unfolding z by simp
    thus "\<forall>j < 64. \<not> (bit w j \<and> bit (block_mask n k) j)" by (simp add: bit_and_iff)
  qed
  thus ?thesis using assms bit_block_mask[OF assms] by (auto dest: less_le_trans)
qed

lemma shrink_blocks_free:
  assumes "k + n \<le> 64"
  shows "(\<forall>j < shrink_blocks w k n. \<not> bit w (k + j)) \<and> (shrink_blocks w k n < n \<longrightarrow> bit w (k + shrink_blocks w k n))"
  using assms
proof (induction n)
  case (Suc n)
  show ?case
  proof (cases "w AND block_mask (Suc n) k = 0")
    case True
    hence "\<forall>j. k \<le> j \<and> j < k + Suc n \<longrightarrow> \<not> bit w j" using and_mask_zero[OF Suc.prems] by simp
    thus ?thesis using True by simp
  next
    case False
    then obtain j where j: "k \<le> j" "j < k + Suc n" "bit w j" using and_mask_zero[OF Suc.prems] by auto
    let ?m = "shrink_blocks w k n"
    have IH: "\<forall>j < ?m. \<not> bit w (k + j)" "?m < n \<longrightarrow> bit w (k + ?m)" using Suc by auto
    have "bit w (k + ?m)"
    proof (cases "?m < n")
      case f: False
      hence m: "?m = n" using shrink_blocks_le[of w k n] by simp
      have "j - k = n"
      proof (rule ccontr)
        assume "j - k \<noteq> n"
        hence "j - k < ?m" using j m by simp
        thus False using IH(1) j by (metis le_add_diff_inverse)
      qed
      thus ?thesis using j m by auto
    qed (use IH in simp)
    thus ?thesis using False IH(1) by simp
  qed
qed simp

section \<open>Marking\<close>

lemma map_word_ok: "map_ok f \<Longrightarrow> i < unat (f_num_maps f) \<Longrightarrow> \<exists>w. map_word f i = Some w"
  by (auto simp: map_ok_def map_word_def)

lemma marked_word: "map_word f (b div 64) = Some w \<Longrightarrow> marked f b \<longleftrightarrow> bit w (b mod 64)"
  by (auto simp: map_word_def marked_def arr_get_def split: option.splits if_splits)

lemma random_map_free_eq:
  assumes "map_ok f" "unat b < 64 * unat (f_num_maps f)"
  shows "random_map_free f b = Some (\<not> marked f (unat b))"
proof -
  have i: "unat (RAND_MAP_IDX b) = unat b div 64" using assms by (intro idx_eq) (auto simp: map_ok_def)
  have "unat b div 64 < unat (f_num_maps f)" using assms(2) by (simp add: less_mult_imp_div_less mult.commute)
  then obtain w where w: "map_word f (unat b div 64) = Some w" using map_word_ok assms(1) by blast
  have "w AND push_bit (unat b mod 64) 1 = 0 \<longleftrightarrow> \<not> bit w (unat b mod 64)"
    by (simp add: bit_iff_and_push_bit_not_eq_0)
  thus ?thesis using w i marked_word[OF w] by (simp add: random_map_free_def bit_eq)
qed

lemma marked_set_word:
  assumes "map_word f i = Some w"
  shows "marked (set_map_word f i w') b \<longleftrightarrow> (if b div 64 = i then bit w' (b mod 64) else marked f b)"
  using assms by (auto simp: map_word_def marked_def set_map_word_def arr_get_def split: option.splits if_splits)

lemma map_ok_set_word [simp]: "map_ok (set_map_word f i w) = map_ok f"
  by (auto simp: map_ok_def set_map_word_def split: option.splits)

lemma set_word_fields [simp]: "f_num_maps (set_map_word f i w) = f_num_maps f"
  by (simp add: set_map_word_def)

text \<open>Setting a run of blocks inside one word.\<close>

lemma marked_run:
  assumes "map_word f (b div 64) = Some w" "b mod 64 + n \<le> 64" "0 < n"
  shows "marked (set_map_word f (b div 64) (w OR block_mask n (b mod 64))) x \<longleftrightarrow> marked f x \<or> b \<le> x \<and> x < b + n"
proof (cases "x div 64 = b div 64")
  case True
  have bx: "b = 64 * (x div 64) + b mod 64" "x = 64 * (x div 64) + x mod 64" using True by (metis div_mult_mod_eq mult.commute)+
  have "bit (block_mask n (b mod 64)) (x mod 64) \<longleftrightarrow> b mod 64 \<le> x mod 64 \<and> x mod 64 < b mod 64 + n"
    by (rule bit_block_mask) (use assms in auto)
  also have "\<dots> \<longleftrightarrow> b \<le> x \<and> x < b + n" using bx by linarith
  finally have m: "bit (block_mask n (b mod 64)) (x mod 64) \<longleftrightarrow> b \<le> x \<and> x < b + n" .
  have "map_word f (x div 64) = Some w" using assms(1) True by simp
  from marked_word[OF this] show ?thesis
    unfolding marked_set_word[OF assms(1)] using True m by (simp add: bit_or_iff)
next
  case False
  have "\<not> (b \<le> x \<and> x < b + n)"
  proof
    assume x: "b \<le> x \<and> x < b + n"
    have "b + n \<le> 64 * (b div 64) + 64" using assms(2) div_mult_mod_eq[of b 64] by linarith
    hence "x < 64 * (b div 64 + 1)" "64 * (b div 64) \<le> x" using x by auto
    hence "x div 64 = b div 64" by (intro div_nat_eqI) auto
    thus False using False by simp
  qed
  thus ?thesis unfolding marked_set_word[OF assms(1)] using False by auto
qed

lemma marked_offset:
  assumes "map_word f (b div 64) = Some w" "b mod 64 + j < 64"
  shows "marked f (b + j) \<longleftrightarrow> bit w (b mod 64 + j)"
proof -
  note b = div_mult_mod_eq[of b 64]
  have d: "(b + j) div 64 = b div 64" by (rule div_nat_eqI) (use assms(2) b in \<open>simp_all add: algebra_simps, linarith\<close>)
  hence "(b + j) mod 64 = b mod 64 + j" using b div_mult_mod_eq[of "b + j" 64] by linarith
  thus ?thesis using marked_word[of f "b + j" w] assms(1) d by simp
qed

text \<open>One round of the loop: the run it takes is free, and it takes none only when the first block is marked.\<close>

lemma run_free:
  fixes b nr :: nat
  defines "t0 \<equiv> (if nr + b mod 64 > BLOCKS_PER_MAP then BLOCKS_PER_MAP - b mod 64 else nr)"
  assumes "map_word f (b div 64) = Some w" "0 < nr"
  shows "shrink_blocks w (b mod 64) t0 \<le> nr"
    and "b mod 64 + shrink_blocks w (b mod 64) t0 \<le> 64"
    and "\<forall>j < shrink_blocks w (b mod 64) t0. \<not> marked f (b + j)"
    and "shrink_blocks w (b mod 64) t0 = 0 \<Longrightarrow> marked f b"
proof -
  have t0: "b mod 64 + t0 \<le> 64" "0 < t0" "t0 \<le> nr" using assms(3) by (auto simp: t0_def)
  show le: "shrink_blocks w (b mod 64) t0 \<le> nr" "b mod 64 + shrink_blocks w (b mod 64) t0 \<le> 64"
    using shrink_blocks_le[of w "b mod 64" t0] t0 by linarith+
  show "\<forall>j < shrink_blocks w (b mod 64) t0. \<not> marked f (b + j)"
    using shrink_blocks_free[OF t0(1), of w] le(2) marked_offset[OF assms(2)] by auto
  assume "shrink_blocks w (b mod 64) t0 = 0"
  thus "marked f b" using shrink_blocks_free[OF t0(1), of w] t0(2) marked_word[OF assms(2)] by auto
qed

lemma mark_random_loop_step:
  fixes block :: u64
  assumes "map_ok f" "unat block + nr \<le> 64 * unat (f_num_maps f)" "0 < nr"
  obtains "mark_random_loop True s f nr k block = Some (k, f)" "marked f (unat block)"
  | t f1 where "0 < t" "t \<le> nr" "unat (block + of_nat t) = unat block + t" "map_ok f1" "\<exists>m. f1 = f\<lparr>f_file_map := m\<rparr>"
      "\<forall>j < t. \<not> marked f (unat block + j)" "\<forall>x. marked f1 x \<longleftrightarrow> marked f x \<or> unat block \<le> x \<and> x < unat block + t"
      "mark_random_loop True s f nr k block = mark_random_loop True s f1 (nr - t) (k + t) (block + of_nat t)"
proof -
  let ?B = "unat block"
  have inb: "?B < 64 * unat (f_num_maps f)" using assms by simp
  have i: "unat (RAND_MAP_IDX block) = ?B div 64" using assms(1) inb by (intro idx_eq) (auto simp: map_ok_def)
  have lt: "?B div 64 < unat (f_num_maps f)" using inb by (simp add: less_mult_imp_div_less mult.commute)
  then obtain w where w: "map_word f (?B div 64) = Some w" using map_word_ok assms(1) by blast
  have guard: "ucast (RAND_MAP_IDX block) < f_num_maps f"
    using lt i by (simp add: word_less_nat_alt unsigned_ucast_eq le_less_trans[OF take_bit_nat_less_eq_self])
  have free: "random_map_free f block = Some (\<not> marked f ?B)" by (rule random_map_free_eq) (use assms inb in auto)
  define t where "t = shrink_blocks w (?B mod 64) (if nr + ?B mod 64 > BLOCKS_PER_MAP then BLOCKS_PER_MAP - ?B mod 64 else nr)"
  note run = run_free[OF w assms(3), folded t_def]
  let ?f1 = "set_map_word f (?B div 64) (w OR block_mask t (?B mod 64))"
  have eq: "mark_random_loop True s f nr k block =
      (if s \<and> marked f ?B then Some (k, f) else if t = 0 then Some (k, f) else mark_random_loop True s ?f1 (nr - t) (k + t) (block + of_nat t))"
    using assms(3) by (subst mark_random_loop.simps) (simp add: free guard i w bit_eq t_def[symmetric])
  show thesis
  proof (cases "t = 0")
    case True
    show thesis by (rule that(1)) (use eq run(4) True in auto)
  next
    case False
    hence nm: "\<not> marked f ?B" using run(3) by (metis add.right_neutral neq0_conv)
    have "?B + t < 2 ^ 64" using assms(1,2) run(1) by (simp add: map_ok_def)
    hence "unat (block + of_nat t) = ?B + t"
      by (subst unat_plus_simple[THEN iffD1]) (auto simp: word_le_nat_alt unat_word_ariths unat_of_nat)
    moreover have "\<exists>m. ?f1 = f\<lparr>f_file_map := m\<rparr>" by (auto simp: set_map_word_def)
    ultimately show thesis
      by (intro that(2)[of t ?f1]) (use False nm eq run marked_run[OF w run(2)] assms(1) in auto)
  qed
qed

lemma mark_random_loop_exact:
  assumes "map_ok f" "unat block + nr \<le> 64 * unat (f_num_maps f)"
  shows "\<exists>n f'. mark_random_loop True s f nr k block = Some (k + n, f') \<and> n \<le> nr \<and>
    (\<forall>i < n. \<not> marked f (unat block + i)) \<and> (n < nr \<longrightarrow> marked f (unat block + n)) \<and>
    (\<forall>x. marked f' x \<longleftrightarrow> marked f x \<or> unat block \<le> x \<and> x < unat block + n) \<and>
    map_ok f' \<and> (\<exists>m. f' = f\<lparr>f_file_map := m\<rparr>)"
  using assms
proof (induction nr arbitrary: f k block rule: less_induct)
  case (less nr)
  let ?B = "unat block"
  have triv: "\<exists>m. f = f\<lparr>f_file_map := m\<rparr>" by (rule exI[of _ "f_file_map f"]) simp
  show ?case
  proof (cases "nr = 0")
    case True
    thus ?thesis using less.prems triv by (subst mark_random_loop.simps) (auto intro!: exI[of _ 0])
  next
    case False
    hence "0 < nr" by simp
    from mark_random_loop_step[OF less.prems this, of s k] show ?thesis
    proof cases
      case 1
      thus ?thesis using less.prems triv by (intro exI[of _ 0] exI[of _ f]) auto
    next
      case (2 t f1)
      then obtain m where m: "f1 = f\<lparr>f_file_map := m\<rparr>" by blast
      have "unat (block + of_nat t) + (nr - t) \<le> 64 * unat (f_num_maps f1)" using less.prems(2) 2(2,3) m by simp
      from less.IH[OF _ 2(4) this, of "k + t"] 2(1) \<open>0 < nr\<close> obtain n f' where
        n: "mark_random_loop True s f1 (nr - t) (k + t) (block + of_nat t) = Some (k + t + n, f')" "n \<le> nr - t"
        and fr: "\<forall>i < n. \<not> marked f1 (?B + t + i)" and st: "n < nr - t \<longrightarrow> marked f1 (?B + t + n)"
        and mk: "\<forall>x. marked f' x \<longleftrightarrow> marked f1 x \<or> ?B + t \<le> x \<and> x < ?B + t + n"
        and ok: "map_ok f'" "\<exists>m. f' = f1\<lparr>f_file_map := m\<rparr>" unfolding 2(3) by auto
      have "\<forall>i < t + n. \<not> marked f (?B + i)"
      proof (intro allI impI)
        fix i assume "i < t + n"
        thus "\<not> marked f (?B + i)" using 2(6) fr[rule_format, of "i - t"] 2(7) by (cases "i < t") auto
      qed
      moreover have "t + n < nr \<longrightarrow> marked f (?B + (t + n))" using st 2(7) by (auto simp: add.assoc)
      ultimately show ?thesis using n ok mk 2(2,7,8) m
        by (intro exI[of _ "t + n"] exI[of _ f']) (auto simp: add.assoc)
    qed
  qed
qed

lemma unat_u32_u64: "unat (ucast (x :: u32) :: u64) = unat x"
  by (rule unat_ucast_small) (use unat_lt[of x] in simp)

lemma unat_u64: "n < 2 ^ 64 \<Longrightarrow> unat (of_nat n :: u64) = n"
  by (simp add: unat_of_nat take_bit_nat_eq_self_iff)

lemma blocks_of_eq:
  assumes "min_bs \<noteq> 0" "unat buflen + unat min_bs < 2 ^ 32"
  shows "blocks_of buflen min_bs = (unat buflen + unat min_bs - 1) div unat min_bs"
proof -
  have "unat (buflen + ucast min_bs - 1) = unat buflen + unat min_bs - 1"
    using assms by (simp add: unat_u32_u64 unat_word_ariths unat_gt_0 unat_sub_if' word_le_nat_alt Suc_leI)
  hence "unat ((buflen + ucast min_bs - 1) div ucast min_bs) = (unat buflen + unat min_bs - 1) div unat min_bs"
    by (simp add: unat_div unat_u32_u64)
  moreover have "(unat buflen + unat min_bs - 1) div unat min_bs < 2 ^ 32"
    using assms(2) by (intro le_less_trans[OF div_le_dividend]) simp
  ultimately show ?thesis unfolding blocks_of_def by (subst unat_ucast_small) simp_all
qed

text \<open>The blocks an I/O unit covers, by their first block and their number.\<close>

definition first_block :: "'d thread_data \<Rightarrow> io_u \<Rightarrow> fio_file \<Rightarrow> nat" where
  "first_block td io_u f = unat (u_offset io_u - f_file_offset f) div unat (o_rwmin (td_o td))"

definition covered_blocks :: "'d thread_data \<Rightarrow> io_u \<Rightarrow> nat" where
  "covered_blocks td io_u = (unat (u_buflen io_u) + unat (o_rwmin (td_o td)) - 1) div unat (o_rwmin (td_o td))"

text \<open>C: Marking an I/O unit in the random map takes exactly the longest run of free blocks at its start:
  all of them were free, the block after them was marked if the run is shorter than the unit, nothing
  else of the map changes, and the length of the unit is cut to the run.\<close>

theorem mark_random_map_exact:
  assumes "map_ok f" "o_rwmin (td_o td) \<noteq> 0" "\<not> u_busy_ok io_u"
    and "unat (u_buflen io_u) + unat (o_rwmin (td_o td)) < 2 ^ 32"
    and "first_block td io_u f + covered_blocks td io_u \<le> 64 * unat (f_num_maps f)"
  shows "\<exists>n f'. mark_random_map td io_u f = Some (io_u\<lparr>u_buflen := min (u_buflen io_u) (of_nat (n * unat (o_rwmin (td_o td))))\<rparr>, f') \<and>
    n \<le> covered_blocks td io_u \<and> (\<forall>i < n. \<not> marked f (first_block td io_u f + i)) \<and>
    (n < covered_blocks td io_u \<longrightarrow> marked f (first_block td io_u f + n)) \<and> map_ok f' \<and>
    (\<forall>x. marked f' x \<longleftrightarrow> marked f x \<or> first_block td io_u f \<le> x \<and> x < first_block td io_u f + n)"
proof -
  let ?m = "o_rwmin (td_o td)" and ?b = "(u_offset io_u - f_file_offset f) div ucast (o_rwmin (td_o td))"
  have B: "unat ?b = first_block td io_u f" by (simp add: first_block_def unat_div unat_u32_u64)
  have N: "blocks_of (u_buflen io_u) ?m = covered_blocks td io_u" using assms by (simp add: blocks_of_eq covered_blocks_def)
  from mark_random_loop_exact[of f ?b "covered_blocks td io_u" "o_ddir_seq_nr (td_o td) = 1" 0, unfolded B, OF assms(1,5)]
  obtain n f' where l: "mark_random_loop True (o_ddir_seq_nr (td_o td) = 1) f (covered_blocks td io_u) 0 ?b = Some (n, f')"
    and n: "n \<le> covered_blocks td io_u" and r: "\<forall>i < n. \<not> marked f (first_block td io_u f + i)"
      "n < covered_blocks td io_u \<longrightarrow> marked f (first_block td io_u f + n)" "map_ok f'"
      "\<forall>x. marked f' x \<longleftrightarrow> marked f x \<or> first_block td io_u f \<le> x \<and> x < first_block td io_u f + n" by auto
  have "n * unat ?m \<le> unat (u_buflen io_u) + unat ?m - 1"
    using n unfolding covered_blocks_def by (metis div_times_less_eq_dividend le_trans mult_le_mono1)
  hence lt: "n * unat ?m < 2 ^ 32" using assms(4) by simp
  define L where "L = n * unat ?m"
  have "of_nat n * ?m = (of_nat L :: u32)" by (simp add: L_def)
  moreover have "unat (of_nat L :: u32) = L" using lt by (intro unat_u32) (simp add: L_def)
  ultimately have "unat (ucast (of_nat n * ?m) :: u64) = L" by (simp only: unat_u32_u64)
  hence len: "ucast (of_nat n * ?m) = (of_nat L :: u64)"
    using lt by (subst word_unat_eq_iff) (simp add: unat_of_nat take_bit_nat_eq_self L_def[symmetric])
  have "mark_random_map td io_u f = Some (io_u\<lparr>u_buflen := min (u_buflen io_u) (of_nat L)\<rparr>, f')"
    using assms(2,3) by (simp add: mark_random_map_def N l len min_def Let_def)
  thus ?thesis using n r unfolding L_def by blast
qed

definition map_file :: fio_file where
  "map_file = zero_file\<lparr>f_real_file_size := 64 * 512, f_io_size := 64 * 512, f_file_map := Some [0x20], f_num_maps := 1\<rparr>"

definition map_td :: "real thread_data" where
  "map_td = zero_td\<lparr>td_o := zero_options\<lparr>o_rwmin := 512, o_ba := (512, 512), o_td_ddir := 5\<rparr>\<rparr>"

theorem mark_random_map_exact_witness:
  "\<exists>n f'. mark_random_map map_td (zero_io_u\<lparr>u_offset := 1536, u_buflen := 2048\<rparr>) map_file =
      Some (zero_io_u\<lparr>u_offset := 1536, u_buflen := min 2048 (of_nat (n * 512))\<rparr>, f') \<and>
    n \<le> 4 \<and> (\<forall>i < n. \<not> marked map_file (3 + i)) \<and> (n < 4 \<longrightarrow> marked map_file (3 + n)) \<and> map_ok f' \<and>
    (\<forall>x. marked f' x \<longleftrightarrow> marked map_file x \<or> 3 \<le> x \<and> x < 3 + n)"
  using mark_random_map_exact[of map_file map_td "zero_io_u\<lparr>u_offset := 1536, u_buflen := 2048\<rparr>"]
  by (simp add: map_ok_def first_block_def covered_blocks_def map_file_def map_td_def zero_defs)

section \<open>Searching\<close>

text \<open>The map has a bit for every block of the file, as \<open>init_random_map\<close> sets it up.\<close>

definition file_blocks :: "u32 \<Rightarrow> fio_file \<Rightarrow> nat" where
  "file_blocks min_bs f = (unat (f_real_file_size f) + unat min_bs - 1) div unat min_bs"

definition map_sized :: "u32 \<Rightarrow> fio_file \<Rightarrow> bool" where
  "map_sized min_bs f \<longleftrightarrow> map_ok f \<and> min_bs \<noteq> 0 \<and> unat (f_real_file_size f) < 2 ^ 63 \<and>
     unat (f_num_maps f) = (file_blocks min_bs f + 63) div 64"

definition in_file :: "u32 \<Rightarrow> fio_file \<Rightarrow> nat \<Rightarrow> bool" where
  "in_file min_bs f b \<longleftrightarrow> b * unat min_bs < unat (f_real_file_size f) \<and> b * unat min_bs < unat (f_io_size f)"

lemma in_file_blocks:
  assumes "map_sized min_bs f" "in_file min_bs f (64 * i)"
  shows "i < unat (f_num_maps f)"
proof -
  have p: "0 < unat min_bs" using assms by (simp add: map_sized_def unat_gt_0)
  hence "(64 * i + 1) * unat min_bs \<le> unat (f_real_file_size f) + unat min_bs - 1"
    using assms(2) by (simp add: in_file_def algebra_simps) linarith
  hence "64 * i + 1 \<le> file_blocks min_bs f" unfolding file_blocks_def using p by (simp only: less_eq_div_iff_mult_less_eq)
  hence "(64 * i + 64) div 64 \<le> (file_blocks min_bs f + 63) div 64" by (intro div_le_mono) simp
  thus ?thesis using assms(1) by (simp add: map_sized_def)
qed

lemma map_end:
  assumes "map_sized min_bs f" "i \<le> unat (f_num_maps f)"
  shows "64 * i * unat min_bs < 2 ^ 64"
proof -
  have "64 * unat (f_num_maps f) \<le> file_blocks min_bs f + 63"
    using assms(1) div_times_less_eq_dividend[of "file_blocks min_bs f + 63" 64] by (simp add: map_sized_def mult.commute)
  hence "64 * i * unat min_bs \<le> (file_blocks min_bs f + 63) * unat min_bs"
    using assms(2) by (intro mult_le_mono1) linarith
  also have "\<dots> \<le> unat (f_real_file_size f) + 64 * unat min_bs"
    using div_times_less_eq_dividend[of "unat (f_real_file_size f) + unat min_bs - 1" "unat min_bs"]
    unfolding file_blocks_def add_mult_distrib by linarith
  also have "\<dots> < 2 ^ 64" using assms(1) unat_lt[of min_bs] by (simp add: map_sized_def)
  finally show ?thesis .
qed

lemma block_bound:
  assumes "map_sized min_bs f" "i \<le> unat (f_num_maps f)"
  shows "of_nat (64 * i) * ucast min_bs < f_real_file_size f \<and> of_nat (64 * i) * ucast min_bs < f_io_size f \<longleftrightarrow> in_file min_bs f (64 * i)"
proof -
  have "unat (of_nat (64 * i) * ucast min_bs :: u64) = unat (of_nat (64 * i * unat min_bs) :: u64)"
    by simp
  also have "\<dots> = 64 * i * unat min_bs" by (rule unat_u64) (use map_end[OF assms] in simp)
  finally show ?thesis by (simp add: in_file_def word_less_nat_alt)
qed

text \<open>What the search from word \<open>i\<close> of the map finds: the first free block, or nothing when every block
  from there to \<open>lastb\<close> whose word is in reach is marked.\<close>

definition found :: "u32 \<Rightarrow> u64 \<Rightarrow> fio_file \<Rightarrow> nat \<Rightarrow> bool \<Rightarrow> u64 \<Rightarrow> fio_file \<Rightarrow> bool" where
  "found min_bs lastb f i failed b f' \<longleftrightarrow>
     (if failed then f' = f \<and> (\<forall>x. 64 * i \<le> x \<and> x \<le> unat lastb \<and> in_file min_bs f (64 * (x div 64)) \<longrightarrow> marked f x)
      else b \<le> lastb \<and> \<not> marked f (unat b) \<and> in_file min_bs f (64 * (unat b div 64)) \<and> (\<forall>x. 64 * i \<le> x \<and> x < unat b \<longrightarrow> marked f x) \<and>
        (\<exists>j < unat (f_num_maps f). f' = f\<lparr>f_last_free_lookup := of_nat j\<rparr>))"

lemma in_file_mono: "in_file min_bs f x \<Longrightarrow> y \<le> x \<Longrightarrow> in_file min_bs f y"
  unfolding in_file_def using mult_le_mono1[of y x "unat min_bs"] by linarith

lemma word_full: "map_word f i = Some (- 1) \<Longrightarrow> 64 * i \<le> x \<Longrightarrow> x < 64 * Suc i \<Longrightarrow> marked f x"
  using marked_word[of f x "- 1"] div_nat_eqI[of 64 i x] by (simp add: mult.commute)

lemma free_block_step:
  fixes lastb b :: u64
  assumes "map_sized min_bs f" "i \<le> unat (f_num_maps f)"
  defines "nxt \<equiv> \<lambda>i. free_block_loop (ucast min_bs) lastb f i (of_nat (64 * i)) b"
  shows "\<not> in_file min_bs f (64 * i) \<Longrightarrow> nxt i = Some (True, b, f)"
    and "in_file min_bs f (64 * i) \<Longrightarrow> map_word f i = Some (- 1) \<Longrightarrow> nxt i = nxt (Suc i)"
    and "in_file min_bs f (64 * i) \<Longrightarrow> map_word f i = Some w \<Longrightarrow> w \<noteq> - 1 \<Longrightarrow>
      nxt i = (if of_nat (64 * i + ffz w) > lastb then Some (True, b, f)
                else Some (False, of_nat (64 * i + ffz w), f\<lparr>f_last_free_lookup := of_nat i\<rparr>))"
proof -
  note bound = block_bound[OF assms(1,2)]
  have eq: "nxt i = (if in_file min_bs f (64 * i) then do {
        w \<leftarrow> map_word f i;
        if w \<noteq> - 1 then
          let block = of_nat (64 * i) + of_nat (ffz w)
          in if block > lastb then Some (True, b, f)
             else Some (False, block, f\<lparr>f_last_free_lookup := of_nat i\<rparr>)
        else free_block_loop (ucast min_bs) lastb f (i + 1) (of_nat (64 * i) + 64) b
      } else Some (True, b, f))"
    unfolding nxt_def by (subst free_block_loop.simps) (simp only: bound)
  show "\<not> in_file min_bs f (64 * i) \<Longrightarrow> nxt i = Some (True, b, f)" by (simp add: eq)
  show "in_file min_bs f (64 * i) \<Longrightarrow> map_word f i = Some (- 1) \<Longrightarrow> nxt i = nxt (Suc i)"
    by (simp add: eq) (simp add: nxt_def algebra_simps)
  show "in_file min_bs f (64 * i) \<Longrightarrow> map_word f i = Some w \<Longrightarrow> w \<noteq> - 1 \<Longrightarrow>
      nxt i = (if of_nat (64 * i + ffz w) > lastb then Some (True, b, f)
                else Some (False, of_nat (64 * i + ffz w), f\<lparr>f_last_free_lookup := of_nat i\<rparr>))"
    by (simp add: eq Let_def)
qed

lemma first_free:
  assumes "map_ok f" "i < unat (f_num_maps f)" "map_word f i = Some w" "w \<noteq> - 1"
  shows "unat (of_nat (64 * i + ffz w) :: u64) = 64 * i + ffz w" "\<not> marked f (64 * i + ffz w)" "(64 * i + ffz w) div 64 = i"
    and "64 * i \<le> x \<Longrightarrow> x < 64 * i + ffz w \<Longrightarrow> marked f x"
proof -
  note ffz = ffz_least[OF assms(4)]
  have off: "marked f (64 * i + j) = bit w j" if "j < 64" for j
    using marked_offset[of f "64 * i" w j] assms(3) that by simp
  show "unat (of_nat (64 * i + ffz w) :: u64) = 64 * i + ffz w"
    by (rule unat_u64) (use assms(1,2) ffz(1) in \<open>simp add: map_ok_def\<close>)
  show "\<not> marked f (64 * i + ffz w)" "(64 * i + ffz w) div 64 = i" using off ffz by auto
  assume "64 * i \<le> x" "x < 64 * i + ffz w"
  thus "marked f x" using off[of "x - 64 * i"] ffz(1) ffz(3)[of "x - 64 * i"] by simp
qed

lemma free_block_loop_finds:
  assumes "map_sized min_bs f" "i \<le> unat (f_num_maps f)"
  shows "\<exists>failed b' f'. free_block_loop (ucast min_bs) lastb f i (of_nat (64 * i)) b = Some (failed, b', f') \<and> found min_bs lastb f i failed b' f'"
  using assms(2)
proof (induction "unat (f_num_maps f) - i" arbitrary: i)
  case 0
  hence no: "\<not> in_file min_bs f (64 * i)" using in_file_blocks[OF assms(1)] by fastforce
  hence "\<forall>x. 64 * i \<le> x \<longrightarrow> \<not> in_file min_bs f (64 * (x div 64))" using in_file_mono by fastforce
  thus ?case using free_block_step(1)[OF assms(1) 0(2) no] by (auto simp: found_def)
next
  case (Suc n)
  note step = free_block_step[where lastb = lastb and b = b, OF assms(1) Suc(3)]
  have lt: "i < unat (f_num_maps f)" using Suc(2) by simp
  obtain w where w: "map_word f i = Some w" using map_word_ok[OF _ lt] assms(1) by (auto simp: map_sized_def)
  consider "\<not> in_file min_bs f (64 * i)" | "in_file min_bs f (64 * i)" "w = - 1" | "in_file min_bs f (64 * i)" "w \<noteq> - 1" by blast
  thus ?case
  proof cases
    case 1
    hence "\<forall>x. 64 * i \<le> x \<longrightarrow> \<not> in_file min_bs f (64 * (x div 64))" using in_file_mono by fastforce
    thus ?thesis using step(1) 1 by (auto simp: found_def)
  next
    case 2
    have "n = unat (f_num_maps f) - Suc i" "Suc i \<le> unat (f_num_maps f)" using Suc(2) lt by auto
    from Suc(1)[OF this] obtain failed b' f' where
      r: "free_block_loop (ucast min_bs) lastb f (Suc i) (of_nat (64 * Suc i)) b = Some (failed, b', f')" "found min_bs lastb f (Suc i) failed b' f'" by blast
    have "found min_bs lastb f i failed b' f'"
      using r(2) word_full[of f i] w 2(2) unfolding found_def by (metis linorder_not_less)
    thus ?thesis using step(2)[OF 2(1)] w 2(2) r(1) by auto
  next
    case 3
    note ff = first_free[OF _ lt w 3(2)]
    have ok: "map_ok f" using assms(1) by (simp add: map_sized_def)
    show ?thesis
    proof (cases "of_nat (64 * i + ffz w) > lastb")
      case True
      hence "unat lastb < 64 * i + ffz w" using ff(1)[OF ok] by (simp add: word_less_nat_alt)
      hence "found min_bs lastb f i True b f" using ff(4)[OF ok] by (auto simp: found_def)
      thus ?thesis using step(3)[OF 3(1) w 3(2)] True by auto
    next
      case False
      have "found min_bs lastb f i False (of_nat (64 * i + ffz w)) (f\<lparr>f_last_free_lookup := of_nat i\<rparr>)"
        unfolding found_def ff(1)[OF ok] ff(3)[OF ok] using ff(2,4)[OF ok] False 3(1) lt by auto
      thus ?thesis using step(3)[OF 3(1) w 3(2)] False by auto
    qed
  qed
qed

section \<open>Random blocks\<close>

lemma round53_le:
  assumes "n \<le> x * 2 ^ k" "x < 2 ^ 53"
  shows "round53 n \<le> x * 2 ^ k"
proof (cases "n < 2 ^ 53")
  case False
  define e where "e = nat_msb n - 52"
  have n: "0 < n" using False by (cases n) auto
  have "2 ^ nat_msb n \<le> x * 2 ^ k" using nat_msb_bounds[OF n] assms(1) by linarith
  also have "\<dots> < 2 ^ 53 * 2 ^ k" using assms(2) by (rule mult_strict_right_mono) simp
  finally have "(2 :: nat) ^ nat_msb n < 2 ^ (53 + k)" by (simp only: power_add)
  hence "nat_msb n < 53 + k" by (rule power_less_imp_less_exp[rotated]) simp
  hence ek: "e \<le> k" by (simp add: e_def)
  have x: "x * 2 ^ k = x * 2 ^ (k - e) * 2 ^ e" using power_add[of "2 :: nat" "k - e" e] ek by simp
  show ?thesis
  proof (cases "n mod 2 ^ e = 0")
    case True
    hence "round53 n = n div 2 ^ e * 2 ^ e" using False by (simp add: round53_def Let_def e_def)
    thus ?thesis using assms(1) div_times_less_eq_dividend[of n "2 ^ e"] by linarith
  next
    case f: False
    hence "n div 2 ^ e * 2 ^ e < n" using div_mult_mod_eq[of n "2 ^ e"] by linarith
    hence "n div 2 ^ e * 2 ^ e < x * 2 ^ (k - e) * 2 ^ e" using assms(1) x by linarith
    hence "n div 2 ^ e + 1 \<le> x * 2 ^ (k - e)" by (simp only: mult_less_cancel2) simp
    hence "(n div 2 ^ e + 1) * 2 ^ e \<le> x * 2 ^ k" unfolding x by (rule mult_le_mono1)
    moreover have "round53 n \<le> (n div 2 ^ e + 1) * 2 ^ e" using False by (auto simp: round53_def Let_def e_def)
    ultimately show ?thesis by linarith
  qed
qed (use assms in \<open>simp add: round53_def\<close>)

lemma scale_rand_le:
  assumes "x < 2 ^ 53" "r \<le> rand_max os"
  shows "scale_rand x os r \<le> x"
proof -
  obtain k where k: "unat (rand_max os) + 1 = 2 ^ k"
    by (cases os) (auto simp: rand_max_def OS_RAND_MAX_def FRAND_MAX_def intro: that[of 31] that[of 32])
  have "unat r \<le> 2 ^ k" using assms(2) k by (simp add: word_le_nat_alt)
  hence "round53 (x * unat r) \<le> x * 2 ^ k" using assms(1) by (intro round53_le) auto
  hence "round53 (x * unat r) div 2 ^ k \<le> x * 2 ^ k div 2 ^ k" by (rule div_le_mono)
  thus ?thesis using assms(1) by (simp add: scale_rand_def k[simplified] round53_def[of x])
qed

definition rand_ok :: "os_random \<Rightarrow> bool" where
  "rand_ok osr \<longleftrightarrow> (\<forall>s. fst (osr s) \<le> OS_RAND_MAX)"

lemma next_rand_le: "rand_ok osr \<Longrightarrow> fst (next_rand osr os st) \<le> rand_max os"
proof (cases os)
  case False
  have "unat (fst (c_rand (rs_frand st))) < 2 ^ 32" using unat_lt[of "fst (c_rand (rs_frand st))"] by simp
  thus ?thesis using False by (simp add: next_rand_def rand_max_def FRAND_MAX_def split_beta word_le_nat_alt unat_u32_u64)
qed (simp add: next_rand_def rand_ok_def rand_max_def split_beta)

lemma rand_block_less:
  assumes "rand_ok osr" "lastb \<noteq> 0" "unat lastb \<le> 2 ^ 53" "rand_block osr td lastb = (r, b, td')"
  shows "b < lastb" "r \<le> rand_max (o_use_os_rand (td_o td))" "td_o td' = td_o td"
proof -
  let ?os = "o_use_os_rand (td_o td)"
  have l: "unat (lastb - 1) + 1 = unat lastb" using assms(2) by (simp add: unat_minus_one unat_gt_0)
  have r: "r = fst (next_rand osr ?os (td_random_state td))" "b = of_nat (scale_rand (unat (lastb - 1)) ?os r)" "td_o td' = td_o td"
    using assms(4) by (auto simp: rand_block_def Let_def split_beta)
  show rl: "r \<le> rand_max ?os" unfolding r(1) by (rule next_rand_le[OF assms(1)])
  have "scale_rand (unat (lastb - 1)) ?os r \<le> unat (lastb - 1)" using l assms(3) rl by (intro scale_rand_le) auto
  moreover have "unat b \<le> scale_rand (unat (lastb - 1)) ?os r" unfolding r(2) by (simp add: unat_of_nat take_bit_nat_less_eq_self)
  ultimately show "b < lastb" using l unfolding word_less_nat_alt by linarith
  show "td_o td' = td_o td" by (rule r(3))
qed

text \<open>A file under the random map: the blocks below \<open>lastb\<close> have a bit, and the search may start anywhere.\<close>

definition map_ready :: "'d thread_data \<Rightarrow> u64 \<Rightarrow> fio_file \<Rightarrow> bool" where
  "map_ready td lastb f \<longleftrightarrow> map_sized (o_rwmin (td_o td)) f \<and> file_randommap td f \<and> \<not> o_again (td_o td) \<and> lastb \<noteq> 0 \<and>
     in_file (o_rwmin (td_o td)) f (unat lastb - 1) \<and> f_last_free_lookup f \<le> f_num_maps f"

lemma map_ready_td: "td_o td' = td_o td \<Longrightarrow> map_ready td' lastb f = map_ready td lastb f"
  by (simp add: map_ready_def file_randommap_def)

lemma last_block_td: "td_o td' = td_o td \<Longrightarrow> last_block td' f ddir = last_block td f ddir"
  by (simp add: last_block_def Let_def)

lemma map_ready_bound:
  assumes "map_ready td lastb f"
  shows "unat lastb \<le> 64 * unat (f_num_maps f)" "unat lastb \<le> 2 ^ 53"
proof -
  have "in_file (o_rwmin (td_o td)) f (64 * ((unat lastb - 1) div 64))"
    using assms by (auto simp: map_ready_def elim: in_file_mono)
  hence i: "(unat lastb - 1) div 64 < unat (f_num_maps f)" using assms by (intro in_file_blocks) (auto simp: map_ready_def)
  show l: "unat lastb \<le> 64 * unat (f_num_maps f)"
    using i div_mult_mod_eq[of "unat lastb - 1" 64] mod_less_divisor[of 64 "unat lastb - 1"] by linarith
  have "unat (f_num_maps f) \<le> 2 ^ 32" using assms by (simp add: map_ready_def map_sized_def map_ok_def)
  thus "unat lastb \<le> 2 ^ 53" using l by simp
qed

lemma rand_tries_free:
  assumes "rand_ok osr" "map_ready td lastb f" "r \<le> rand_max (o_use_os_rand (td_o td))"
  shows "\<exists>good r' b' td'. rand_tries osr f lastb n r b td = Some (good, r', b', td') \<and> td_o td' = td_o td \<and>
    r' \<le> rand_max (o_use_os_rand (td_o td)) \<and> (good \<longrightarrow> b' < lastb \<and> \<not> marked f (unat b'))"
  using assms(2,3)
proof (induction n arbitrary: r b td)
  case (Suc n)
  obtain r1 b1 td1 where rb: "rand_block osr td lastb = (r1, b1, td1)" by (metis prod_cases3)
  note l = rand_block_less[OF assms(1) _ _ rb]
  have l: "b1 < lastb" "r1 \<le> rand_max (o_use_os_rand (td_o td))" "td_o td1 = td_o td"
    using l map_ready_bound[OF Suc.prems(1)] Suc.prems(1) by (auto simp: map_ready_def)
  have "unat b1 < 64 * unat (f_num_maps f)" using map_ready_bound(1)[OF Suc.prems(1)] l(1) by (simp add: word_less_nat_alt)
  hence free: "random_map_free f b1 = Some (\<not> marked f (unat b1))"
    using Suc.prems(1) by (intro random_map_free_eq) (auto simp: map_ready_def map_sized_def)
  have "file_randommap td1 f" "\<not> o_again (td_o td1)" using Suc.prems(1) l(3) by (auto simp: map_ready_def file_randommap_def)
  moreover have "map_ready td1 lastb f" using Suc.prems(1) map_ready_td[OF l(3)] by simp
  ultimately show ?case using Suc.IH[of td1 r1 b1] l free rb by (cases "marked f (unat b1)") auto
qed auto

lemma get_next_free_block_finds:
  assumes "map_ready td lastb f" "last_block td f ddir = Some lastb"
  shows "\<exists>failed b' f'. get_next_free_block td f ddir b = Some (failed, b', f') \<and>
    found (o_rwmin (td_o td)) lastb f (unat (f_last_free_lookup f)) failed b' f'"
  using free_block_loop_finds[of "o_rwmin (td_o td)" f "unat (f_last_free_lookup f)" lastb b] assms
  by (simp add: get_next_free_block_def map_ready_def word_le_nat_alt mult.commute)

text \<open>The searches change nothing of the file but where the next one starts and how many have failed.\<close>

definition kept :: "fio_file \<Rightarrow> fio_file \<Rightarrow> bool" where
  "kept f f' \<longleftrightarrow> (\<exists>l k. f' = f\<lparr>f_last_free_lookup := l, f_failed_rands := k\<rparr> \<and> l \<le> f_num_maps f)"

lemma kept_facts:
  assumes "kept f f'"
  shows "marked f' x = marked f x" "in_file m f' = in_file m f" "last_block td f' ddir = last_block td f ddir"
    "map_ready td lastb f \<Longrightarrow> map_ready td lastb f'" "f_num_maps f' = f_num_maps f" "f_file_map f' = f_file_map f"
  using assms by (auto simp: kept_def marked_def in_file_def last_block_def map_ready_def map_sized_def map_ok_def file_blocks_def file_randommap_def Let_def fun_eq_iff)

lemma kept_trans: "kept f f' \<Longrightarrow> kept f' f'' \<Longrightarrow> kept f f''"
  unfolding kept_def by auto blast

lemma kept_lookup: "l \<le> f_num_maps f \<Longrightarrow> kept f (f\<lparr>f_last_free_lookup := l\<rparr>)"
  unfolding kept_def by (rule exI[of _ l], rule exI[of _ "f_failed_rands f"]) simp

lemma kept_rands: "f_last_free_lookup f \<le> f_num_maps f \<Longrightarrow> kept f (f\<lparr>f_failed_rands := k\<rparr>)"
  unfolding kept_def by (rule exI[of _ "f_last_free_lookup f"], rule exI[of _ k]) simp

lemma found_kept:
  assumes "found m lastb f i failed b f'" "f_last_free_lookup f \<le> f_num_maps f"
  shows "kept f f'" "\<not> failed \<Longrightarrow> b \<le> lastb \<and> \<not> marked f (unat b)"
proof -
  have "kept f f" using kept_lookup[OF assms(2)] by simp
  moreover have "of_nat j \<le> f_num_maps f" if "j < unat (f_num_maps f)" for j
    using that by (simp add: word_le_nat_alt unat_of_nat le_trans[OF take_bit_nat_less_eq_self])
  ultimately show "kept f f'" using assms(1) by (auto simp: found_def kept_lookup split: if_splits)
  show "\<not> failed \<Longrightarrow> b \<le> lastb \<and> \<not> marked f (unat b)" using assms(1) by (simp add: found_def)
qed

lemma lookup_tries_free:
  assumes "rand_ok osr" "map_ready td lastb f" "last_block td f ddir = Some lastb" "r \<le> rand_max (o_use_os_rand (td_o td))"
  shows "\<exists>good b' td' f'. lookup_tries osr ddir n r b td f = Some (good, b', td', f') \<and> td_o td' = td_o td \<and> kept f f' \<and>
    (good \<longrightarrow> b' \<le> lastb \<and> \<not> marked f (unat b'))"
  using assms(2,3,4)
proof (induction n arbitrary: r b td f)
  case 0
  thus ?case using kept_lookup[of "f_last_free_lookup f" f] by (auto simp: map_ready_def)
next
  case (Suc n)
  let ?os = "o_use_os_rand (td_o td)"
  let ?f1 = "f\<lparr>f_last_free_lookup := of_nat (scale_rand (unat (f_num_maps f - 1)) ?os r)\<rparr>"
  have pos: "f_num_maps f \<noteq> 0" using map_ready_bound(1)[OF Suc.prems(1)] Suc.prems(1) by (auto simp: map_ready_def unat_eq_0)
  hence m: "unat (f_num_maps f - 1) < unat (f_num_maps f)" by (simp add: unat_minus_one unat_gt_0)
  have "unat (f_num_maps f) \<le> 2 ^ 32" using Suc.prems(1) by (simp add: map_ready_def map_sized_def map_ok_def)
  hence "scale_rand (unat (f_num_maps f - 1)) ?os r \<le> unat (f_num_maps f - 1)"
    using m Suc.prems(3) by (intro scale_rand_le) auto
  hence k1: "kept f ?f1"
    using m by (intro kept_lookup) (simp add: word_le_nat_alt unat_of_nat le_trans[OF take_bit_nat_less_eq_self])
  note f1 = kept_facts[OF k1]
  obtain failed b1 f2 where g: "get_next_free_block td ?f1 ddir b = Some (failed, b1, f2)"
    "found (o_rwmin (td_o td)) lastb ?f1 (unat (f_last_free_lookup ?f1)) failed b1 f2"
    using get_next_free_block_finds[OF f1(4)[OF Suc.prems(1)]] f1(3)[of td ddir] Suc.prems(2) by metis
  have k2: "kept ?f1 f2" "\<not> failed \<Longrightarrow> b1 \<le> lastb \<and> \<not> marked f (unat b1)"
    using found_kept[OF g(2)] f1(1) f1(4)[OF Suc.prems(1)] by (auto simp: map_ready_def)
  have k: "kept f f2" by (rule kept_trans[OF k1 k2(1)])
  show ?case
  proof (cases failed)
    case True
    obtain r1 st where n: "next_rand osr ?os (td_random_state td) = (r1, st)" by fastforce
    hence r1: "r1 \<le> rand_max ?os" using next_rand_le[OF assms(1), of ?os "td_random_state td"] by simp
    have "map_ready (td\<lparr>td_random_state := st\<rparr>) lastb f2" "last_block (td\<lparr>td_random_state := st\<rparr>) f2 ddir = Some lastb"
      using kept_facts(3)[OF k, of td] kept_facts(4)[OF k, of td] Suc.prems map_ready_td[of "td\<lparr>td_random_state := st\<rparr>" td] last_block_td[of "td\<lparr>td_random_state := st\<rparr>" td] by auto
    from Suc.IH[OF this, of r1 b1] r1 obtain good b' td' f' where
      "lookup_tries osr ddir n r1 b1 (td\<lparr>td_random_state := st\<rparr>) f2 = Some (good, b', td', f')" "td_o td' = td_o td" "kept f2 f'"
      "good \<longrightarrow> b' \<le> lastb \<and> \<not> marked f2 (unat b')" by auto
    thus ?thesis using g(1) True n kept_trans[OF k] kept_facts(1)[OF k] by (auto simp: Let_def)
  next
    case False
    thus ?thesis using g(1) k k2(2) by (auto simp: Let_def)
  qed
qed

lemma exhaustive_search_covers:
  assumes "map_ready td lastb f" "last_block td f ddir = Some lastb"
  shows "\<exists>failed b' f'. exhaustive_search td f ddir b = Some (failed, b', f') \<and> kept f f' \<and>
    (if failed then \<forall>x < unat lastb. marked f x else b' \<le> lastb \<and> \<not> marked f (unat b'))"
proof -
  obtain failed b1 f1 where g: "get_next_free_block td f ddir b = Some (failed, b1, f1)"
    "found (o_rwmin (td_o td)) lastb f (unat (f_last_free_lookup f)) failed b1 f1" using get_next_free_block_finds[OF assms] by blast
  have k: "kept f f1" "\<not> failed \<Longrightarrow> b1 \<le> lastb \<and> \<not> marked f (unat b1)" using found_kept[OF g(2)] assms(1) by (auto simp: map_ready_def)
  show ?thesis
  proof (cases failed)
    case True
    let ?f2 = "f1\<lparr>f_last_free_lookup := 0\<rparr>"
    have k2: "kept f ?f2" using kept_trans[OF k(1) kept_lookup[of 0]] by simp
    note f2 = kept_facts[OF k2]
    obtain failed' b2 f3 where g2: "get_next_free_block td ?f2 ddir b1 = Some (failed', b2, f3)"
      "found (o_rwmin (td_o td)) lastb ?f2 0 failed' b2 f3"
      using get_next_free_block_finds[OF f2(4)[OF assms(1)]] f2(3)[of td ddir] assms(2) by fastforce
    have k3: "kept f f3" "\<not> failed' \<Longrightarrow> b2 \<le> lastb \<and> \<not> marked f (unat b2)"
      using found_kept[OF g2(2)] kept_trans[OF k2] f2(1) by auto
    have "marked f x" if "failed'" "x < unat lastb" for x
    proof -
      have "in_file (o_rwmin (td_o td)) f (64 * (x div 64))"
        using assms(1) that(2) by (auto simp: map_ready_def elim!: in_file_mono)
      thus ?thesis using g2(2) that f2(1,2) by (auto simp: found_def)
    qed
    thus ?thesis using g(1) g2(1) True k3 by (auto simp: exhaustive_search_def)
  qed (use g(1) k in \<open>auto simp: exhaustive_search_def\<close>)
qed

lemma last_block_ready:
  assumes "map_sized (o_rwmin (td_o td)) f" "file_randommap td f" "\<not> o_again (td_o td)" "o_zone_range (td_o td) = 0"
    and "o_rwmin (td_o td) \<le> at2 (o_ba (td_o td)) ddir" "f_last_free_lookup f \<le> f_num_maps f"
    and "last_block td f ddir = Some lastb" "lastb \<noteq> 0"
  shows "map_ready td lastb f"
proof -
  let ?ba = "at2 (o_ba (td_o td)) ddir" and ?m = "min (f_io_size f) (f_real_file_size f)"
  have l: "unat lastb = unat ?m div unat ?ba"
    using assms(4,7) by (auto simp: last_block_def Let_def unat_div unat_u32_u64 min_def not_less split: if_splits)
  have "unat lastb * unat ?ba \<le> unat ?m" unfolding l by (rule div_times_less_eq_dividend)
  moreover have "(unat lastb - 1) * unat (o_rwmin (td_o td)) < unat lastb * unat ?ba"
  proof -
    have ba: "unat (o_rwmin (td_o td)) \<le> unat ?ba" "0 < unat (o_rwmin (td_o td))" "0 < unat lastb"
      using assms(1,5,8) by (auto simp: word_le_nat_alt map_sized_def unat_gt_0)
    have "(unat lastb - 1) * unat (o_rwmin (td_o td)) \<le> (unat lastb - 1) * unat ?ba" using ba(1) by (rule mult_le_mono2)
    also have "\<dots> < unat lastb * unat ?ba" using ba by (intro mult_strict_right_mono) auto
    finally show ?thesis .
  qed
  ultimately have "in_file (o_rwmin (td_o td)) f (unat lastb - 1)"
    by (auto simp: in_file_def min_def word_le_nat_alt split: if_splits)
  thus ?thesis using assms by (simp add: map_ready_def)
qed

lemma rand_offset_tries:
  assumes "rand_ok osr" "map_ready td lastb f" "last_block td f ddir = Some lastb" "\<not> f_failed_rands f \<ge> 200"
  shows "\<exists>failed b' td' f'. get_next_rand_offset osr td f ddir b = Some (failed, b', td', f') \<and> kept f f' \<and>
    (if failed then \<forall>x < unat lastb. marked f x else b' \<le> lastb \<and> \<not> marked f (unat b'))"
proof -
  have nz: "lastb \<noteq> 0" "f_last_free_lookup f \<le> f_num_maps f" using assms(2) by (auto simp: map_ready_def)
  obtain good r b1 td1 where t: "rand_tries osr f lastb 5 0 b td = Some (good, r, b1, td1)" "td_o td1 = td_o td"
    "r \<le> rand_max (o_use_os_rand (td_o td))" "good \<longrightarrow> b1 < lastb \<and> \<not> marked f (unat b1)"
    using rand_tries_free[OF assms(1,2), of 0 5 b] by auto
  define f1 where "f1 = count_failed f"
  have k1: "kept f f1"
    using nz(2) kept_rands[of f] kept_trans[OF kept_lookup[of 0 f] kept_rands] by (auto simp: f1_def count_failed_def Let_def)
  have r1: "map_ready td1 lastb f1" "last_block td1 f1 ddir = Some lastb"
    using kept_facts(3)[OF k1, of td1] kept_facts(4)[OF k1, of td1] assms(2,3) map_ready_td[OF t(2)] last_block_td[OF t(2)] by auto
  have "r \<le> rand_max (o_use_os_rand (td_o td1))" using t(2,3) by simp
  from lookup_tries_free[OF assms(1) r1 this, of 10 b1] obtain good2 b2 td2 f2 where
    l: "lookup_tries osr ddir 10 r b1 td1 f1 = Some (good2, b2, td2, f2)" "td_o td2 = td_o td" "kept f1 f2"
      "good2 \<longrightarrow> b2 \<le> lastb \<and> \<not> marked f (unat b2)" using t(2) kept_facts(1)[OF k1] by auto
  have k3: "kept f (f2\<lparr>f_last_free_lookup := 0\<rparr>)" using kept_trans[OF kept_trans[OF k1 l(3)] kept_lookup[of 0]] by simp
  have "map_ready td2 lastb (f2\<lparr>f_last_free_lookup := 0\<rparr>)" "last_block td2 (f2\<lparr>f_last_free_lookup := 0\<rparr>) ddir = Some lastb"
    using kept_facts(3)[OF k3, of td2] kept_facts(4)[OF k3, of td2] assms(2,3) map_ready_td[OF l(2)] last_block_td[OF l(2)] by auto
  from exhaustive_search_covers[OF this, of b2, unfolded kept_facts(1)[OF k3]] obtain failed b3 f3 where
    e: "exhaustive_search td2 (f2\<lparr>f_last_free_lookup := 0\<rparr>) ddir b2 = Some (failed, b3, f3)" "kept f f3"
      "if failed then \<forall>x < unat lastb. marked f x else b3 \<le> lastb \<and> \<not> marked f (unat b3)"
    using kept_trans[OF k3] by blast
  have eq: "get_next_rand_offset osr td f ddir b =
      (if good then Some (False, b1, td1, f\<lparr>f_failed_rands := 0\<rparr>) else if good2 then Some (False, b2, td2, f2) else Some (failed, b3, td2, f3))"
    using t(1) l(1) e(1) nz(1) assms(3,4) by (simp add: get_next_rand_offset_def f1_def[symmetric])
  have done1: ?thesis if "get_next_rand_offset osr td f ddir b = Some (fl, c, t', g)" "kept f g"
      "if fl then \<forall>x < unat lastb. marked f x else c \<le> lastb \<and> \<not> marked f (unat c)" for fl c t' g
    by (intro exI conjI) (rule that)+
  consider good | "\<not> good" good2 | "\<not> good" "\<not> good2" by blast
  thus ?thesis
  proof cases
    case 1
    thus ?thesis using t(4) kept_rands[OF nz(2), of 0] by (intro done1[of False b1 td1]) (simp_all add: eq order.strict_implies_order)
  next
    case 2
    thus ?thesis using l(4) kept_trans[OF k1 l(3)] by (intro done1[of False b2 td2 f2]) (simp_all add: eq)
  next
    case 3
    thus ?thesis using e(2,3) by (intro done1[of failed b3 td2 f3]) (simp_all add: eq)
  qed
qed

lemma rand_offset_kept:
  assumes "rand_ok osr" "map_ready td lastb f" "last_block td f ddir = Some lastb"
  shows "\<exists>failed b' td' f'. get_next_rand_offset osr td f ddir b = Some (failed, b', td', f') \<and> kept f f' \<and>
    (if failed then \<forall>x < unat lastb. marked f x else b' \<le> lastb \<and> \<not> marked f (unat b'))"
proof (cases "f_failed_rands f \<ge> 200")
  case True
  from exhaustive_search_covers[OF assms(2,3), of b] obtain failed b1 f1 where
    e: "exhaustive_search td f ddir b = Some (failed, b1, f1)" "kept f f1"
      "if failed then \<forall>x < unat lastb. marked f x else b1 \<le> lastb \<and> \<not> marked f (unat b1)" by blast
  hence "get_next_rand_offset osr td f ddir b = Some (failed, b1, td, f1)"
    using True assms(2,3) by (simp add: get_next_rand_offset_def map_ready_def)
  thus ?thesis using e by blast
qed (use rand_offset_tries[OF assms] in blast)



end
