(* ===== verification/Smalloc.thy ===== *)
theory Smalloc
  imports Bits_Lib "HOL-Library.Monad_Syntax"
begin

text \<open>
  The shared memory allocator, \<open>smalloc.c\<close>. A pool is a mapping of \<open>nr_blocks\<close> times 1024 bytes
  with one bit per block of 32 bytes; every allocation carries a header and, behind the data,
  a guard word (\<open>SMALLOC_REDZONE\<close> is defined).

  The memory of a pool is a list of bytes and a pointer an offset into it; \<open>p_base\<close> is the address
  of the mapping. \<open>None\<close> is a failing assertion, a shift by 32 or more, or an access outside the
  mapping. The sizes that a caller controls are kept at their width of 32 bits; block numbers
  are below \<open>2 ^ 27\<close> for a mapping of less than 4 GiB and are natural numbers. The locks are those
  of \<open>mutex.c\<close>; the operations here are the bodies they protect.
\<close>

section \<open>Pools\<close>

abbreviation SMALLOC_BPB :: nat where "SMALLOC_BPB \<equiv> 32"
abbreviation SMALLOC_BPI :: nat where "SMALLOC_BPI \<equiv> 32"
abbreviation SMALLOC_BPL :: nat where "SMALLOC_BPL \<equiv> 1024"

definition INITIAL_SIZE :: u32 where "INITIAL_SIZE = 8192 * 1024"
definition MAX_POOLS :: nat where "MAX_POOLS = 128"
definition SMALLOC_PRE_RED :: u32 where "SMALLOC_PRE_RED = 0xdeadbeef"
definition SMALLOC_POST_RED :: u32 where "SMALLOC_POST_RED = 0x5aa55aa5"

record pool =
  p_base :: u64
  p_map :: bytes
  p_bitmap :: "u32 list"
  p_free_blocks :: nat
  p_nr_blocks :: nat
  p_next_non_full :: nat
  p_mmap_size :: u32

definition ptr_valid :: "pool \<Rightarrow> u64 \<Rightarrow> bool" where
  "ptr_valid pool ptr \<longleftrightarrow>
     p_base pool \<le> ptr \<and> ptr < p_base pool + ucast (of_nat (p_nr_blocks pool * SMALLOC_BPL) :: u32)"

definition size_to_blocks :: "u32 \<Rightarrow> nat" where
  "size_to_blocks sz = unat ((sz + 32 - 1) div 32)"

section \<open>The bitmap\<close>

function blocks_iter ::
    "nat \<Rightarrow> u32 list \<Rightarrow> nat \<Rightarrow> nat \<Rightarrow> nat \<Rightarrow> (u32 \<Rightarrow> u32 \<Rightarrow> (bool \<times> u32) option) \<Rightarrow> (bool \<times> u32 list) option" where
  "blocks_iter pool_blocks bitmap pool_idx idx nr_blocks func =
     (if nr_blocks = 0 then Some (True, bitmap)
      else if pool_blocks \<le> pool_idx then Some (False, bitmap)
      else if SMALLOC_BPI \<le> idx then None
      else do {
        let this_blocks = (if nr_blocks + idx > SMALLOC_BPI then SMALLOC_BPI - idx else nr_blocks);
        let msk = (if this_blocks = SMALLOC_BPI then -1 else push_bit idx (push_bit this_blocks 1 - 1));
        m \<leftarrow> arr_get bitmap pool_idx;
        (ok, m) \<leftarrow> func m msk;
        let bitmap = bitmap[pool_idx := m];
        if \<not> ok then Some (False, bitmap)
        else blocks_iter pool_blocks bitmap (pool_idx + 1) 0 (nr_blocks - this_blocks) func
      })"
  by pat_completeness auto
termination by (relation "measure (\<lambda>(pool_blocks, bitmap, pool_idx, idx, nr_blocks, func). nr_blocks)") auto

declare blocks_iter.simps [simp del]

definition mask_cmp :: "u32 \<Rightarrow> u32 \<Rightarrow> (bool \<times> u32) option" where
  "mask_cmp m msk = Some (m AND msk = 0, m)"

definition mask_clear :: "u32 \<Rightarrow> u32 \<Rightarrow> (bool \<times> u32) option" where
  "mask_clear m msk = (if m AND msk = msk then Some (True, m AND NOT msk) else None)"

definition mask_set :: "u32 \<Rightarrow> u32 \<Rightarrow> (bool \<times> u32) option" where
  "mask_set m msk = (if m AND msk = 0 then Some (True, m OR msk) else None)"

definition blocks_free :: "pool \<Rightarrow> nat \<Rightarrow> nat \<Rightarrow> nat \<Rightarrow> bool option" where
  "blocks_free pool pool_idx idx nr_blocks =
     map_option fst (blocks_iter (p_nr_blocks pool) (p_bitmap pool) pool_idx idx nr_blocks mask_cmp)"

definition set_blocks :: "pool \<Rightarrow> nat \<Rightarrow> nat \<Rightarrow> nat \<Rightarrow> pool option" where
  "set_blocks pool pool_idx idx nr_blocks = do {
     (_, bitmap) \<leftarrow> blocks_iter (p_nr_blocks pool) (p_bitmap pool) pool_idx idx nr_blocks mask_set;
     Some (pool\<lparr>p_bitmap := bitmap\<rparr>)
   }"

definition clear_blocks :: "pool \<Rightarrow> nat \<Rightarrow> nat \<Rightarrow> nat \<Rightarrow> pool option" where
  "clear_blocks pool pool_idx idx nr_blocks = do {
     (_, bitmap) \<leftarrow> blocks_iter (p_nr_blocks pool) (p_bitmap pool) pool_idx idx nr_blocks mask_clear;
     Some (pool\<lparr>p_bitmap := bitmap\<rparr>)
   }"

text \<open>The word is an \<open>int\<close>: the shift copies its sign, and the argument of \<open>ffz\<close> is extended with it.\<close>

definition find_next_zero :: "u32 \<Rightarrow> nat \<Rightarrow> nat option" where
  "find_next_zero word start =
     (if word = -1 then None else Some (ffz (scast (signed_drop_bit start word)) + start))"

section \<open>Adding a pool\<close>

text \<open>\<open>addr\<close> is the result of \<open>mmap\<close> (\<open>None\<close> for a failure) and \<open>lock_ok\<close> whether the lock of the pool
  could be made. The result is the return value of the function and the pool.\<close>

definition add_pool :: "u64 option \<Rightarrow> bool \<Rightarrow> u32 \<Rightarrow> bool \<times> pool option" where
  "add_pool addr lock_ok alloc_size =
     (let alloc_size = alloc_size + 4;
          alloc_size = alloc_size + 8;
          alloc_size = (if alloc_size < INITIAL_SIZE then INITIAL_SIZE else alloc_size);
          alloc_size = (alloc_size + 1024 - 1) AND NOT (1024 - 1);
          bitmap_blocks = unat (alloc_size div 1024);
          alloc_size = alloc_size + of_nat bitmap_blocks * 4
      in case addr of
           None \<Rightarrow> (False, None)
         | Some ptr \<Rightarrow>
             if \<not> lock_ok then (False, None)
             else (True, Some \<lparr>p_base = ptr, p_map = replicate (bitmap_blocks * SMALLOC_BPL) 0,
                p_bitmap = replicate bitmap_blocks 0, p_free_blocks = bitmap_blocks * SMALLOC_BPB,
                p_nr_blocks = bitmap_blocks, p_next_non_full = 0, p_mmap_size = alloc_size\<rparr>))"

section \<open>Guard words\<close>

definition get_u32 :: "bytes \<Rightarrow> nat \<Rightarrow> u32 option" where
  "get_u32 m off = map_option le_dec (mem_read m off 4)"

definition postred_ptr :: "pool \<Rightarrow> nat \<Rightarrow> u32 \<Rightarrow> nat" where
  "postred_ptr pool hdr sz =
     (let ptr = p_base pool + of_nat hdr + ucast sz - 4;
          ptr = (ptr + 3) AND NOT 3
      in unat (ptr - p_base pool))"

definition fill_redzone :: "pool \<Rightarrow> nat \<Rightarrow> pool option" where
  "fill_redzone pool hdr = do {
     sz \<leftarrow> get_u32 (p_map pool) hdr;
     m \<leftarrow> mem_write (p_map pool) (hdr + 4) (le_enc 4 SMALLOC_PRE_RED);
     m \<leftarrow> mem_write m (postred_ptr pool hdr sz) (le_enc 4 SMALLOC_POST_RED);
     Some (pool\<lparr>p_map := m\<rparr>)
   }"

definition sfree_check_redzone :: "pool \<Rightarrow> nat \<Rightarrow> unit option" where
  "sfree_check_redzone pool hdr = do {
     sz \<leftarrow> get_u32 (p_map pool) hdr;
     pre \<leftarrow> get_u32 (p_map pool) (hdr + 4);
     if pre \<noteq> SMALLOC_PRE_RED then None
     else do {
       post \<leftarrow> get_u32 (p_map pool) (postred_ptr pool hdr sz);
       if post \<noteq> SMALLOC_POST_RED then None else Some ()
     }
   }"

section \<open>Freeing\<close>

text \<open>\<open>off\<close> is the offset of the pointer in the mapping of the pool.\<close>

definition sfree_pool :: "pool \<Rightarrow> nat \<Rightarrow> pool option" where
  "sfree_pool pool off =
     (if off < 8 \<or> \<not> ptr_valid pool (p_base pool + of_nat (off - 8)) then None
      else do {
        let hdr = off - 8;
        sfree_check_redzone pool hdr;
        let i = hdr div SMALLOC_BPL;
        let idx = (hdr mod SMALLOC_BPL) div SMALLOC_BPB;
        sz \<leftarrow> get_u32 (p_map pool) hdr;
        pool \<leftarrow> clear_blocks pool i idx (size_to_blocks sz);
        let pool = (if i < p_next_non_full pool then pool\<lparr>p_next_non_full := i\<rparr> else pool);
        Some (pool\<lparr>p_free_blocks := p_free_blocks pool + size_to_blocks sz\<rparr>)
      })"

section \<open>Allocating\<close>

lemma blocks_iter_0 [simp]: "blocks_iter nr bm i idx 0 f = Some (True, bm)"
  by (subst blocks_iter.simps) simp

function smalloc_loop :: "pool \<Rightarrow> nat \<Rightarrow> nat \<Rightarrow> nat \<Rightarrow> (pool \<times> nat option) option" where
  "smalloc_loop pool nr_blocks i last_idx =
     (if i < p_nr_blocks pool then do {
        word \<leftarrow> arr_get (p_bitmap pool) i;
        if word = -1 then smalloc_loop (pool\<lparr>p_next_non_full := i + 1\<rparr>) nr_blocks (i + 1) 0
        else do {
          idx \<leftarrow> find_next_zero word last_idx;
          free \<leftarrow> blocks_free pool i idx nr_blocks;
          if \<not> free then do {
            let idx = idx + nr_blocks;
            if idx < SMALLOC_BPI then smalloc_loop pool nr_blocks i idx
            else smalloc_loop pool nr_blocks (i + idx div SMALLOC_BPI) 0
          } else do {
            pool \<leftarrow> set_blocks pool i idx nr_blocks;
            Some (pool, Some (i * SMALLOC_BPL + idx * SMALLOC_BPB))
          }
        }
      } else Some (pool, None))"
  by pat_completeness auto
termination
proof (relation "measure (\<lambda>(pool, nr_blocks, i, last_idx). 64 * (p_nr_blocks pool - i) + (32 - last_idx))", goal_cases)
  case (3 pool n i last word idx free x)
  then have "last \<le> idx" "0 < n" by (cases n; auto simp: find_next_zero_def blocks_free_def split: if_splits)+
  with 3 show ?case by auto
next
  case (4 pool n i last word idx free x)
  then have "1 \<le> x div 32" by simp
  with 4(1) have "p_nr_blocks pool - (i + x div 32) < p_nr_blocks pool - i" by linarith
  then show ?case by simp
qed auto

declare smalloc_loop.simps [simp del]

definition smalloc_pool_blocks :: "pool \<Rightarrow> u32 \<Rightarrow> (pool \<times> nat option) option" where
  "smalloc_pool_blocks pool size' = do {
     let nr_blocks = size_to_blocks size';
     if nr_blocks > p_free_blocks pool then Some (pool, None)
     else do {
       (pool, ret) \<leftarrow> smalloc_loop pool nr_blocks (p_next_non_full pool) 0;
       (case ret of
          None \<Rightarrow> Some (pool, None)
        | Some offset \<Rightarrow> Some (pool\<lparr>p_free_blocks := p_free_blocks pool - nr_blocks\<rparr>, Some offset))
     }
   }"

definition alloc_size_of :: "u32 \<Rightarrow> u32" where
  "alloc_size_of sz = (sz + 8 + 4 + 3) AND NOT 3"

definition smalloc_pool :: "pool \<Rightarrow> u32 \<Rightarrow> (pool \<times> nat option) option" where
  "smalloc_pool pool sz = do {
     let alloc_size = alloc_size_of sz;
     (pool, ret) \<leftarrow> smalloc_pool_blocks pool alloc_size;
     (case ret of
        None \<Rightarrow> Some (pool, None)
      | Some hdr \<Rightarrow> do {
          m \<leftarrow> mem_write (p_map pool) hdr (le_enc 4 alloc_size);
          pool \<leftarrow> fill_redzone (pool\<lparr>p_map := m\<rparr>) hdr;
          m \<leftarrow> mem_write (p_map pool) (hdr + 8) (replicate (unat sz) 0);
          Some (pool\<lparr>p_map := m\<rparr>, Some (hdr + 8))
        })
   }"

text \<open>The state of the allocator: the pools in use and the pool that served last. A pointer is the
  number of its pool with its offset there.\<close>

record smalloc_state =
  mp :: "pool list"
  last_pool :: nat

fun smalloc_pools :: "smalloc_state \<Rightarrow> u32 \<Rightarrow> nat \<Rightarrow> nat \<Rightarrow> (smalloc_state \<times> (nat \<times> nat) option) option" where
  "smalloc_pools st sz i 0 = Some (st, None)"
| "smalloc_pools st sz i (Suc k) = do {
     pool \<leftarrow> arr_get (mp st) i;
     (pool, ret) \<leftarrow> smalloc_pool pool sz;
     let st = st\<lparr>mp := (mp st)[i := pool]\<rparr>;
     (case ret of
        Some off \<Rightarrow> Some (st\<lparr>last_pool := i\<rparr>, Some (i, off))
      | None \<Rightarrow> smalloc_pools st sz (i + 1) k)
   }"

lemma smalloc_pools_mp: "smalloc_pools st sz i k = Some (st', ret) \<Longrightarrow> length (mp st') = length (mp st) \<and> (ret = None \<longrightarrow> last_pool st' = last_pool st)"
  by (induction k arbitrary: st i) (fastforce simp: Let_def split: bind_splits option.splits)+

text \<open>\<open>env n\<close> is the outcome of \<open>mmap\<close> and of making the lock for pool \<open>n\<close>. The \<open>continue\<close> of the
  second branch goes on with \<open>i\<close> at the number of pools.\<close>

function smalloc_go :: "(nat \<Rightarrow> u64 option \<times> bool) \<Rightarrow> smalloc_state \<Rightarrow> u32 \<Rightarrow> nat \<Rightarrow> (smalloc_state \<times> (nat \<times> nat) option) option" where
  "smalloc_go env st sz i = do {
     (st', ret) \<leftarrow> smalloc_pools st sz i (length (mp st) - i);
     (case ret of
        Some ptr \<Rightarrow> Some (st', Some ptr)
      | None \<Rightarrow>
          let i = max i (length (mp st)) in
          if last_pool st' \<noteq> 0 then smalloc_go env (st'\<lparr>last_pool := 0\<rparr>) sz i
          else if length (mp st') + 1 > MAX_POOLS then Some (st', None)
          else (case add_pool (fst (env (length (mp st')))) (snd (env (length (mp st')))) sz of
                  (True, Some pool) \<Rightarrow> smalloc_go env (st'\<lparr>mp := mp st' @ [pool]\<rparr>) sz (length (mp st'))
                | _ \<Rightarrow> Some (st', None)))
   }"
  by pat_completeness auto

termination
  by (relation "measures [\<lambda>(env, st, sz, i). MAX_POOLS - length (mp st), \<lambda>(env, st, sz, i). if last_pool st = 0 then 0 else 1]")
    (auto dest: smalloc_pools_mp)

declare smalloc_go.simps [simp del]

definition smalloc :: "(nat \<Rightarrow> u64 option \<times> bool) \<Rightarrow> smalloc_state \<Rightarrow> u32 \<Rightarrow> (smalloc_state \<times> (nat \<times> nat) option) option" where
  "smalloc env st sz = smalloc_go env st sz (last_pool st)"

text \<open>\<open>sfree\<close> looks for the pool by address.\<close>

definition ptr_addr :: "smalloc_state \<Rightarrow> nat \<times> nat \<Rightarrow> u64" where
  "ptr_addr st ptr = p_base (mp st ! fst ptr) + of_nat (snd ptr)"

definition sfree :: "smalloc_state \<Rightarrow> u64 \<Rightarrow> smalloc_state option" where
  "sfree st ptr =
     (if ptr = 0 then Some st
      else case find (\<lambda>i. ptr_valid (mp st ! i) ptr) [0..<length (mp st)] of
             None \<Rightarrow> None
           | Some i \<Rightarrow> do {
               pool \<leftarrow> sfree_pool (mp st ! i) (unat (ptr - p_base (mp st ! i)));
               Some (st\<lparr>mp := (mp st)[i := pool]\<rparr>)
             })"

definition sinit :: "u64 option \<Rightarrow> bool \<Rightarrow> smalloc_state option" where
  "sinit addr lock_ok =
     (case add_pool addr lock_ok INITIAL_SIZE of (True, Some pool) \<Rightarrow> Some \<lparr>mp = [pool], last_pool = 0\<rparr> | _ \<Rightarrow> None)"

section \<open>The bitmap as a set of blocks\<close>

definition busy :: "u32 list \<Rightarrow> nat \<Rightarrow> bool" where
  "busy bm b = bit (bm ! (b div 32)) (b mod 32)"

definition chunk_mask :: "nat \<Rightarrow> nat \<Rightarrow> u32" where
  "chunk_mask idx n = (if n = 32 then -1 else push_bit idx (push_bit n 1 - 1))"

lemma bit_chunk_mask: "idx + n \<le> 32 \<Longrightarrow> j < 32 \<Longrightarrow> bit (chunk_mask idx n) j \<longleftrightarrow> idx \<le> j \<and> j < idx + n"
proof -
  assume "idx + n \<le> 32" "j < 32"
  moreover have "push_bit n (1 :: u32) - 1 = mask n" by (simp add: mask_eq_exp_minus_1)
  ultimately show ?thesis by (auto simp: chunk_mask_def bit_push_bit_iff bit_mask_iff)
qed

lemma blocks_iter_step:
  assumes "0 < n" "i < nr" "idx < 32" "length bm = nr" "t = (if n + idx > 32 then 32 - idx else n)"
    and "f (bm ! i) (chunk_mask idx t) = Some (ok, m)"
  shows "blocks_iter nr bm i idx n f = (if ok then blocks_iter nr (bm[i := m]) (i + 1) 0 (n - t) f else Some (False, bm[i := m]))"
  using assms by (subst blocks_iter.simps) (simp add: chunk_mask_def Let_def)

lemma busy_update:
  "i < length bm \<Longrightarrow> busy (bm[i := m]) b = (if b div 32 = i then bit m (b mod 32) else busy bm b)"
  by (auto simp: busy_def)

definition on_range :: "(nat \<Rightarrow> bool) \<Rightarrow> nat \<Rightarrow> nat \<Rightarrow> bool" where
  "on_range P a b \<longleftrightarrow> (\<forall>x. a \<le> x \<and> x < b \<longrightarrow> P x)"

lemma on_range_split: "a \<le> m \<Longrightarrow> m \<le> b \<Longrightarrow> on_range P a b \<longleftrightarrow> on_range P a m \<and> on_range P m b"
  unfolding on_range_def using leI by (auto dest: order_trans less_le_trans)

lemma on_rangeD: "on_range P a b \<Longrightarrow> a \<le> x \<Longrightarrow> x < b \<Longrightarrow> P x"
  by (simp add: on_range_def)

lemma block_split: "a \<le> b \<Longrightarrow> b < 32 * i + k \<Longrightarrow> 32 * i \<le> a \<Longrightarrow> k \<le> 32 \<Longrightarrow> \<exists>j. b = 32 * i + j \<and> j < k \<and> a - 32 * i \<le> j" for b :: nat
  by (rule exI[of _ "b - 32 * i"]) auto

lemma and_chunk_zero:
  assumes "idx + t \<le> 32" "i < length bm"
  shows "bm ! i AND chunk_mask idx t = 0 \<longleftrightarrow> on_range (\<lambda>b. \<not> busy bm b) (32 * i + idx) (32 * i + idx + t)"
proof
  assume z: "bm ! i AND chunk_mask idx t = 0"
  show "on_range (\<lambda>b. \<not> busy bm b) (32 * i + idx) (32 * i + idx + t)"
    unfolding on_range_def
  proof (intro allI impI)
    fix b assume b: "32 * i + idx \<le> b \<and> b < 32 * i + idx + t"
    then obtain j where j: "b = 32 * i + j" "j < 32" "idx \<le> j" "j < idx + t"
      using assms(1) by (intro that[of "b - 32 * i"]) auto
    have "\<not> bit (bm ! i AND chunk_mask idx t) j" using z by simp
    then show "\<not> busy bm b" using j assms(1) by (auto simp: busy_def bit_and_iff bit_chunk_mask)
  qed
next
  assume h: "on_range (\<lambda>b. \<not> busy bm b) (32 * i + idx) (32 * i + idx + t)"
  show "bm ! i AND chunk_mask idx t = 0"
  proof (rule bit_word_eqI)
    fix j assume j: "j < LENGTH(32)"
    have "busy bm (32 * i + j) = bit (bm ! i) j" using j by (simp add: busy_def)
    then show "bit (bm ! i AND chunk_mask idx t) j = bit 0 j"
      using on_rangeD[OF h, of "32 * i + j"] j assms(1) by (auto simp: bit_and_iff bit_chunk_mask)
  qed
qed

lemma blocks_iter_cmp:
  assumes "idx < 32" "length bm = nr" "0 < n"
  shows "blocks_iter nr bm i idx n mask_cmp =
    Some (32 * i + idx + n \<le> 32 * nr \<and> on_range (\<lambda>b. \<not> busy bm b) (32 * i + idx) (32 * i + idx + n), bm)"
  using assms
proof (induction n arbitrary: i idx rule: less_induct)
  case (less n)
  show ?case
  proof (cases "i < nr")
    case False
    then show ?thesis using less.prems by (subst blocks_iter.simps) auto
  next
    case True
    define t where "t = (if n + idx > 32 then 32 - idx else n)"
    have t: "0 < t" "t \<le> n" "idx + t \<le> 32" using less.prems by (auto simp: t_def)
    define ok where "ok \<longleftrightarrow> on_range (\<lambda>b. \<not> busy bm b) (32 * i + idx) (32 * i + idx + t)"
    have "mask_cmp (bm ! i) (chunk_mask idx t) = Some (ok, bm ! i)"
      using and_chunk_zero[OF t(3), of i bm] True less.prems(2) by (simp add: mask_cmp_def ok_def)
    then have step: "blocks_iter nr bm i idx n mask_cmp = (if ok then blocks_iter nr bm (i + 1) 0 (n - t) mask_cmp else Some (False, bm))"
      using blocks_iter_step[OF less.prems(3) True less.prems(1,2) t_def, of mask_cmp ok "bm ! i"] by simp
    show ?thesis
    proof (cases "n = t")
      case n: True
      have "32 * i + idx + n \<le> 32 * nr" using t n True by linarith
      then show ?thesis using step n by (simp add: ok_def)
    next
      case False
      then have nt: "idx + t = 32" using less.prems by (auto simp: t_def split: if_splits)
      have e: "32 * (i + 1) + 0 + (n - t) = 32 * i + idx + n" "32 * (i + 1) + 0 = 32 * i + idx + t" using nt t by simp_all
      have "blocks_iter nr bm (i + 1) 0 (n - t) mask_cmp =
          Some (32 * i + idx + n \<le> 32 * nr \<and> on_range (\<lambda>b. \<not> busy bm b) (32 * i + idx + t) (32 * i + idx + n), bm)"
        using less.IH[of "n - t" 0 "i + 1", unfolded e] t False less.prems by (simp add: add.assoc)
      moreover have "on_range (\<lambda>b. \<not> busy bm b) (32 * i + idx) (32 * i + idx + n) \<longleftrightarrow>
          ok \<and> on_range (\<lambda>b. \<not> busy bm b) (32 * i + idx + t) (32 * i + idx + n)"
        unfolding ok_def by (rule on_range_split) (use t in auto)
      ultimately show ?thesis using step by auto
    qed
  qed
qed

text \<open>Both updates turn a uniform stretch of the bitmap to the opposite.\<close>

lemma blocks_iter_update:
  assumes F: "\<And>m msk. (\<And>j. j < 32 \<Longrightarrow> bit msk j \<Longrightarrow> bit m j = (\<not> v)) \<Longrightarrow>
      \<exists>m'. f m msk = Some (True, m') \<and> (\<forall>j < 32. bit m' j = (if bit msk j then v else bit m j))"
    and "idx < 32" "length bm = nr" "32 * i + idx + n \<le> 32 * nr" "on_range (\<lambda>b. busy bm b = (\<not> v)) (32 * i + idx) (32 * i + idx + n)"
  shows "\<exists>bm'. blocks_iter nr bm i idx n f = Some (True, bm') \<and> length bm' = nr \<and>
    (\<forall>b < 32 * nr. busy bm' b = (if 32 * i + idx \<le> b \<and> b < 32 * i + idx + n then v else busy bm b))"
  using assms(2-)
proof (induction n arbitrary: i idx bm rule: less_induct)
  case (less n)
  show ?case
  proof (cases "n = 0")
    case False
    define t where "t = (if n + idx > 32 then 32 - idx else n)"
    have t: "0 < t" "t \<le> n" "idx + t \<le> 32" using less.prems False by (auto simp: t_def)
    have i: "i < nr" using less.prems False by linarith
    have "bit (bm ! i) j = (\<not> v)" if "j < 32" "bit (chunk_mask idx t) j" for j
      using on_rangeD[OF less.prems(4), of "32 * i + j"] that t by (auto simp: bit_chunk_mask busy_def)
    then obtain m where m: "f (bm ! i) (chunk_mask idx t) = Some (True, m)"
      "\<forall>j < 32. bit m j = (if bit (chunk_mask idx t) j then v else bit (bm ! i) j)" using F by blast
    let ?bm = "bm[i := m]"
    have step: "blocks_iter nr bm i idx n f = blocks_iter nr ?bm (i + 1) 0 (n - t) f"
      using blocks_iter_step[of n i nr idx bm t f True m] i less.prems(1,2) t_def m(1) False by simp
    have b1: "busy ?bm b = (if 32 * i + idx \<le> b \<and> b < 32 * i + idx + t then v else busy bm b)" for b
    proof (cases "b div 32 = i")
      case True
      then have "b = 32 * i + b mod 32" by auto
      then show ?thesis using True m(2) i less.prems(2) t
        by (simp add: busy_update bit_chunk_mask) (auto simp: busy_def)
    next
      case False
      then have "\<not> (32 * i + idx \<le> b \<and> b < 32 * i + idx + t)" using t(3) by (auto intro: div_nat_eqI)
      then show ?thesis using False i less.prems(2) by (auto simp: busy_update)
    qed
    show ?thesis
    proof (cases "n = t")
      case True
      then show ?thesis using step b1 less.prems(2) by auto
    next
      case nt: False
      then have w: "idx + t = 32" using less.prems by (auto simp: t_def split: if_splits)
      have e: "32 * (i + 1) + 0 + (n - t) = 32 * i + idx + n" "32 * (i + 1) + 0 = 32 * i + idx + t" using w t by simp_all
      have "on_range (\<lambda>b. busy ?bm b = (\<not> v)) (32 * i + idx + t) (32 * i + idx + n)"
        using less.prems(4) b1 by (auto simp: on_range_def)
      then obtain bm' where "blocks_iter nr ?bm (i + 1) 0 (n - t) f = Some (True, bm')" "length bm' = nr"
        "\<forall>b < 32 * nr. busy bm' b = (if 32 * i + idx + t \<le> b \<and> b < 32 * i + idx + n then v else busy ?bm b)"
        using less.IH[of "n - t" 0 ?bm "i + 1", unfolded e] t less.prems(2,3) by (auto simp: add.assoc)
      then show ?thesis using step b1 t by auto
    qed
  qed (use less.prems in auto)
qed

lemma mask_set_update:
  assumes "\<And>j. j < 32 \<Longrightarrow> bit msk j \<Longrightarrow> bit m j = (\<not> True)"
  shows "\<exists>m'. mask_set m msk = Some (True, m') \<and> (\<forall>j < 32. bit m' j = (if bit msk j then True else bit m j))"
proof -
  have "m AND msk = 0" by (rule bit_word_eqI) (use assms in \<open>auto simp: bit_and_iff\<close>)
  then show ?thesis by (simp add: mask_set_def bit_or_iff)
qed

lemma mask_clear_update:
  assumes "\<And>j. j < 32 \<Longrightarrow> bit msk j \<Longrightarrow> bit m j = (\<not> False)"
  shows "\<exists>m'. mask_clear m msk = Some (True, m') \<and> (\<forall>j < 32. bit m' j = (if bit msk j then False else bit m j))"
proof -
  have "m AND msk = msk" by (rule bit_word_eqI) (use assms in \<open>auto simp: bit_and_iff\<close>)
  then show ?thesis by (auto simp: mask_clear_def bit_and_iff bit_not_iff)
qed

lemmas blocks_iter_set = blocks_iter_update[of True mask_set, OF mask_set_update, simplified]
lemmas blocks_iter_clear = blocks_iter_update[of False mask_clear, OF mask_clear_update, simplified]

lemma bit_sign_shift: "start < 32 \<Longrightarrow> j < 64 \<Longrightarrow>
    bit (scast (signed_drop_bit start w) :: u64) j \<longleftrightarrow> bit w (if start + j < 32 then start + j else 31)" for w :: u32
proof (cases "start = 0")
  case True
  assume "j < 64"
  then show ?thesis using True by (cases "j < 31"; cases "j = 31") (auto simp: bit_signed_iff min_def)
qed (auto simp: bit_signed_iff bit_signed_drop_bit_iff min_def)

lemma find_next_zero_ok:
  assumes "w \<noteq> -1" "start < 32" "z < 32" "start \<le> z" "\<not> bit w z"
  shows "\<exists>idx < 32. find_next_zero w start = Some idx \<and> start \<le> idx \<and> idx \<le> z \<and> \<not> bit w idx \<and>
    (\<forall>j. start \<le> j \<and> j < idx \<longrightarrow> bit w j)"
proof -
  define x :: u64 where "x = scast (signed_drop_bit start w)"
  have bx: "bit x j \<longleftrightarrow> bit w (if start + j < 32 then start + j else 31)" if "j < 64" for j
    using bit_sign_shift[OF assms(2) that] by (simp add: x_def)
  have nz: "\<not> bit x (z - start)" using bx[of "z - start"] assms by simp
  then have "x \<noteq> -1" using assms(3) by (auto simp: bit_minus_1_iff possible_bit_word)
  note least = ffz_least[OF this]
  have le: "ffz x \<le> z - start" using least(3)[of "z - start"] nz by (meson not_le)
  have "bit w j" if "start \<le> j" "j < ffz x + start" for j
  proof -
    have "j - start < ffz x" "j - start < 64" "start + (j - start) < 32" "start + (j - start) = j" using that le assms by linarith+
    then show ?thesis using least(3)[of "j - start"] bx[of "j - start"] by simp
  qed
  moreover have "\<not> bit w (ffz x + start)"
  proof -
    have "start + ffz x < 32" using le assms by linarith
    then show ?thesis using least(2) bx[of "ffz x"] by (simp add: add.commute)
  qed
  ultimately show ?thesis using assms le by (auto simp: find_next_zero_def x_def[symmetric])
qed

text \<open>When no bit from \<open>start\<close> on is clear the search reports a position outside the word.\<close>

lemma find_next_zero_none:
  assumes "w \<noteq> -1" "start < 32" "\<And>z. start \<le> z \<Longrightarrow> z < 32 \<Longrightarrow> bit w z"
  shows "find_next_zero w start = Some (63 + start)"
proof -
  have "scast (signed_drop_bit start w) = (-1 :: u64)"
    by (rule bit_word_eqI) (use assms(2,3) in \<open>simp add: bit_sign_shift\<close>)
  then show ?thesis using assms(1) by (simp add: find_next_zero_def ffz_def c_ffs_def)
qed

section \<open>Sizes and addresses\<close>

lemma unat_align_down: "unat (x AND NOT (mask n)) = unat x div 2 ^ n * 2 ^ n" for x :: "'a::len word"
proof -
  have e: "x AND NOT (mask n) = push_bit n (drop_bit n x)"
    by (rule bit_word_eqI) (auto simp: bit_and_iff bit_not_iff bit_mask_iff bit_push_bit_iff bit_drop_bit_eq)
  have "unat x div 2 ^ n * 2 ^ n < 2 ^ LENGTH('a)"
    using unat_lt[of x] by (meson div_times_less_eq_dividend le_less_trans)
  then show ?thesis unfolding e unsigned_push_bit_eq unsigned_drop_bit_eq
    by (simp add: take_bit_nat_eq_self push_bit_eq_mult drop_bit_eq_div unat_lt)
qed

lemma unat_align_4: "unat (x AND NOT 3) = unat x div 4 * 4" for x :: "'a::len word"
  using unat_align_down[of x 2] by (simp add: mask_eq_exp_minus_1)

lemma alloc_size_unat:
  assumes "unat sz + 15 < 2 ^ 32"
  shows "unat (alloc_size_of sz) = (unat sz + 15) div 4 * 4"
proof -
  have "unat (sz + 15) = unat sz + 15" using assms by (simp add: unat_word_ariths)
  then show ?thesis unfolding alloc_size_of_def unat_align_4 by (simp add: add.assoc)
qed

lemma size_to_blocks_eq:
  assumes "unat a + 31 < 2 ^ 32"
  shows "size_to_blocks a = (unat a + 31) div 32"
proof -
  have "unat (a + 31) = unat a + 31" using assms by (simp add: unat_word_ariths)
  then show ?thesis by (simp add: size_to_blocks_def unat_div add_diff_eq[symmetric])
qed

lemma blocks_cover: "unat a + 31 < 2 ^ 32 \<Longrightarrow> unat a \<le> 32 * size_to_blocks a \<and> 32 * size_to_blocks a < unat a + 32"
  by (auto simp: size_to_blocks_eq)

lemma of_nat_small: "k < 2 ^ LENGTH('a) \<Longrightarrow> unat (of_nat k :: 'a::len word) = k"
  by (simp add: unat_of_nat take_bit_nat_eq_self)

definition pool_wf :: "pool \<Rightarrow> bool" where
  "pool_wf p \<longleftrightarrow> length (p_bitmap p) = p_nr_blocks p \<and> length (p_map p) = 1024 * p_nr_blocks p \<and>
     1024 * p_nr_blocks p < 2 ^ 32 \<and> unat (p_base p) mod 4 = 0 \<and> unat (p_base p) + 1024 * p_nr_blocks p < 2 ^ 64"

lemma unat_in_pool:
  assumes "pool_wf p" "off \<le> 1024 * p_nr_blocks p"
  shows "unat (p_base p + of_nat off) = unat (p_base p) + off"
  using assms of_nat_small[of off, where 'a = 64] by (simp add: pool_wf_def unat_word_ariths)

lemma postred_eq:
  assumes wf: "pool_wf p" and hdr: "hdr mod 4 = 0" "unat sz mod 4 = 0" "4 \<le> unat sz" "hdr + unat sz \<le> 1024 * p_nr_blocks p"
  shows "postred_ptr p hdr sz = hdr + unat sz - 4"
proof -
  have e: "p_base p + of_nat hdr + ucast sz - 4 = p_base p + of_nat (hdr + unat sz - 4)"
    using hdr(3) by (simp add: of_nat_diff)
  have u: "unat (p_base p + of_nat (hdr + unat sz - 4)) = unat (p_base p) + (hdr + unat sz - 4)"
    using unat_in_pool[OF wf] hdr(4) by simp
  have lt: "unat (p_base p) + (hdr + unat sz - 4) + 3 < 2 ^ 64" using wf hdr(3,4) by (auto simp: pool_wf_def)
  have m: "(unat (p_base p) + (hdr + unat sz - 4)) mod 4 = 0"
  proof -
    have "4 dvd unat (p_base p)" "4 dvd hdr" "4 dvd unat sz" using wf hdr by (simp_all add: pool_wf_def mod_eq_0_iff_dvd)
    then have "4 dvd unat (p_base p) + (hdr + unat sz - 4)" by (simp add: dvd_diff_nat)
    then show ?thesis by (simp add: mod_eq_0_iff_dvd)
  qed
  have "(p_base p + of_nat (hdr + unat sz - 4) + 3) AND NOT 3 = p_base p + of_nat (hdr + unat sz - 4)"
  proof (rule word_unat_eq_iff[THEN iffD2])
    have "unat (p_base p + of_nat (hdr + unat sz - 4) + 3) = unat (p_base p) + (hdr + unat sz - 4) + 3"
      using u lt by (subst unat_word_ariths) simp
    then show "unat ((p_base p + of_nat (hdr + unat sz - 4) + 3) AND NOT 3) = unat (p_base p + of_nat (hdr + unat sz - 4))"
      unfolding unat_align_4 u using m by presburger
  qed
  then show ?thesis
    unfolding postred_ptr_def Let_def e using of_nat_small[of "hdr + unat sz - 4", where 'a = 64] lt by simp
qed

section \<open>Allocation takes free blocks\<close>

text \<open>What an allocation may change: the bits of its blocks and the search hint.\<close>

definition took :: "pool \<Rightarrow> pool \<Rightarrow> nat \<Rightarrow> nat \<Rightarrow> bool" where
  "took p p' s n \<longleftrightarrow> (\<exists>bm k. p' = p\<lparr>p_bitmap := bm, p_next_non_full := k\<rparr> \<and> length bm = p_nr_blocks p \<and>
     s + n \<le> 32 * p_nr_blocks p \<and> on_range (\<lambda>b. \<not> busy (p_bitmap p) b) s (s + n) \<and>
     (\<forall>b < 32 * p_nr_blocks p. busy bm b \<longleftrightarrow> (s \<le> b \<and> b < s + n) \<or> busy (p_bitmap p) b))"

lemma took_hint: "took (p\<lparr>p_next_non_full := j\<rparr>) p' s n \<Longrightarrow> took p p' s n"
  by (auto simp: took_def)

lemma found_blocks:
  assumes "length (p_bitmap p) = p_nr_blocks p" "0 < n" "i < p_nr_blocks p" "blocks_free p i idx n = Some True"
  shows "\<exists>p'. set_blocks p i idx n = Some p' \<and> took p p' (32 * i + idx) n"
proof -
  have idx: "idx < 32"
  proof (rule ccontr)
    assume "\<not> idx < 32"
    then have "blocks_iter (p_nr_blocks p) (p_bitmap p) i idx n mask_cmp = None"
      using assms(2,3) by (subst blocks_iter.simps) simp
    then show False using assms(4) by (simp add: blocks_free_def)
  qed
  then have free: "32 * i + idx + n \<le> 32 * p_nr_blocks p" "on_range (\<lambda>b. \<not> busy (p_bitmap p) b) (32 * i + idx) (32 * i + idx + n)"
    using blocks_iter_cmp[OF idx assms(1,2), of i] assms(4) by (simp_all add: blocks_free_def)
  then obtain bm where bm: "blocks_iter (p_nr_blocks p) (p_bitmap p) i idx n mask_set = Some (True, bm)" "length bm = p_nr_blocks p"
    "\<forall>b < 32 * p_nr_blocks p. busy bm b = (if 32 * i + idx \<le> b \<and> b < 32 * i + idx + n then True else busy (p_bitmap p) b)"
    using blocks_iter_set[OF idx assms(1) free] by blast
  have "busy bm b \<longleftrightarrow> (32 * i + idx \<le> b \<and> b < 32 * i + idx + n) \<or> busy (p_bitmap p) b" if "b < 32 * p_nr_blocks p" for b
    using bm(3) that by (cases "32 * i + idx \<le> b \<and> b < 32 * i + idx + n") auto
  with bm(1,2) have "set_blocks p i idx n = Some (p\<lparr>p_bitmap := bm\<rparr>)" "took p (p\<lparr>p_bitmap := bm\<rparr>) (32 * i + idx) n"
    unfolding set_blocks_def took_def using free
    by (simp, intro exI[of _ bm] exI[of _ "p_next_non_full p"], simp)
  then show ?thesis by blast
qed

lemma smalloc_loop_sound:
  assumes "smalloc_loop p n i l = Some (p', ret)" "0 < n" "length (p_bitmap p) = p_nr_blocks p"
  shows "case ret of None \<Rightarrow> \<exists>k. p' = p\<lparr>p_next_non_full := k\<rparr> | Some off \<Rightarrow> \<exists>s. off = 32 * s \<and> took p p' s n"
  using assms
proof (induction p n i l arbitrary: p' ret rule: smalloc_loop.induct)
  case (1 p n i l)
  show ?case
  proof (cases "i < p_nr_blocks p")
    case False
    then have "p' = p" "ret = None" using 1(4) by (auto simp: smalloc_loop.simps[of p n i l])
    then show ?thesis by (auto intro!: exI[of _ "p_next_non_full p"])
  next
    case i: True
    then have word: "arr_get (p_bitmap p) i = Some (p_bitmap p ! i)" using 1(6) by simp
    show ?thesis
    proof (cases "p_bitmap p ! i = -1")
      case True
      then have "smalloc_loop (p\<lparr>p_next_non_full := i + 1\<rparr>) n (i + 1) 0 = Some (p', ret)"
        using 1(4) i word by (simp add: smalloc_loop.simps[of p n i l])
      from 1(1)[OF i word True this 1(5)] 1(6) show ?thesis
        by (auto split: option.splits dest: took_hint)
    next
      case False
      then obtain idx free where f: "find_next_zero (p_bitmap p ! i) l = Some idx" "blocks_free p i idx n = Some free"
        using 1(4) i word by (auto simp: smalloc_loop.simps[of p n i l] split: bind_splits)
      note run = smalloc_loop.simps[of p n i l] i word False f
      show ?thesis
      proof (cases free)
        case True
        then obtain q where q: "set_blocks p i idx n = Some q" "took p q (32 * i + idx) n"
          using found_blocks[OF 1(6,5) i] f(2) by auto
        then have "p' = q" "ret = Some (i * 1024 + idx * 32)" using 1(4) True run by auto
        then show ?thesis using q(2) by (auto intro!: exI[of _ "32 * i + idx"])
      next
        case nf: False
        show ?thesis
        proof (cases "idx + n < 32")
          case True
          then have "smalloc_loop p n i (idx + n) = Some (p', ret)" using 1(4) nf run by simp
          from 1(2)[OF i word False f nf refl True this 1(5,6)] show ?thesis .
        next
          case ge: False
          then have "smalloc_loop p n (i + (idx + n) div 32) 0 = Some (p', ret)" using 1(4) nf run by simp
          from 1(3)[OF i word False f nf refl ge this 1(5,6)] show ?thesis .
        qed
      qed
    qed
  qed
qed

section \<open>The heap of a pool\<close>

definition nb :: "u32 \<Rightarrow> nat" where
  "nb sz = size_to_blocks (alloc_size_of sz)"

definition ok_size :: "u32 \<Rightarrow> bool" where
  "ok_size sz \<longleftrightarrow> unat sz + 64 < 2 ^ 32"

lemma ok_size_bounds:
  assumes "ok_size sz"
  shows "unat sz + 12 \<le> unat (alloc_size_of sz)" "unat (alloc_size_of sz) \<le> unat sz + 15"
    "unat (alloc_size_of sz) mod 4 = 0" "unat (alloc_size_of sz) \<le> 32 * nb sz" "0 < nb sz"
proof -
  have a: "unat (alloc_size_of sz) = (unat sz + 15) div 4 * 4" using alloc_size_unat assms by (simp add: ok_size_def)
  show b: "unat sz + 12 \<le> unat (alloc_size_of sz)" "unat (alloc_size_of sz) \<le> unat sz + 15" "unat (alloc_size_of sz) mod 4 = 0"
    unfolding a by presburger+
  then show "unat (alloc_size_of sz) \<le> 32 * nb sz" "0 < nb sz"
    using blocks_cover[of "alloc_size_of sz"] assms by (auto simp: nb_def ok_size_def)
qed

definition block_ok :: "pool \<Rightarrow> nat \<times> u32 \<Rightarrow> bool" where
  "block_ok p x \<longleftrightarrow> (case x of (s, sz) \<Rightarrow> ok_size sz \<and> s + nb sz \<le> 32 * p_nr_blocks p \<and>
     get_u32 (p_map p) (32 * s) = Some (alloc_size_of sz) \<and> get_u32 (p_map p) (32 * s + 4) = Some SMALLOC_PRE_RED \<and>
     get_u32 (p_map p) (32 * s + unat (alloc_size_of sz) - 4) = Some SMALLOC_POST_RED)"

lemma get_u32_agree: "agree m m' a n \<Longrightarrow> a \<le> off \<Longrightarrow> off + 4 \<le> a + n \<Longrightarrow> get_u32 m' off = get_u32 m off"
  by (simp add: get_u32_def mem_read_agree)

lemma block_ok_agree:
  assumes "block_ok p (s, sz)" "agree (p_map p) (p_map p') (32 * s) (32 * nb sz)" "p_nr_blocks p' = p_nr_blocks p"
  shows "block_ok p' (s, sz)"
proof -
  have ok: "ok_size sz" using assms(1) by (simp add: block_ok_def)
  note b = ok_size_bounds[OF ok]
  have "get_u32 (p_map p') off = get_u32 (p_map p) off" if "32 * s \<le> off" "off + 4 \<le> 32 * s + 32 * nb sz" for off
    using get_u32_agree[OF assms(2) that] .
  then show ?thesis using assms(1,3) b by (simp add: block_ok_def)
qed

lemma get_u32_written: "mem_write m off (le_enc 4 w) = Some m' \<Longrightarrow> get_u32 m' off = Some w" for w :: u32
  using mem_read_write_same[of m off "le_enc 4 w" m'] by (simp add: get_u32_def)

lemma smalloc_pool_run:
  assumes wf: "pool_wf p" and ok: "ok_size sz" and q: "smalloc_pool_blocks p (alloc_size_of sz) = Some (q, Some o1)"
  shows "\<exists>s p1 m p'. o1 = 32 * s \<and> smalloc_pool p sz = Some (p', Some (32 * s + 8)) \<and> took p p1 s (nb sz) \<and> nb sz \<le> p_free_blocks p \<and>
    p' = p1\<lparr>p_free_blocks := p_free_blocks p - nb sz, p_map := m\<rparr> \<and> frame (p_map p) m (32 * s) (32 * nb sz) \<and> block_ok p' (s, sz)"
proof -
  let ?a = "alloc_size_of sz"
  note b = ok_size_bounds[OF ok]
  obtain p1 where p1: "smalloc_loop p (nb sz) (p_next_non_full p) 0 = Some (p1, Some o1)" "nb sz \<le> p_free_blocks p"
    "q = p1\<lparr>p_free_blocks := p_free_blocks p1 - nb sz\<rparr>"
    using q by (auto simp: smalloc_pool_blocks_def nb_def[symmetric] Let_def split: if_splits bind_splits option.splits)
  obtain s where s: "o1 = 32 * s" "took p p1 s (nb sz)"
    using smalloc_loop_sound[OF p1(1) b(5)] wf by (auto simp: pool_wf_def)
  then have same: "p_map p1 = p_map p" "p_base p1 = p_base p" "p_nr_blocks p1 = p_nr_blocks p" "p_free_blocks p1 = p_free_blocks p"
    and fit: "s + nb sz \<le> 32 * p_nr_blocks p" by (auto simp: took_def)
  have len: "length (p_map p) = 1024 * p_nr_blocks p" using wf by (simp add: pool_wf_def)
  obtain m1 where m1: "mem_write (p_map p) (32 * s) (le_enc 4 ?a) = Some m1" "length m1 = length (p_map p)"
    using mem_write_ok[of "32 * s" "le_enc 4 ?a" "p_map p"] fit len b by auto
  obtain m2 where m2: "mem_write m1 (32 * s + 4) (le_enc 4 SMALLOC_PRE_RED) = Some m2" "length m2 = length (p_map p)"
    using mem_write_ok[of "32 * s + 4" "le_enc 4 SMALLOC_PRE_RED" m1] fit len b m1(2) by auto
  have wq: "pool_wf (q\<lparr>p_map := m1\<rparr>)"
    using wf same s(2) m1(2) by (auto simp: pool_wf_def p1(3) took_def)
  have post: "postred_ptr (q\<lparr>p_map := m1\<rparr>) (32 * s) ?a = 32 * s + unat ?a - 4"
    using postred_eq[OF wq, of "32 * s" ?a] b fit by (simp add: p1(3) same)
  obtain m3 where m3: "mem_write m2 (32 * s + unat ?a - 4) (le_enc 4 SMALLOC_POST_RED) = Some m3" "length m3 = length (p_map p)"
    using mem_write_ok[of "32 * s + unat ?a - 4" "le_enc 4 SMALLOC_POST_RED" m2] fit len b m2(2) by auto
  obtain m4 where m4: "mem_write m3 (32 * s + 8) (replicate (unat sz) 0) = Some m4" "length m4 = length (p_map p)"
    using mem_write_ok[of "32 * s + 8" "replicate (unat sz) (0 :: u8)" m3] fit len b m3(2) by auto
  have red: "fill_redzone (q\<lparr>p_map := m1\<rparr>) (32 * s) = Some (q\<lparr>p_map := m3\<rparr>)"
    using get_u32_written[OF m1(1)] m2(1) m3(1) post by (simp add: fill_redzone_def)
  let ?p = "p1\<lparr>p_free_blocks := p_free_blocks p - nb sz, p_map := m4\<rparr>"
  have res: "smalloc_pool p sz = Some (?p, Some (32 * s + 8))"
    using q red m1(1) m4(1) s(1) same by (simp add: smalloc_pool_def Let_def p1(3))
  have fr: "frame (p_map p) m4 (32 * s) (32 * nb sz)"
  proof -
    have "frame (p_map p) m1 (32 * s) (32 * nb sz)" "frame m1 m2 (32 * s) (32 * nb sz)"
      "frame m2 m3 (32 * s) (32 * nb sz)" "frame m3 m4 (32 * s) (32 * nb sz)"
      by (rule mem_write_frame[OF m1(1)] mem_write_frame[OF m2(1)] mem_write_frame[OF m3(1)] mem_write_frame[OF m4(1)];
          use b in simp)+
    then show ?thesis by (blast intro: frame_trans)
  qed
  have "get_u32 m4 (32 * s) = Some ?a" "get_u32 m4 (32 * s + 4) = Some SMALLOC_PRE_RED"
    "get_u32 m4 (32 * s + unat ?a - 4) = Some SMALLOC_POST_RED"
    using get_u32_written[OF m1(1)] get_u32_written[OF m2(1)] get_u32_written[OF m3(1)] b
    by (simp_all add: get_u32_def mem_read_write_other[OF m4(1)] mem_read_write_other[OF m3(1)] mem_read_write_other[OF m2(1)])
  then have "block_ok ?p (s, sz)" using ok fit by (simp add: block_ok_def same)
  with s p1(2) res fr show ?thesis by blast
qed

lemma smalloc_pool_spec:
  assumes "pool_wf p" "ok_size sz" "smalloc_pool p sz = Some (p', Some off)"
  shows "\<exists>s p1 m. off = 32 * s + 8 \<and> took p p1 s (nb sz) \<and> nb sz \<le> p_free_blocks p \<and>
    p' = p1\<lparr>p_free_blocks := p_free_blocks p - nb sz, p_map := m\<rparr> \<and> frame (p_map p) m (32 * s) (32 * nb sz) \<and> block_ok p' (s, sz)"
proof -
  obtain q o1 where "smalloc_pool_blocks p (alloc_size_of sz) = Some (q, Some o1)"
    using assms(3) by (auto simp: smalloc_pool_def Let_def split: bind_splits option.splits)
  from smalloc_pool_run[OF assms(1,2) this] show ?thesis using assms(3) by auto
qed


definition overlap :: "nat \<times> u32 \<Rightarrow> nat \<times> u32 \<Rightarrow> bool" where
  "overlap x y \<longleftrightarrow> fst x < fst y + nb (snd y) \<and> fst y < fst x + nb (snd x)"

definition heap_inv :: "pool \<Rightarrow> (nat \<times> u32) set \<Rightarrow> bool" where
  "heap_inv p L \<longleftrightarrow> pool_wf p \<and> finite L \<and> (\<forall>x \<in> L. block_ok p x) \<and>
     (\<forall>x \<in> L. \<forall>y \<in> L. x \<noteq> y \<longrightarrow> \<not> overlap x y) \<and>
     (\<forall>b < 32 * p_nr_blocks p. busy (p_bitmap p) b \<longleftrightarrow> (\<exists>x \<in> L. fst x \<le> b \<and> b < fst x + nb (snd x))) \<and>
     p_free_blocks p + (\<Sum>x \<in> L. nb (snd x)) = 32 * p_nr_blocks p"

lemma heap_invD:
  assumes "heap_inv p L"
  shows "pool_wf p" "finite L" "x \<in> L \<Longrightarrow> block_ok p x" "x \<in> L \<Longrightarrow> y \<in> L \<Longrightarrow> x \<noteq> y \<Longrightarrow> \<not> overlap x y"
    "b < 32 * p_nr_blocks p \<Longrightarrow> busy (p_bitmap p) b \<longleftrightarrow> (\<exists>x \<in> L. fst x \<le> b \<and> b < fst x + nb (snd x))"
    "p_free_blocks p + (\<Sum>x \<in> L. nb (snd x)) = 32 * p_nr_blocks p"
  using assms by (auto simp: heap_inv_def)

lemma block_okD: "block_ok p (s, sz) \<Longrightarrow> ok_size sz" "block_ok p (s, sz) \<Longrightarrow> s + nb sz \<le> 32 * p_nr_blocks p"
  by (simp_all add: block_ok_def)

text \<open>A change of memory inside the blocks \<open>[s, s + n)\<close> leaves the other allocations alone.\<close>

lemma block_ok_frame:
  assumes "block_ok p (t, sz)" "frame (p_map p) (p_map p') (32 * s) (32 * n)" "p_nr_blocks p' = p_nr_blocks p"
    and "t + nb sz \<le> s \<or> s + n \<le> t"
  shows "block_ok p' (t, sz)"
  using assms by (intro block_ok_agree[OF assms(1) frame_agree[OF assms(2)] assms(3)]) auto

lemma heap_inv_alloc:
  assumes inv: "heap_inv p L" and ok: "ok_size sz" and run: "smalloc_pool p sz = Some (p', Some off)"
  shows "\<exists>s. off = 32 * s + 8 \<and> (s, sz) \<notin> L \<and> heap_inv p' (insert (s, sz) L)"
proof -
  note I = heap_invD[OF inv]
  obtain s p1 m where sp: "off = 32 * s + 8" "took p p1 s (nb sz)" "nb sz \<le> p_free_blocks p"
    "p' = p1\<lparr>p_free_blocks := p_free_blocks p - nb sz, p_map := m\<rparr>" "frame (p_map p) m (32 * s) (32 * nb sz)" "block_ok p' (s, sz)"
    using smalloc_pool_spec[OF I(1) ok run] by blast
  obtain bm k where t: "p1 = p\<lparr>p_bitmap := bm, p_next_non_full := k\<rparr>" "length bm = p_nr_blocks p" "s + nb sz \<le> 32 * p_nr_blocks p"
    "on_range (\<lambda>b. \<not> busy (p_bitmap p) b) s (s + nb sz)"
    "\<And>b. b < 32 * p_nr_blocks p \<Longrightarrow> busy bm b \<longleftrightarrow> (s \<le> b \<and> b < s + nb sz) \<or> busy (p_bitmap p) b"
    using sp(2) by (auto simp: took_def)
  have pos: "0 < nb sz" using ok_size_bounds[OF ok] by simp
  have apart: "t + nb z \<le> s \<or> s + nb sz \<le> t" if "(t, z) \<in> L" for t z
  proof (rule ccontr)
    assume no: "\<not> ?thesis"
    have z: "0 < nb z" "t + nb z \<le> 32 * p_nr_blocks p"
      using ok_size_bounds(5)[OF block_okD(1)[OF I(3)[OF that]]] block_okD(2)[OF I(3)[OF that]] by simp_all
    define b where "b = max s t"
    have b: "s \<le> b" "b < s + nb sz" "t \<le> b" "b < t + nb z" using no z pos by (auto simp: b_def)
    then have "busy (p_bitmap p) b" using I(5)[of b] that z(2) by force
    with on_rangeD[OF t(4) b(1,2)] show False by simp
  qed
  have new: "(s, sz) \<notin> L" using apart[of s sz] pos by auto
  have blocks: "block_ok p' x" if "x \<in> insert (s, sz) L" for x
    using that sp(6) block_ok_frame[OF I(3) _ _ apart, of "fst x" "snd x" p'] sp(5) by (cases x) (auto simp: sp(4) t(1))
  have disj: "\<not> overlap x y" if "x \<in> insert (s, sz) L" "y \<in> insert (s, sz) L" "x \<noteq> y" for x y
    using that I(4) apart[of "fst x" "snd x"] apart[of "fst y" "snd y"] by (cases x; cases y) (force simp: overlap_def)
  have bits: "busy bm b \<longleftrightarrow> (\<exists>x \<in> insert (s, sz) L. fst x \<le> b \<and> b < fst x + nb (snd x))" if "b < 32 * p_nr_blocks p" for b
    using t(5)[OF that] I(5)[OF that] by auto
  have "p_free_blocks p - nb sz + (\<Sum>x \<in> insert (s, sz) L. nb (snd x)) = 32 * p_nr_blocks p"
    using I(2,6) new sp(3) by simp
  moreover have "pool_wf p'" using I(1) t(2) sp(5) by (simp add: pool_wf_def sp(4) t(1) frame_def)
  ultimately have "heap_inv p' (insert (s, sz) L)"
    using I(2) blocks disj bits unfolding heap_inv_def by (simp add: sp(4) t(1))
  then show ?thesis using sp(1) new by blast
qed

lemma sfree_pool_spec:
  assumes inv: "heap_inv p L" and x: "(s, sz) \<in> L"
  shows "\<exists>bm k. sfree_pool p (32 * s + 8) =
      Some (p\<lparr>p_bitmap := bm, p_next_non_full := k, p_free_blocks := p_free_blocks p + nb sz\<rparr>) \<and> length bm = p_nr_blocks p \<and>
    (\<forall>b < 32 * p_nr_blocks p. busy bm b \<longleftrightarrow> \<not> (s \<le> b \<and> b < s + nb sz) \<and> busy (p_bitmap p) b)"
proof -
  note I = heap_invD[OF inv]
  have ok: "block_ok p (s, sz)" using I(3)[OF x] .
  note b = ok_size_bounds[OF block_okD(1)[OF ok]]
  have fit: "s + nb sz \<le> 32 * p_nr_blocks p" using block_okD(2)[OF ok] .
  have rd: "get_u32 (p_map p) (32 * s) = Some (alloc_size_of sz)" "get_u32 (p_map p) (32 * s + 4) = Some SMALLOC_PRE_RED"
    "get_u32 (p_map p) (32 * s + unat (alloc_size_of sz) - 4) = Some SMALLOC_POST_RED" using ok by (simp_all add: block_ok_def)
  have "postred_ptr p (32 * s) (alloc_size_of sz) = 32 * s + unat (alloc_size_of sz) - 4"
    using postred_eq[OF I(1), of "32 * s" "alloc_size_of sz"] b fit by simp
  then have red: "sfree_check_redzone p (32 * s) = Some ()" using rd by (simp add: sfree_check_redzone_def)
  have lt: "32 * s < 1024 * p_nr_blocks p" using fit b(5) by linarith
  then have ptr: "ptr_valid p (p_base p + of_nat (32 * s))"
  proof -
    have n: "1024 * p_nr_blocks p < 2 ^ 32" using I(1) by (simp add: pool_wf_def)
    have "unat (ucast (of_nat (p_nr_blocks p * 1024) :: u32) :: u64) = 1024 * p_nr_blocks p"
      using n of_nat_small[of "p_nr_blocks p * 1024", where 'a = 32] by (simp del: of_nat_mult add: unat_ucast_small mult.commute)
    then have "ucast (of_nat (p_nr_blocks p * 1024) :: u32) = (of_nat (1024 * p_nr_blocks p) :: u64)"
      using n of_nat_small[of "1024 * p_nr_blocks p", where 'a = 64] by (intro word_unat_eq_iff[THEN iffD2]) (simp del: of_nat_mult)
    then show ?thesis
      unfolding ptr_valid_def word_le_nat_alt word_less_nat_alt
      using unat_in_pool[OF I(1), of "32 * s"] unat_in_pool[OF I(1), of "1024 * p_nr_blocks p"] lt by (simp del: of_nat_mult)
  qed
  have pos: "32 * (32 * s div 1024) + 32 * s mod 1024 div 32 = s" "32 * s mod 1024 div 32 < 32"
  proof -
    have "32 * s mod 1024 div 32 = s mod 32" unfolding mult_mod_right[of 32 s 32, simplified, symmetric] by simp
    then show "32 * (32 * s div 1024) + 32 * s mod 1024 div 32 = s" "32 * s mod 1024 div 32 < 32"
      using div_mult_mult1[of 32 s 32] by simp_all
  qed
  have "on_range (busy (p_bitmap p)) s (s + nb sz)" using I(5) x fit by (force simp: on_range_def)
  then obtain bm where bm: "blocks_iter (p_nr_blocks p) (p_bitmap p) (32 * s div 1024) (32 * s mod 1024 div 32) (nb sz) mask_clear = Some (True, bm)"
    "length bm = p_nr_blocks p" "\<forall>b < 32 * p_nr_blocks p. busy bm b = (\<not> (s \<le> b \<and> b < s + nb sz) \<and> busy (p_bitmap p) b)"
    using blocks_iter_clear[OF pos(2) _ _ , of "p_bitmap p" "p_nr_blocks p" "32 * s div 1024" "nb sz", unfolded pos(1)] I(1) fit
    by (auto simp: pool_wf_def)
  define k where "k = (if 32 * s div 1024 < p_next_non_full p then 32 * s div 1024 else p_next_non_full p)"
  have "sfree_pool p (32 * s + 8) =
      Some (p\<lparr>p_bitmap := bm, p_next_non_full := k, p_free_blocks := p_free_blocks p + nb sz\<rparr>)"
    using red ptr rd(1) bm(1) unfolding sfree_pool_def clear_blocks_def by (simp add: Let_def nb_def k_def)
  then show ?thesis using bm(2,3) by blast
qed

lemma heap_inv_free:
  assumes inv: "heap_inv p L" and x: "(s, sz) \<in> L" and run: "sfree_pool p (32 * s + 8) = Some p'"
  shows "heap_inv p' (L - {(s, sz)})"
proof -
  note I = heap_invD[OF inv]
  obtain bm k where sp: "p' = p\<lparr>p_bitmap := bm, p_next_non_full := k, p_free_blocks := p_free_blocks p + nb sz\<rparr>"
    "length bm = p_nr_blocks p" "\<forall>b < 32 * p_nr_blocks p. busy bm b \<longleftrightarrow> \<not> (s \<le> b \<and> b < s + nb sz) \<and> busy (p_bitmap p) b"
    using sfree_pool_spec[OF inv x] run by auto
  have bits: "busy bm b \<longleftrightarrow> (\<exists>y \<in> L - {(s, sz)}. fst y \<le> b \<and> b < fst y + nb (snd y))" if "b < 32 * p_nr_blocks p" for b
  proof
    assume "busy bm b"
    then show "\<exists>y \<in> L - {(s, sz)}. fst y \<le> b \<and> b < fst y + nb (snd y)" using sp(3) I(5)[OF that] that by fastforce
  next
    assume "\<exists>y \<in> L - {(s, sz)}. fst y \<le> b \<and> b < fst y + nb (snd y)"
    then obtain y where y: "y \<in> L" "y \<noteq> (s, sz)" "fst y \<le> b" "b < fst y + nb (snd y)" by auto
    then have "\<not> (s \<le> b \<and> b < s + nb sz)" using I(4)[OF y(1) x y(2)] by (auto simp: overlap_def)
    moreover have "busy (p_bitmap p) b" using I(5)[OF that] y by auto
    ultimately show "busy bm b" using sp(3) that by auto
  qed
  have "block_ok p' y" if "y \<in> L" for y using I(3)[OF that] by (cases y) (simp add: block_ok_def sp(1))
  moreover have "pool_wf p'" using I(1) sp(2) by (simp add: pool_wf_def sp(1))
  moreover have "p_free_blocks p + nb sz + (\<Sum>y \<in> L - {(s, sz)}. nb (snd y)) = 32 * p_nr_blocks p"
    using I(2,6) x by (simp add: sum.remove)
  ultimately show ?thesis using I(2,4) bits unfolding heap_inv_def by (auto simp: sp(1))
qed

lemma heap_inv_write:
  assumes inv: "heap_inv p L" and x: "(s, sz) \<in> L" and k: "k + length d \<le> unat sz"
    and w: "mem_write (p_map p) (32 * s + 8 + k) d = Some m"
  shows "heap_inv (p\<lparr>p_map := m\<rparr>) L"
proof -
  note I = heap_invD[OF inv]
  let ?p = "p\<lparr>p_map := m\<rparr>"
  note b = ok_size_bounds[OF block_okD(1)[OF I(3)[OF x]]]
  have fr: "frame (p_map p) (p_map ?p) (32 * s) (32 * nb sz)"
    using mem_write_frame[OF w, of "32 * s" "32 * nb sz"] k b by simp
  have own: "block_ok ?p (s, sz)"
    using I(3)[OF x] b k by (simp add: block_ok_def get_u32_def mem_read_write_other[OF w])
  have blk: "block_ok ?p y" if y: "y \<in> L" for y
  proof (cases "y = (s, sz)")
    case False
    then have "fst y + nb (snd y) \<le> s \<or> s + nb sz \<le> fst y" using I(4)[OF y x] by (auto simp: overlap_def)
    then show ?thesis using block_ok_frame[of p "fst y" "snd y" ?p s "nb sz"] I(3)[OF y] fr by simp
  qed (use own in simp)
  have "pool_wf ?p" using I(1) fr by (simp add: pool_wf_def frame_def)
  then show ?thesis using inv blk by (simp add: heap_inv_def)
qed

lemma heap_inv_full:
  assumes "heap_inv p L" "ok_size sz" "smalloc_pool p sz = Some (p', None)"
  shows "heap_inv p' L"
proof -
  obtain q where q: "smalloc_pool_blocks p (alloc_size_of sz) = Some (q, None)" "p' = q"
    using assms(3) by (auto simp: smalloc_pool_def Let_def split: bind_splits option.splits)
  then have "q = p \<or> smalloc_loop p (nb sz) (p_next_non_full p) 0 = Some (q, None)"
    unfolding smalloc_pool_blocks_def Let_def nb_def by (simp split: if_splits bind_splits option.splits prod.splits)
  then obtain k where "q = p\<lparr>p_next_non_full := k\<rparr>"
  proof
    assume "q = p"
    then show ?thesis using that[of "p_next_non_full p"] by simp
  next
    assume "smalloc_loop p (nb sz) (p_next_non_full p) 0 = Some (q, None)"
    from smalloc_loop_sound[OF this ok_size_bounds(5)[OF assms(2)]] heap_invD(1)[OF assms(1)]
    show ?thesis using that by (auto simp: pool_wf_def)
  qed
  then show ?thesis using assms(1) q(2) by (simp add: heap_inv_def pool_wf_def block_ok_def)
qed

lemma add_pool_fresh:
  assumes "add_pool (Some addr) True sz = (True, Some p)"
  shows "\<exists>n mm. 1024 * n < 2 ^ 32 \<and> p = \<lparr>p_base = addr, p_map = replicate (n * 1024) 0, p_bitmap = replicate n 0,
    p_free_blocks = n * 32, p_nr_blocks = n, p_next_non_full = 0, p_mmap_size = mm\<rparr>"
proof -
  have "1024 * unat (a div 1024) < 2 ^ 32" for a :: u32
    using unat_lt[of a] by (simp add: unat_div)
  then show ?thesis using assms unfolding add_pool_def Let_def by fastforce
qed

lemma add_pool_inv:
  assumes "add_pool (Some addr) True sz = (True, Some p)" "unat addr mod 4096 = 0" "unat addr + 2 ^ 32 \<le> 2 ^ 64"
  shows "heap_inv p {}"
proof -
  obtain n mm where n: "1024 * n < 2 ^ 32" and p: "p = \<lparr>p_base = addr, p_map = replicate (n * 1024) 0, p_bitmap = replicate n 0,
    p_free_blocks = n * 32, p_nr_blocks = n, p_next_non_full = 0, p_mmap_size = mm\<rparr>"
    using add_pool_fresh[OF assms(1)] by blast
  have "unat addr mod 4 = 0" using assms(2) mod_mod_cancel[of 4 4096 "unat addr"] by simp
  moreover have "\<not> busy (replicate n 0) b" if "b < 32 * n" for b using that by (auto simp: busy_def)
  ultimately show ?thesis using n assms(3) by (simp add: heap_inv_def pool_wf_def p)
qed

end
