(* ===== verification/Smalloc_Heap.thy ===== *)
theory Smalloc_Heap
  imports Smalloc
begin

text \<open>
  What the allocator guarantees: the states of a pool under any sequence of allocations, frees and
  writes, and the behaviour of \<open>smalloc\<close> over all pools.
\<close>

section \<open>Properties\<close>

text \<open>The states of a pool under any sequence of allocations, frees of live blocks and writes of the
  clients into their blocks; the set holds the live blocks with the sizes that were asked for.\<close>

inductive heap :: "pool \<Rightarrow> (nat \<times> u32) set \<Rightarrow> bool" where
  heap_new: "add_pool (Some addr) True sz = (True, Some p) \<Longrightarrow> unat addr mod 4096 = 0 \<Longrightarrow> unat addr + 2 ^ 32 \<le> 2 ^ 64 \<Longrightarrow> heap p {}"
| heap_alloc: "heap p L \<Longrightarrow> ok_size sz \<Longrightarrow> smalloc_pool p sz = Some (p', Some off) \<Longrightarrow> heap p' (insert ((off - 8) div 32, sz) L)"
| heap_full: "heap p L \<Longrightarrow> ok_size sz \<Longrightarrow> smalloc_pool p sz = Some (p', None) \<Longrightarrow> heap p' L"
| heap_free: "heap p L \<Longrightarrow> (s, sz) \<in> L \<Longrightarrow> sfree_pool p (32 * s + 8) = Some p' \<Longrightarrow> heap p' (L - {(s, sz)})"
| heap_write: "heap p L \<Longrightarrow> (s, sz) \<in> L \<Longrightarrow> k + length d \<le> unat sz \<Longrightarrow> mem_write (p_map p) (32 * s + 8 + k) d = Some m
    \<Longrightarrow> heap (p\<lparr>p_map := m\<rparr>) L"

lemma heap_heap_inv: "heap p L \<Longrightarrow> heap_inv p L"
proof (induction rule: heap.induct)
  case (heap_alloc p L sz p' off)
  then obtain s where "off = 32 * s + 8" "heap_inv p' (insert (s, sz) L)"
    using heap_inv_alloc by blast
  then show ?case by simp
qed (auto intro: add_pool_inv heap_inv_full heap_inv_free heap_inv_write)

lemma free_blocks_count:
  assumes inv: "heap_inv p L"
  shows "p_free_blocks p = card {b. b < 32 * p_nr_blocks p \<and> \<not> busy (p_bitmap p) b}"
proof -
  note I = heap_invD[OF inv]
  define B where "B x = {fst x ..< fst x + nb (snd x)}" for x :: "nat \<times> u32"
  have mem: "b \<in> B x \<longleftrightarrow> fst x \<le> b \<and> b < fst x + nb (snd x)" for b x by (simp add: B_def)
  have inside: "b < 32 * p_nr_blocks p" if "x \<in> L" "b \<in> B x" for x b
    using block_okD(2)[of p "fst x" "snd x"] I(3)[OF that(1)] that(2) by (simp add: mem)
  have "{b. b < 32 * p_nr_blocks p \<and> busy (p_bitmap p) b} = (\<Union>x \<in> L. B x)"
    by (rule set_eqI) (use I(5) inside in \<open>auto simp: mem[symmetric]\<close>)
  moreover have "card (\<Union>x \<in> L. B x) = (\<Sum>x \<in> L. card (B x))"
  proof (rule card_UN_disjoint[OF I(2)])
    show "\<forall>x \<in> L. finite (B x)" by (simp add: B_def)
    show "\<forall>x \<in> L. \<forall>y \<in> L. x \<noteq> y \<longrightarrow> B x \<inter> B y = {}"
    proof (intro ballI impI)
      fix x y assume "x \<in> L" "y \<in> L" "x \<noteq> y"
      from I(4)[OF this] show "B x \<inter> B y = {}" by (auto simp: B_def overlap_def)
    qed
  qed
  ultimately have busy: "card {b. b < 32 * p_nr_blocks p \<and> busy (p_bitmap p) b} = (\<Sum>x \<in> L. nb (snd x))" by (simp add: B_def)
  define U F where "U = {b. b < 32 * p_nr_blocks p \<and> busy (p_bitmap p) b}" and "F = {b. b < 32 * p_nr_blocks p \<and> \<not> busy (p_bitmap p) b}"
  have "U \<union> F = {..< 32 * p_nr_blocks p}" "U \<inter> F = {}" "finite U" "finite F" by (auto simp: U_def F_def)
  then have "card U + card F = 32 * p_nr_blocks p" using card_Un_disjoint[of U F] by simp
  then show ?thesis using busy I(6) by (simp add: U_def F_def)
qed

text \<open>C20: whatever the sequence of operations, the data areas of two live allocations of a pool do not
  overlap, they lie inside the mapping, and the free counter equals the number of clear bits.\<close>

theorem smalloc_no_overlap:
  assumes "heap p L"
  shows "(\<forall>(s, sz) \<in> L. 32 * s + 8 + unat sz \<le> length (p_map p)) \<and>
    (\<forall>(s, sz) \<in> L. \<forall>(t, z) \<in> L. (s, sz) \<noteq> (t, z) \<longrightarrow> 32 * s + 8 + unat sz \<le> 32 * t + 8 \<or> 32 * t + 8 + unat z \<le> 32 * s + 8) \<and>
    p_free_blocks p = card {b. b < 32 * p_nr_blocks p \<and> \<not> busy (p_bitmap p) b}"
proof -
  note I = heap_invD[OF heap_heap_inv[OF assms]]
  have blk: "8 + unat sz \<le> 32 * nb sz" "0 < nb sz" "s + nb sz \<le> 32 * p_nr_blocks p" if "(s, sz) \<in> L" for s sz
    using ok_size_bounds[OF block_okD(1)[OF I(3)[OF that]]] block_okD(2)[OF I(3)[OF that]] by simp_all
  have len: "length (p_map p) = 1024 * p_nr_blocks p" using I(1) by (simp add: pool_wf_def)
  note free_blocks_count[OF heap_heap_inv[OF assms]]
  moreover have "32 * s + 8 + unat sz \<le> 32 * t + 8 \<or> 32 * t + 8 + unat z \<le> 32 * s + 8"
    if "(s, sz) \<in> L" "(t, z) \<in> L" "(s, sz) \<noteq> (t, z)" for s sz t z
    using I(4)[OF that] blk(1)[OF that(1)] blk(1)[OF that(2)] by (auto simp: overlap_def)
  moreover have "32 * s + 8 + unat sz \<le> length (p_map p)" if "(s, sz) \<in> L" for s sz
    using blk[OF that] len by linarith
  ultimately show ?thesis by blast
qed

text \<open>C21: a live block can always be freed: as long as the clients write inside the sizes they asked
  for, neither the guard words nor the assertions on the bitmap fail, and the blocks are given back.\<close>

theorem sfree_live_block:
  assumes "heap p L" "(s, sz) \<in> L"
  shows "\<exists>p'. sfree_pool p (32 * s + 8) = Some p' \<and> p_free_blocks p' = p_free_blocks p + size_to_blocks (alloc_size_of sz) \<and>
    on_range (\<lambda>b. \<not> busy (p_bitmap p') b) s (s + size_to_blocks (alloc_size_of sz))"
proof -
  note inv = heap_heap_inv[OF assms(1)]
  have fit: "s + nb sz \<le> 32 * p_nr_blocks p" using block_okD(2)[OF heap_invD(3)[OF inv assms(2)]] .
  obtain bm k where "sfree_pool p (32 * s + 8) =
      Some (p\<lparr>p_bitmap := bm, p_next_non_full := k, p_free_blocks := p_free_blocks p + nb sz\<rparr>)"
    "\<forall>b < 32 * p_nr_blocks p. busy bm b \<longleftrightarrow> \<not> (s \<le> b \<and> b < s + nb sz) \<and> busy (p_bitmap p) b"
    using sfree_pool_spec[OF inv assms(2)] by blast
  then show ?thesis using fit by (auto simp: on_range_def nb_def[symmetric])
qed

lemma fresh_alloc:
  assumes add: "add_pool (Some addr) True sz = (True, Some p)" and addr: "unat addr mod 4096 = 0" "unat addr + 2 ^ 32 \<le> 2 ^ 64"
    and sz: "unat sz + 2048 < 2 ^ 32"
  shows "\<exists>p'. smalloc_pool p sz = Some (p', Some 8)"
proof -
  have ok: "ok_size sz" using sz by (simp add: ok_size_def)
  note b = ok_size_bounds[OF ok]
  have inv: "heap_inv p {}" using add_pool_inv[OF add addr] .
  note wf = heap_invD(1)[OF inv]
  define a :: u32 where "a = (let a = sz + 4 + 8 in if a < INITIAL_SIZE then INITIAL_SIZE else a)"
  have ua: "unat (sz + 4 + 8) = unat sz + 12" using sz by (simp add: unat_word_ariths add.assoc)
  have a: "unat sz + 12 \<le> unat a" "unat a + 1023 < 2 ^ 32" "1024 \<le> unat a"
    using ua sz by (auto simp: a_def Let_def INITIAL_SIZE_def word_less_nat_alt)
  obtain n mm where p: "p = \<lparr>p_base = addr, p_map = replicate (n * 1024) 0, p_bitmap = replicate n 0,
    p_free_blocks = n * 32, p_nr_blocks = n, p_next_non_full = 0, p_mmap_size = mm\<rparr>"
    using add_pool_fresh[OF add] by blast
  have "n = unat (((a + 1024 - 1) AND NOT (1024 - 1)) div 1024)"
    using add unfolding add_pool_def Let_def a_def by (auto simp: p)
  moreover have "unat (((a + 1024 - 1) AND NOT (1024 - 1)) div 1024) = (unat a + 1023) div 1024"
    using unat_align_down[of "a + 1023" 10] a(2) by (simp add: unat_div mask_eq_exp_minus_1 unat_word_ariths add_diff_eq[symmetric])
  ultimately have n: "unat a \<le> 1024 * n" "0 < n" using a by auto
  have fits: "nb sz \<le> 32 * n"
  proof -
    obtain k where k: "unat (alloc_size_of sz) = 4 * k" using b(3) by auto
    have "unat (alloc_size_of sz) + 31 < 2 ^ 32" using b(2) sz by simp
    then have "32 * nb sz < 4 * k + 32" using blocks_cover[of "alloc_size_of sz"] k by (simp add: nb_def)
    moreover have "k \<le> 256 * n" using b(2) a(1) n(1) k by linarith
    ultimately show ?thesis by linarith
  qed
  have find: "find_next_zero (0 :: u32) 0 = Some 0" by (simp add: find_next_zero_def ffz_def c_ffs_def)
  have "blocks_iter n (replicate n 0) 0 0 (nb sz) mask_cmp = Some (True, replicate n 0)"
    using blocks_iter_cmp[of 0 "replicate n 0" n "nb sz" 0] b(5) fits by (simp add: on_range_def busy_def)
  then have free: "blocks_free p 0 0 (nb sz) = Some True" by (simp add: blocks_free_def p)
  obtain q where q: "set_blocks p 0 0 (nb sz) = Some q"
    using found_blocks[OF _ b(5) _ free] n(2) by (auto simp: p)
  have "smalloc_loop p (nb sz) 0 0 = Some (q, Some 0)"
    using n(2) find free q by (subst smalloc_loop.simps) (simp add: p)
  then have "smalloc_pool_blocks p (alloc_size_of sz) = Some (q\<lparr>p_free_blocks := p_free_blocks q - nb sz\<rparr>, Some 0)"
    using fits by (simp add: smalloc_pool_blocks_def nb_def Let_def p)
  from smalloc_pool_run[OF wf ok this] show ?thesis by auto
qed

text \<open>What \<open>mmap\<close> returns is a page aligned mapping that does not wrap around.\<close>

definition env_ok :: "(nat \<Rightarrow> u64 option \<times> bool) \<Rightarrow> bool" where
  "env_ok env \<longleftrightarrow> (\<forall>n addr. fst (env n) = Some addr \<longrightarrow> unat addr mod 4096 = 0 \<and> unat addr + 2 ^ 32 \<le> 2 ^ 64)"

lemma smalloc_go_fresh:
  assumes "add_pool (Some addr) True sz = (True, Some pool)" "unat addr mod 4096 = 0" "unat addr + 2 ^ 32 \<le> 2 ^ 64"
    and "unat sz + 2048 < 2 ^ 32"
  shows "\<exists>st'. smalloc_go env (st\<lparr>mp := mp st @ [pool]\<rparr>) sz (length (mp st)) = Some (st', Some (length (mp st), 8))"
proof -
  obtain p' where "smalloc_pool pool sz = Some (p', Some 8)" using fresh_alloc[OF assms] by blast
  then show ?thesis by (subst smalloc_go.simps) (simp add: arr_get_def)
qed

lemma smalloc_go_fails:
  assumes "smalloc_go env st sz i = Some (st', None)" "env_ok env" "unat sz + 2048 < 2 ^ 32" "length (mp st) \<le> MAX_POOLS"
  shows "length (mp st') = MAX_POOLS \<or> fst (env (length (mp st'))) = None \<or> \<not> snd (env (length (mp st')))"
  using assms
proof (induction "if last_pool st = 0 then 0 else 1 :: nat" arbitrary: st i st' rule: less_induct)
  case less
  obtain st1 ret where s1: "smalloc_pools st sz i (length (mp st) - i) = Some (st1, ret)"
    using less.prems(1) by (auto simp: smalloc_go.simps[of env st sz i] split: bind_splits)
  have ret: "ret = None" using less.prems(1) s1 by (cases ret) (auto simp: smalloc_go.simps[of env st sz i])
  note len = smalloc_pools_mp[OF s1]
  let ?n = "length (mp st1)"
  have run: "(if last_pool st1 \<noteq> 0 then smalloc_go env (st1\<lparr>last_pool := 0\<rparr>) sz (max i (length (mp st)))
      else if ?n + 1 > MAX_POOLS then Some (st1, None)
      else (case add_pool (fst (env ?n)) (snd (env ?n)) sz of
              (True, Some pool) \<Rightarrow> smalloc_go env (st1\<lparr>mp := mp st1 @ [pool]\<rparr>) sz ?n
            | _ \<Rightarrow> Some (st1, None))) = Some (st', None)"
    using less.prems(1) s1 ret by (simp add: smalloc_go.simps[of env st sz i] Let_def)
  consider "last_pool st1 \<noteq> 0" | "last_pool st1 = 0" "?n + 1 > MAX_POOLS" | "last_pool st1 = 0" "?n + 1 \<le> MAX_POOLS" by linarith
  then show ?case
  proof cases
    case 1
    then show ?thesis using less.hyps[of "st1\<lparr>last_pool := 0\<rparr>"] run less.prems(2-4) len ret by auto
  next
    case 2
    then show ?thesis using run less.prems(4) len by auto
  next
    case 3
    show ?thesis
    proof (cases "fst (env ?n) = None \<or> \<not> snd (env ?n)")
      case True
      then show ?thesis using 3 run by (auto simp: add_pool_def Let_def split: option.splits)
    next
      case False
      then obtain addr pool where "fst (env ?n) = Some addr" "snd (env ?n)" "add_pool (Some addr) True sz = (True, Some pool)"
        by (auto simp: add_pool_def Let_def)
      then show ?thesis
        using 3 run smalloc_go_fresh[of addr sz pool env st1] less.prems(2,3) by (auto simp: env_ok_def)
    qed
  qed
qed


lemma busy_at: "j < 32 \<Longrightarrow> busy bm (32 * i + j) \<longleftrightarrow> bit (bm ! i) j"
  by (simp add: busy_def)


section \<open>Concrete pools\<close>

lemma demo_heap: "\<exists>p. heap p {(0, 100)}"
proof -
  obtain p where p: "add_pool (Some 4096) True 100 = (True, Some p)" by (auto simp: add_pool_def Let_def)
  obtain p' where "smalloc_pool p 100 = Some (p', Some 8)" using fresh_alloc[OF p] by auto
  from heap_alloc[OF heap_new[OF p] _ this] show ?thesis by (auto simp: ok_size_def)
qed

theorem smalloc_no_overlap_witness:
  "\<exists>p. heap p {(0, 100)} \<and> 32 * 0 + 8 + unat (100 :: u32) \<le> length (p_map p)"
  using smalloc_no_overlap demo_heap by fastforce

theorem sfree_live_block_witness:
  "\<exists>p p'. heap p {(0, 100)} \<and> sfree_pool p (32 * 0 + 8) = Some p'"
  using sfree_live_block[of _ "{(0, 100)}" 0 100] demo_heap by blast

definition demo_env :: "nat \<Rightarrow> u64 option \<times> bool" where
  "demo_env n = (None, True)"


definition demo_pool :: pool where
  "demo_pool = \<lparr>p_base = 4096, p_map = replicate 2048 0, p_bitmap = [0xfffffffe, 0], p_free_blocks = 33, p_nr_blocks = 2,
     p_next_non_full = 0, p_mmap_size = 2056\<rparr>"

lemma bit_fffffffe: "j < 32 \<Longrightarrow> bit (0xfffffffe :: u32) j \<longleftrightarrow> j \<noteq> 0"
proof -
  assume "j < 32"
  then have "bit (NOT 1 :: u32) j \<longleftrightarrow> j \<noteq> 0" by (simp only: bit_not_iff bit_1_iff possible_bit_word) auto
  moreover have "(0xfffffffe :: u32) = NOT 1" by simp
  ultimately show ?thesis by (simp only:)
qed


end
