(* ===== verification/Io_Setup.thy ===== *)
theory Io_Setup
  imports Io_Map Smalloc_Heap
begin

text \<open>
  Before a job runs: the options that depend on each other (\<open>fixup_options\<close> of \<open>init.c\<close>), and the sizes
  and the random maps of its files (\<open>filesetup.c\<close>). The platform is one with process shared mutexes
  and \<open>fdatasync\<close>. The global \<open>warnings_fatal\<close> is an argument; messages are left out.
\<close>

section \<open>Options\<close>

definition set_o :: "(thread_options \<Rightarrow> thread_options) \<Rightarrow> 'd thread_data \<Rightarrow> 'd thread_data" where
  "set_o g td = td\<lparr>td_o := g (td_o td)\<rparr>"

lemma set_o_simps [simp]: "td_o (set_o g td) = g (td_o td)" "td_vtd (set_o g td) = td_vtd td" "td_files (set_o g td) = td_files td"
  by (simp_all add: set_o_def)

definition fixed_block_size :: "thread_options \<Rightarrow> bool" where
  "fixed_block_size opts \<longleftrightarrow> fst (o_min_bs opts) = fst (o_max_bs opts) \<and> snd (o_min_bs opts) = snd (o_max_bs opts) \<and>
     fst (o_min_bs opts) = snd (o_min_bs opts)"

text \<open>A field that the code overwrites under a condition gets a conditional value here.\<close>

definition fixup_modes :: "int \<Rightarrow> 'd thread_data \<times> int \<Rightarrow> 'd thread_data \<times> int" where
  "fixup_modes warnings_fatal =
     (\<lambda>(td, ret).
      let conflict = o_write_iolog (td_o td) \<and> o_read_iolog (td_o td);
          ret = (if conflict then warnings_fatal else ret);
          verify = (o_verify (td_vtd td) \<noteq> VERIFY_NONE);
          td = set_o (\<lambda>opts. opts\<lparr>o_write_iolog := o_write_iolog opts \<and> \<not> conflict\<rparr>) td;
          td = set_o (\<lambda>opts. opts\<lparr>o_zone_size := (if o_zone_size opts \<noteq> 0 \<and> o_open_files opts = 1 then 0 else o_zone_size opts)\<rparr>) td;
          td = set_o (\<lambda>opts. opts\<lparr>o_again := (if \<not> td_random td \<or> \<not> td_write td then False else o_again opts)\<rparr>) td;
          td = set_o (\<lambda>opts. opts\<lparr>o_norandommap := (if o_again opts \<and> verify \<and> o_norandommap opts then False else o_norandommap opts)\<rparr>) td;
          norandom = (o_again (td_o td) \<and> \<not> verify);
          td = set_o (\<lambda>opts. opts\<lparr>o_again := (if norandom then False else o_again opts), o_norandommap := (if norandom then True else o_norandommap opts)\<rparr>) td;
          td = set_o (\<lambda>opts. opts\<lparr>o_zone_range := (if o_zone_size opts \<noteq> 0 \<and> o_zone_range opts = 0 then o_zone_size opts else o_zone_range opts)\<rparr>) td;
          td = set_o (\<lambda>opts. opts\<lparr>o_overwrite := (if td_read td \<or> td_rw td then True else o_overwrite opts)\<rparr>) td
      in (td, ret))"

definition default_bs :: "u32 \<times> u32 \<Rightarrow> u32 \<times> u32 \<Rightarrow> u32 \<times> u32" where
  "default_bs b bs = (if fst b = 0 then fst bs else fst b, if snd b = 0 then snd bs else snd b)"

definition fixup_block_sizes :: "int \<Rightarrow> 'd thread_data \<times> int \<Rightarrow> 'd thread_data \<times> int" where
  "fixup_block_sizes warnings_fatal =
     (\<lambda>(td, ret).
      let td = set_o (\<lambda>opts. opts\<lparr>o_min_bs := default_bs (o_min_bs opts) (o_bs opts), o_max_bs := default_bs (o_max_bs opts) (o_bs opts)\<rparr>) td;
          td = set_o (\<lambda>opts. opts\<lparr>o_rwmin := min (fst (o_min_bs opts)) (snd (o_min_bs opts))\<rparr>) td;
          td = set_o (\<lambda>opts. opts\<lparr>o_ba := (if td_random td then default_bs (o_ba opts) (o_min_bs opts) else o_min_bs opts)\<rparr>) td;
          unaligned = (o_ba (td_o td) \<noteq> o_min_bs (td_o td) \<and> \<not> o_norandommap (td_o td));
          td = set_o (\<lambda>opts. opts\<lparr>o_norandommap := (if unaligned then True else o_norandommap opts)\<rparr>) td;
          ret = (if unaligned then warnings_fatal else ret);
          td = set_o (\<lambda>opts. opts\<lparr>o_file_size_high := (if o_file_size_high opts = 0 then o_file_size_low opts else o_file_size_high opts)\<rparr>) td;
          unchecked = (o_norandommap (td_o td) \<and> o_verify (td_vtd td) \<noteq> VERIFY_NONE \<and> \<not> fixed_block_size (td_o td));
          td = td\<lparr>td_vtd := (td_vtd td)\<lparr>o_verify := (if unchecked then VERIFY_NONE else o_verify (td_vtd td))\<rparr>\<rparr>;
          ret = (if unchecked then warnings_fatal else ret)
      in (td, ret))"

definition fixup_depths :: "'d thread_data \<Rightarrow> 'd thread_data" where
  "fixup_depths td =
     (let low = (if td_engine td = ''syslet-rw'' \<and> \<not> td_random td then 1 else o_iodepth (td_o td));
          files_index = of_nat (length (td_files td));
          td = set_o (\<lambda>opts. opts\<lparr>o_thinktime_spin := (if o_thinktime_spin opts > o_thinktime opts then o_thinktime opts else o_thinktime_spin opts)\<rparr>) td;
          td = set_o (\<lambda>opts. opts\<lparr>o_iodepth_low := (if o_iodepth_low opts > o_iodepth opts \<or> o_iodepth_low opts = 0 then low else o_iodepth_low opts)\<rparr>) td;
          td = set_o (\<lambda>opts. opts\<lparr>o_iodepth_batch := (if o_iodepth_batch opts > o_iodepth opts \<or> o_iodepth_batch opts = 0 then o_iodepth opts else o_iodepth_batch opts)\<rparr>) td;
          td = set_o (\<lambda>opts. opts\<lparr>o_nr_files := (if o_nr_files opts > files_index then files_index else o_nr_files opts)\<rparr>) td
      in set_o (\<lambda>opts. opts\<lparr>o_open_files := (if o_open_files opts > o_nr_files opts \<or> o_open_files opts = 0 then o_nr_files opts else o_open_files opts)\<rparr>) td)"

definition sum2 :: "u32 \<times> u32 \<Rightarrow> u32" where
  "sum2 p = fst p + snd p"

definition rates_conflict :: "thread_options \<Rightarrow> bool" where
  "rates_conflict opts \<longleftrightarrow>
     sum2 (o_rate opts) \<noteq> 0 \<and> sum2 (o_rate_iops opts) \<noteq> 0 \<or> sum2 (o_ratemin opts) \<noteq> 0 \<and> sum2 (o_rate_iops_min opts) \<noteq> 0"

definition rates_below_min :: "thread_options \<Rightarrow> bool" where
  "rates_below_min opts \<longleftrightarrow>
     fst (o_rate opts) < fst (o_ratemin opts) \<or> snd (o_rate opts) < snd (o_ratemin opts) \<or>
     fst (o_rate_iops opts) < fst (o_rate_iops_min opts) \<or> snd (o_rate_iops opts) < snd (o_rate_iops_min opts)"

definition fixup_rates :: "int \<Rightarrow> 'd thread_data \<times> int \<Rightarrow> 'd thread_data \<times> int" where
  "fixup_rates warnings_fatal =
     (\<lambda>(td, ret).
      let ret = (if rates_conflict (td_o td) then 1 else ret);
          ret = (if rates_below_min (td_o td) then 1 else ret);
          untimed = (o_timeout (td_o td) = 0 \<and> o_time_based (td_o td));
          td = set_o (\<lambda>opts. opts\<lparr>o_time_based := (if untimed then False else o_time_based opts)\<rparr>) td
      in (td, if untimed then warnings_fatal else ret))"

definition fixup_verify :: "int \<Rightarrow> 'd thread_data \<times> int \<Rightarrow> 'd thread_data \<times> int" where
  "fixup_verify warnings_fatal =
     (\<lambda>(td, ret).
      let td = set_o (\<lambda>opts. opts\<lparr>o_size := (if o_fill_device opts \<and> o_size opts = 0 then - 1 else o_size opts)\<rparr>) td
      in if o_verify (td_vtd td) = VERIFY_NONE then (td, ret)
         else let ret = (if td_write td \<and> o_do_verify (td_o td) \<and> o_numjobs (td_o td) > 1 then warnings_fatal else ret);
                  td = set_o (\<lambda>opts. opts\<lparr>o_refill_buffers := True\<rparr>) td;
                  varies = (snd (o_max_bs (td_o td)) \<noteq> snd (o_min_bs (td_o td)) \<and> o_verify_interval (td_vtd td) = 0);
                  td = td\<lparr>td_vtd := (td_vtd td)\<lparr>o_verify_interval := (if varies then snd (o_min_bs (td_o td)) else o_verify_interval (td_vtd td))\<rparr>\<rparr>
              in (td, ret))"

definition fixup_buffers :: "int \<Rightarrow> 'd thread_data \<times> int \<Rightarrow> 'd thread_data \<times> int" where
  "fixup_buffers warnings_fatal =
     (\<lambda>(td, ret).
      let ret = (if o_pre_read (td_o td) \<and> td_pipeio td then warnings_fatal else ret);
          full = (o_compress_percentage (td_o td) = 100);
          td = set_o (\<lambda>opts. opts\<lparr>o_invalidate_cache := (if o_pre_read opts then False else o_invalidate_cache opts)\<rparr>) td;
          td = set_o (\<lambda>opts. opts\<lparr>o_zero_buffers := (if full then True else o_zero_buffers opts), o_compress_percentage := (if full then 0 else o_compress_percentage opts)\<rparr>) td
      in (td, ret))"

definition fixup_options :: "int \<Rightarrow> 'd thread_data \<Rightarrow> 'd thread_data \<times> int" where
  "fixup_options warnings_fatal td =
     (let (td, ret) = fixup_block_sizes warnings_fatal (fixup_modes warnings_fatal (td, 0))
      in fixup_buffers warnings_fatal (fixup_verify warnings_fatal (fixup_rates warnings_fatal (fixup_depths td, ret))))"

subsection \<open>What the stages leave\<close>

lemma td_flags_set_o [simp]:
  "td_random (set_o g td) \<longleftrightarrow> o_td_ddir (g (td_o td)) AND TD_DDIR_RAND \<noteq> 0"
  "td_write (set_o g td) \<longleftrightarrow> o_td_ddir (g (td_o td)) AND TD_DDIR_WRITE \<noteq> 0"
  by (simp_all add: td_random_def td_write_def)

lemma fixup_block_sizes_rwmin:
  "o_rwmin (td_o (fst (fixup_block_sizes w x))) = min (fst (o_min_bs (td_o (fst (fixup_block_sizes w x))))) (snd (o_min_bs (td_o (fst (fixup_block_sizes w x)))))"
  by (cases x) (simp add: fixup_block_sizes_def Let_def)

lemma fixup_block_sizes_ba:
  "\<not> o_norandommap (td_o (fst (fixup_block_sizes w x))) \<Longrightarrow> o_ba (td_o (fst (fixup_block_sizes w x))) = o_min_bs (td_o (fst (fixup_block_sizes w x)))"
  by (cases x) (simp add: fixup_block_sizes_def Let_def split: if_splits)

lemma fixup_block_sizes_verify:
  "o_norandommap (td_o (fst (fixup_block_sizes w x))) \<Longrightarrow> o_verify (td_vtd (fst (fixup_block_sizes w x))) \<noteq> VERIFY_NONE \<Longrightarrow>
    fixed_block_size (td_o (fst (fixup_block_sizes w x)))"
  by (cases x) (simp add: fixup_block_sizes_def Let_def fixed_block_size_def split: if_splits)

lemma fixup_block_sizes_keeps:
  "o_td_ddir (td_o (fst (fixup_block_sizes w (td, r)))) = o_td_ddir (td_o td)" "o_again (td_o (fst (fixup_block_sizes w (td, r)))) = o_again (td_o td)"
  "td_files (fst (fixup_block_sizes w (td, r))) = td_files td"
  by (simp_all add: fixup_block_sizes_def Let_def)

lemma fixup_modes_again:
  "o_again (td_o (fst (fixup_modes w x))) \<Longrightarrow> td_random (fst (fixup_modes w x)) \<and> td_write (fst (fixup_modes w x))"
  by (cases x) (simp add: fixup_modes_def Let_def split: if_splits)

lemma fixup_depths_bounds:
  "o_thinktime_spin (td_o (fixup_depths td)) \<le> o_thinktime (td_o (fixup_depths td))"
  "o_iodepth_low (td_o (fixup_depths td)) \<le> max 1 (o_iodepth (td_o (fixup_depths td)))"
  "o_iodepth_batch (td_o (fixup_depths td)) \<le> o_iodepth (td_o (fixup_depths td))"
  "o_nr_files (td_o (fixup_depths td)) \<le> of_nat (length (td_files td))"
  "o_open_files (td_o (fixup_depths td)) \<le> o_nr_files (td_o (fixup_depths td))"
  by (auto simp: fixup_depths_def Let_def max_def not_less not_le)

lemma fixup_later_stages:
  assumes "(td', ret) = fixup_buffers w (fixup_verify w (fixup_rates w (td, r)))"
  shows "o_rwmin (td_o td') = o_rwmin (td_o td)" "o_ba (td_o td') = o_ba (td_o td)" "o_min_bs (td_o td') = o_min_bs (td_o td)" "o_max_bs (td_o td') = o_max_bs (td_o td)"
    "o_norandommap (td_o td') = o_norandommap (td_o td)" "o_again (td_o td') = o_again (td_o td)" "o_td_ddir (td_o td') = o_td_ddir (td_o td)"
    "o_thinktime (td_o td') = o_thinktime (td_o td)" "o_thinktime_spin (td_o td') = o_thinktime_spin (td_o td)"
    "o_iodepth (td_o td') = o_iodepth (td_o td)" "o_iodepth_low (td_o td') = o_iodepth_low (td_o td)" "o_iodepth_batch (td_o td') = o_iodepth_batch (td_o td)"
    "o_nr_files (td_o td') = o_nr_files (td_o td)" "o_open_files (td_o td') = o_open_files (td_o td)" "td_files td' = td_files td" "o_verify (td_vtd td') = o_verify (td_vtd td)"
    and "o_time_based (td_o td') \<Longrightarrow> o_timeout (td_o td') \<noteq> 0" "o_verify (td_vtd td') \<noteq> VERIFY_NONE \<Longrightarrow> o_refill_buffers (td_o td')" "o_compress_percentage (td_o td') \<noteq> 100"
  using assms by (simp_all add: fixup_buffers_def fixup_verify_def fixup_rates_def Let_def split: if_splits)

lemma fixup_depths_keeps:
  "o_rwmin (td_o (fixup_depths td)) = o_rwmin (td_o td)" "o_ba (td_o (fixup_depths td)) = o_ba (td_o td)" "o_min_bs (td_o (fixup_depths td)) = o_min_bs (td_o td)"
  "o_max_bs (td_o (fixup_depths td)) = o_max_bs (td_o td)" "o_norandommap (td_o (fixup_depths td)) = o_norandommap (td_o td)" "o_again (td_o (fixup_depths td)) = o_again (td_o td)"
  "o_td_ddir (td_o (fixup_depths td)) = o_td_ddir (td_o td)" "td_files (fixup_depths td) = td_files td" "td_vtd (fixup_depths td) = td_vtd td"
  by (simp_all add: fixup_depths_def Let_def)

lemma fixup_options_aligned:
  assumes "fixup_options w td = (td', ret)" "\<not> o_norandommap (td_o td')" "ddir_rw ddir"
  shows "o_rwmin (td_o td') \<le> at2 (o_ba (td_o td')) ddir"
proof -
  obtain t1 r1 where m: "fixup_modes w (td, 0) = (t1, r1)" by fastforce
  obtain t2 r2 where b: "fixup_block_sizes w (t1, r1) = (t2, r2)" by fastforce
  have l: "(td', ret) = fixup_buffers w (fixup_verify w (fixup_rates w (fixup_depths t2, r2)))"
    using assms(1) by (simp add: fixup_options_def m b)
  show ?thesis
    using fixup_block_sizes_rwmin[of w "(t1, r1)"] fixup_block_sizes_ba[of w "(t1, r1)"] fixup_later_stages(1,2,3,5)[OF l] assms(2,3)
    by (auto simp: b fixup_depths_keeps ddir_rw_def)
qed

text \<open>C: The options a job runs with fit together: the map of random blocks is used only when offsets are
  aligned to the smallest block size, random repeats need a random writer, low water mark, batch and
  numbers of files stay within their limits, a time based job has a time limit, and verification
  refills the buffers and has a map or a fixed block size.\<close>

theorem fixup_options_sane:
  assumes "fixup_options w td = (td', ret)"
  shows "o_rwmin (td_o td') = min (fst (o_min_bs (td_o td'))) (snd (o_min_bs (td_o td'))) \<and>
    (o_norandommap (td_o td') \<or> o_ba (td_o td') = o_min_bs (td_o td')) \<and>
    (o_again (td_o td') \<longrightarrow> td_random td' \<and> td_write td') \<and>
    o_thinktime_spin (td_o td') \<le> o_thinktime (td_o td') \<and>
    o_iodepth_low (td_o td') \<le> max 1 (o_iodepth (td_o td')) \<and> o_iodepth_batch (td_o td') \<le> o_iodepth (td_o td') \<and>
    o_open_files (td_o td') \<le> o_nr_files (td_o td') \<and> o_nr_files (td_o td') \<le> of_nat (length (td_files td')) \<and>
    (o_time_based (td_o td') \<longrightarrow> o_timeout (td_o td') \<noteq> 0) \<and>
    (o_verify (td_vtd td') \<noteq> VERIFY_NONE \<longrightarrow> o_refill_buffers (td_o td') \<and> (\<not> o_norandommap (td_o td') \<or> fixed_block_size (td_o td')))"
proof -
  obtain t1 r1 where m: "fixup_modes w (td, 0) = (t1, r1)" by fastforce
  obtain t2 r2 where b: "fixup_block_sizes w (t1, r1) = (t2, r2)" by fastforce
  have l: "(td', ret) = fixup_buffers w (fixup_verify w (fixup_rates w (fixup_depths t2, r2)))"
    using assms by (simp add: fixup_options_def m b)
  note later = fixup_later_stages[OF l]
  note bs = fixup_block_sizes_rwmin[of w "(t1, r1)"] fixup_block_sizes_ba[of w "(t1, r1)"] fixup_block_sizes_verify[of w "(t1, r1)"] fixup_block_sizes_keeps[of w t1 r1]
  note md = fixup_modes_again[of w "(td, 0)"]
  show ?thesis
    using bs[unfolded b] md[unfolded m] later fixup_depths_bounds[of t2] by (auto simp: fixup_depths_keeps td_random_def td_write_def fixed_block_size_def)
qed

definition setup_td :: "real thread_data" where
  "setup_td = zero_td\<lparr>td_o := zero_options\<lparr>o_td_ddir := 6, o_bs := (4096, 4096), o_iodepth := 1, o_nr_files := 1, o_rate := (0, 100), o_rate_iops := (0, 10), o_time_based := True\<rparr>,
     td_files := [zero_file\<lparr>f_real_file_size := 2 ^ 20\<rparr>]\<rparr>"

theorem fixup_options_sane_witness:
  "o_rwmin (td_o (fst (fixup_options 0 setup_td))) \<le> fst (o_min_bs (td_o (fst (fixup_options 0 setup_td)))) \<and>
   o_open_files (td_o (fst (fixup_options 0 setup_td))) \<le> o_nr_files (td_o (fst (fixup_options 0 setup_td))) \<and>
   o_nr_files (td_o (fst (fixup_options 0 setup_td))) \<le> of_nat (length (td_files (fst (fixup_options 0 setup_td))))"
  using fixup_options_sane[OF prod.collapse[symmetric], of 0 setup_td] by simp

text \<open>The rates and the time limit pass the stages unchanged.\<close>

definition rate_opts :: "thread_options \<Rightarrow> (u32 \<times> u32) list \<times> u64" where
  "rate_opts opts = ([o_rate opts, o_ratemin opts, o_rate_iops opts, o_rate_iops_min opts], o_timeout opts)"

lemma rate_opts_stages:
  "rate_opts (td_o (fst (fixup_modes w (td, r)))) = rate_opts (td_o td) \<and> o_time_based (td_o (fst (fixup_modes w (td, r)))) = o_time_based (td_o td)"
  "rate_opts (td_o (fst (fixup_block_sizes w (td, r)))) = rate_opts (td_o td) \<and> o_time_based (td_o (fst (fixup_block_sizes w (td, r)))) = o_time_based (td_o td)"
  "rate_opts (td_o (fixup_depths td)) = rate_opts (td_o td) \<and> o_time_based (td_o (fixup_depths td)) = o_time_based (td_o td)"
  "rate_opts (td_o (fst (fixup_rates w (td, r)))) = rate_opts (td_o td)"
  by (simp_all add: rate_opts_def fixup_modes_def fixup_block_sizes_def fixup_depths_def fixup_rates_def Let_def)

lemma fixup_rates_untimed: "o_time_based (td_o td) \<Longrightarrow> o_timeout (td_o td) = 0 \<Longrightarrow> snd (fixup_rates w (td, r)) = w"
  by (simp add: fixup_rates_def Let_def)

lemma rate_opts_late:
  "snd (fixup_buffers 0 (fixup_verify 0 (td, 0))) = 0 \<and> rate_opts (td_o (fst (fixup_buffers 0 (fixup_verify 0 (td, 0))))) = rate_opts (td_o td)"
  by (simp add: rate_opts_def fixup_verify_def fixup_buffers_def Let_def)

text \<open>C: A fatal conflict of the options is forgotten when a later warning is not fatal: a time based job
  without a time limit passes, whatever its rates are.\<close>

theorem fixup_error_lost:
  assumes "o_time_based (td_o td)" "o_timeout (td_o td) = 0" "rates_conflict (td_o td) \<or> rates_below_min (td_o td)"
  shows "snd (fixup_options 0 td) = 0 \<and> rates_conflict (td_o (fst (fixup_options 0 td))) = rates_conflict (td_o td) \<and>
    rates_below_min (td_o (fst (fixup_options 0 td))) = rates_below_min (td_o td)"
proof -
  obtain t1 r1 where m: "fixup_modes 0 (td, 0) = (t1, r1)" by fastforce
  obtain t2 r2 where b: "fixup_block_sizes 0 (t1, r1) = (t2, r2)" by fastforce
  obtain t4 r4 where r: "fixup_rates 0 (fixup_depths t2, r2) = (t4, r4)" by fastforce
  have o: "rate_opts (td_o t4) = rate_opts (td_o td)" "r4 = 0"
    using rate_opts_stages(1)[of 0 td 0] rate_opts_stages(2)[of 0 t1 r1] rate_opts_stages(3)[of t2] rate_opts_stages(4)[of 0 "fixup_depths t2" r2]
      fixup_rates_untimed[of "fixup_depths t2" 0 r2] assms(1,2) by (auto simp: m b r rate_opts_def)
  have "fixup_options 0 td = fixup_buffers 0 (fixup_verify 0 (t4, 0))" by (simp add: fixup_options_def m b r o(2))
  thus ?thesis using rate_opts_late[of t4] o(1) by (auto simp: rate_opts_def rates_conflict_def rates_below_min_def)
qed

theorem fixup_error_lost_witness:
  "snd (fixup_options 0 setup_td) = 0 \<and> rates_conflict (td_o (fst (fixup_options 0 setup_td)))"
  using fixup_error_lost[of setup_td] by (simp add: setup_td_def zero_defs rates_conflict_def sum2_def)

section \<open>Files\<close>

text \<open>Sizes of the files. The fields that the engine or the file system report are already set.\<close>

definition get_rand_file_size :: "os_random \<Rightarrow> 'd thread_data \<Rightarrow> (u64 \<times> 'd thread_data) option" where
  "get_rand_file_size osr td =
     (let os = o_use_os_rand (td_o td); (r, st) = next_rand osr os (td_file_size_state td);
          sized = o_file_size_high (td_o td) - o_file_size_low (td_o td);
          ret = of_nat (scale_rand (unat sized) os r) + o_file_size_low (td_o td)
      in if o_rwmin (td_o td) = 0 then None
         else Some (ret - ret mod ucast (o_rwmin (td_o td)), td\<lparr>td_file_size_state := st\<rparr>))"

datatype size_result = Size_ok u64 | Size_bad_offset

definition file_io_size :: "os_random \<Rightarrow> 'd thread_data \<Rightarrow> fio_file \<Rightarrow> (size_result \<times> 'd thread_data) option" where
  "file_io_size osr td f =
     (let opts = td_o td; off = f_file_offset f
      in if o_file_size_low opts = 0 then
           if o_nr_files opts = 0 then None
           else let sz = o_size opts div ucast (o_nr_files opts)
                in Some (Size_ok (if sz = 0 then f_real_file_size f - off else sz), td)
         else if f_real_file_size f < o_file_size_low opts \<or> f_real_file_size f > o_file_size_high opts then
           if off > o_file_size_low opts then Some (Size_bad_offset, td)
           else if o_file_size_low opts = o_file_size_high opts then Some (Size_ok (o_file_size_low opts - off), td)
           else do {
             (sz, td) \<leftarrow> get_rand_file_size osr td;
             Some (Size_ok (sz - off), td)
           }
         else Some (Size_ok (f_real_file_size f - off), td))"

text \<open>The second loop of \<open>setup_files\<close>: the offset and the size of each file, the sum of the sizes, and the
  files that have to be extended.\<close>

record size_state =
  z_total :: u64
  z_need_extend :: u32
  z_extend :: u64

fun size_files :: "os_random \<Rightarrow> 'd thread_data \<Rightarrow> size_state \<Rightarrow> fio_file list \<Rightarrow> (bool \<times> 'd thread_data \<times> size_state \<times> fio_file list) option" where
  "size_files osr td z [] = Some (False, td, z, [])"
| "size_files osr td z (f # fs) = do {
     let f = f\<lparr>f_file_offset := o_start_offset (td_o td) + (ucast (td_thread_number td) - 1) * o_offset_increment (td_o td)\<rparr>;
     (r, td) \<leftarrow> file_io_size osr td f;
     (case r of
        Size_bad_offset \<Rightarrow> Some (True, td, z, f # fs)
      | Size_ok sz \<Rightarrow> do {
          let f = f\<lparr>f_io_size := sz\<rparr>;
          let z = z\<lparr>z_total := (if sz = - 1 then - 1 else z_total z + sz)\<rparr>;
          let grow = f_filetype f = FIO_TYPE_FILE \<and> sz + f_file_offset f > f_real_file_size f \<and> \<not> td_diskless td;
          let (z, f) = (if grow \<and> \<not> o_create_on_open (td_o td)
                        then (z\<lparr>z_need_extend := z_need_extend z + 1, z_extend := z_extend z + (sz + f_file_offset f)\<rparr>, f)
                        else if grow then (z, f\<lparr>f_real_file_size := sz + f_file_offset f\<rparr>) else (z, f));
          let f = f\<lparr>f_extend := f_extend f \<or> grow\<rparr>;
          (failed, td, z, fs) \<leftarrow> size_files osr td z fs;
          Some (failed, td, z, f # fs)
        })
   }"

text \<open>The part of \<open>setup_files\<close> between the sizes of the files and the extension of the files: the total
  size limits the size of the job.\<close>

definition setup_sizes :: "os_random \<Rightarrow> 'd thread_data \<Rightarrow> (bool \<times> 'd thread_data \<times> size_state) option" where
  "setup_sizes osr td = do {
     fs \<leftarrow> mem_read (td_files td) 0 (unat (o_nr_files (td_o td)));
     (failed, td, z, fs) \<leftarrow> size_files osr td \<lparr>z_total = 0, z_need_extend = 0, z_extend = 0\<rparr> fs;
     let td = td\<lparr>td_files := fs @ drop (length fs) (td_files td)\<rparr>;
     if failed then Some (True, td, z)
     else do {
       let total = (if o_size_percent (td_o td) \<noteq> 0 then z_total z * ucast (o_size_percent (td_o td)) div 100 else z_total z);
       let td = set_o (\<lambda>opts. opts\<lparr>o_size := (if o_size opts = 0 \<or> o_size opts > total then total else o_size opts)\<rparr>) td;
       Some (False, td, z)
     }
   }"

text \<open>The files that need it get their new size; \<open>extend_file\<close> and \<open>invalidate\<close> are the errors of writing
  a file out and of dropping it from the cache.\<close>

fun extend_files :: "(fio_file \<Rightarrow> int) \<Rightarrow> (fio_file \<Rightarrow> int) \<Rightarrow> fio_file list \<Rightarrow> (int \<times> fio_file list) option" where
  "extend_files extend_file invalidate [] = Some (0, [])"
| "extend_files extend_file invalidate (f # fs) =
     (if \<not> f_extend f then map_option (\<lambda>(err, fs). (err, f # fs)) (extend_files extend_file invalidate fs)
      else if f_filetype f \<noteq> FIO_TYPE_FILE then None
      else let f = f\<lparr>f_extend := False, f_real_file_size := f_io_size f + f_file_offset f\<rparr>; err = extend_file f
           in if err \<noteq> 0 then Some (err, f # fs)
              else if invalidate f \<noteq> 0 then Some (invalidate f, f\<lparr>f_fd := - 1\<rparr> # fs)
              else map_option (\<lambda>(err, fs). (err, f\<lparr>f_fd := - 1\<rparr> # fs)) (extend_files extend_file invalidate fs))"

subsection \<open>Random maps\<close>

text \<open>\<open>smalloc\<close> takes an unsigned int: the sizes are cut to 32 bits. The memory it returns is zeroed.\<close>

definition smalloc_words :: "(nat \<Rightarrow> u64 option \<times> bool) \<Rightarrow> smalloc_state \<Rightarrow> u64 \<Rightarrow> (u64 list option \<times> smalloc_state) option" where
  "smalloc_words env st n = do {
     let sz = (ucast (n * 8) :: u32);
     (st, ptr) \<leftarrow> smalloc env st sz;
     Some (map_option (\<lambda>_. replicate (unat sz div 8) 0) ptr, st)
   }"

definition init_file_map ::
  "(nat \<Rightarrow> u64 option \<times> bool) \<Rightarrow> 'd thread_data \<Rightarrow> fio_file \<Rightarrow> smalloc_state \<Rightarrow> (bool \<times> fio_file \<times> smalloc_state) option" where
  "init_file_map env td f st =
     (let min_bs = ucast (o_rwmin (td_o td))
      in if min_bs = 0 then None
         else do {
           let blocks = (f_real_file_size f + min_bs - 1) div min_bs;
           let num_maps = (blocks + 64 - 1) div 64;
           (m, st) \<leftarrow> smalloc_words env st num_maps;
           (m2, st) \<leftarrow> smalloc_words env st (2 * num_maps);
           let f = f\<lparr>f_file_map := m, f_file_map2 := m2\<rparr>;
           if m \<noteq> None \<and> m2 \<noteq> None then Some (False, f\<lparr>f_num_maps := num_maps\<rparr>, st)
           else if \<not> o_softrandommap (td_o td) then Some (True, f, st)
           else Some (False, f\<lparr>f_num_maps := 0\<rparr>, st)
         })"

fun init_maps ::
  "(nat \<Rightarrow> u64 option \<times> bool) \<Rightarrow> 'd thread_data \<Rightarrow> fio_file list \<Rightarrow> smalloc_state \<Rightarrow> (bool \<times> fio_file list \<times> smalloc_state) option" where
  "init_maps env td [] st = Some (False, [], st)"
| "init_maps env td (f # fs) st = do {
     (failed, f, st) \<leftarrow> init_file_map env td f st;
     if failed then Some (True, f # fs, st)
     else do {
       (failed, fs, st) \<leftarrow> init_maps env td fs st;
       Some (failed, f # fs, st)
     }
   }"

definition init_random_map :: "(nat \<Rightarrow> u64 option \<times> bool) \<Rightarrow> 'd thread_data \<Rightarrow> smalloc_state \<Rightarrow> (bool \<times> 'd thread_data \<times> smalloc_state) option" where
  "init_random_map env td st =
     (if o_norandommap (td_o td) \<or> \<not> td_random td then Some (False, td, st)
      else do {
        fs \<leftarrow> mem_read (td_files td) 0 (unat (o_nr_files (td_o td)));
        (failed, fs, st) \<leftarrow> init_maps env td fs st;
        Some (failed, td\<lparr>td_files := fs @ drop (length fs) (td_files td)\<rparr>, st)
      })"

lemma unat_ceil_div:
  fixes x y :: u64
  assumes "y \<noteq> 0" "unat x + unat y < 2 ^ 64"
  shows "unat ((x + y - 1) div y) = (unat x + unat y - 1) div unat y"
proof -
  have "0 < unat y" using assms(1) by (simp add: unat_gt_0)
  hence "unat (x + y - 1) = unat x + unat y - 1"
    using assms by (simp add: unat_word_ariths unat_sub_if' word_le_nat_alt Suc_leI)
  thus ?thesis by (simp add: unat_div)
qed

text \<open>For files below four gigabytes of map words the maps have the size the searches rely on.\<close>

lemma init_file_map_sized:
  assumes "init_file_map env td f st = Some (failed, f', st')" "f_file_map f' \<noteq> None" "f_file_map2 f' \<noteq> None"
    and "unat (f_real_file_size f) < 2 ^ 63" "file_blocks (o_rwmin (td_o td)) f < 2 ^ 34"
  shows "map_sized (o_rwmin (td_o td)) f' \<and> (\<forall>x. \<not> marked f' x) \<and> \<not> failed"
proof -
  let ?m = "o_rwmin (td_o td)"
  let ?nm = "((f_real_file_size f + ucast ?m - 1) div ucast ?m + 64 - 1) div 64"
  have m: "?m \<noteq> 0" using assms(1) by (auto simp: init_file_map_def Let_def split: if_splits)
  have mz: "(ucast ?m :: u64) \<noteq> 0" using m by (simp add: word_unat_eq_iff unat_u32_u64)
  have b: "unat ((f_real_file_size f + ucast ?m - 1) div ucast ?m) = file_blocks ?m f"
    unfolding file_blocks_def using unat_ceil_div[OF mz, of "f_real_file_size f"] assms(4) unat_lt[of ?m] by (simp add: unat_u32_u64)
  have nm: "unat ?nm = (file_blocks ?m f + 63) div 64"
    using unat_ceil_div[of 64 "(f_real_file_size f + ucast ?m - 1) div ucast ?m"] b assms(5) by simp
  have small: "unat ?nm \<le> 2 ^ 28" unfolding nm using assms(5) by simp
  obtain m1 st1 m2 st2 where w: "smalloc_words env st ?nm = Some (m1, st1)" and f': "f' = f\<lparr>f_file_map := m1, f_file_map2 := m2, f_num_maps := ?nm\<rparr>" "\<not> failed"
    using assms(1-3) by (auto simp: init_file_map_def Let_def split: if_splits bind_splits)
  have "unat (ucast (?nm * 8) :: u32) = unat ?nm * 8"
    using small by (subst unat_ucast_small) (simp_all add: unat_word_ariths)
  hence m1: "m1 = Some (replicate (unat ?nm) 0)"
    using w assms(2) f'(1) by (auto simp: smalloc_words_def Let_def split: bind_splits)
  have "map_sized ?m f'"
    using small nm m assms(4) unfolding map_sized_def map_ok_def file_blocks_def f'(1) m1 by simp
  moreover have "\<not> marked f' x" for x unfolding f'(1) m1 marked_def by simp
  ultimately show ?thesis using f'(2) by blast
qed

lemma init_maps_nth:
  assumes "init_maps env td fs st = Some (False, fs', st')"
  shows "length fs' = length fs \<and> (\<forall>i < length fs. \<exists>st1 st2. init_file_map env td (fs ! i) st1 = Some (False, fs' ! i, st2))"
  using assms
proof (induction fs arbitrary: fs' st)
  case (Cons f fs)
  then obtain f1 st1 fs1 where f: "init_file_map env td f st = Some (False, f1, st1)" and r: "init_maps env td fs st1 = Some (False, fs1, st')" "fs' = f1 # fs1"
    by (auto split: if_splits bind_splits)
  show ?case
  proof (intro conjI allI impI)
    show "length fs' = length (f # fs)" using Cons.IH[OF r(1)] r(2) by simp
    fix i assume "i < length (f # fs)"
    thus "\<exists>st1 st2. init_file_map env td ((f # fs) ! i) st1 = Some (False, fs' ! i, st2)"
      using Cons.IH[OF r(1)] r(2) f by (cases i) auto
  qed
qed simp


definition small_pool :: pool where
  "small_pool = \<lparr>p_base = 4096, p_map = replicate 1024 0, p_bitmap = [0], p_free_blocks = 32, p_nr_blocks = 1, p_next_non_full = 0, p_mmap_size = 1028\<rparr>"

lemma two_allocs:
  "(case smalloc demo_env \<lparr>mp = [small_pool], last_pool = 0\<rparr> 8 of
      Some (st1, Some _) \<Rightarrow> (case smalloc demo_env st1 16 of Some (st2, Some _) \<Rightarrow> True | _ \<Rightarrow> False)
    | _ \<Rightarrow> False)"
  by code_simp

definition job_td :: "real thread_data" where
  "job_td = zero_td\<lparr>td_o := zero_options\<lparr>o_td_ddir := 6, o_bs := (4096, 4096), o_iodepth := 1, o_nr_files := 1\<rparr>,
     td_files := [zero_file\<lparr>f_real_file_size := 4096\<rparr>]\<rparr>"

lemma fixup_modes_plain:
  assumes "\<not> o_again (td_o td)"
  shows "o_norandommap (td_o (fst (fixup_modes w (td, r)))) = o_norandommap (td_o td)" "o_min_bs (td_o (fst (fixup_modes w (td, r)))) = o_min_bs (td_o td)"
    "o_bs (td_o (fst (fixup_modes w (td, r)))) = o_bs (td_o td)" "o_ba (td_o (fst (fixup_modes w (td, r)))) = o_ba (td_o td)"
    "o_nr_files (td_o (fst (fixup_modes w (td, r)))) = o_nr_files (td_o td)" "td_files (fst (fixup_modes w (td, r))) = td_files td"
    "o_td_ddir (td_o (fst (fixup_modes w (td, r)))) = o_td_ddir (td_o td)"
  using assms by (simp_all add: fixup_modes_def Let_def)

lemma fixup_block_sizes_plain:
  assumes "o_ba (td_o td) = (0, 0)" "o_min_bs (td_o td) = (0, 0)"
  shows "o_norandommap (td_o (fst (fixup_block_sizes w (td, r)))) = o_norandommap (td_o td)" "o_min_bs (td_o (fst (fixup_block_sizes w (td, r)))) = o_bs (td_o td)"
    "o_nr_files (td_o (fst (fixup_block_sizes w (td, r)))) = o_nr_files (td_o td)"
  using assms by (simp_all add: fixup_block_sizes_def default_bs_def Let_def)

lemma fixup_plain:
  fixes w :: int
  assumes "\<not> o_again (td_o td)" "o_ba (td_o td) = (0, 0)" "o_min_bs (td_o td) = (0, 0)" "o_nr_files (td_o td) \<le> of_nat (length (td_files td))"
  defines "td' \<equiv> fst (fixup_options w td)"
  shows "o_norandommap (td_o td') = o_norandommap (td_o td)" "td_random td' = td_random td" "o_nr_files (td_o td') = o_nr_files (td_o td)"
    "td_files td' = td_files td" "o_rwmin (td_o td') = min (fst (o_bs (td_o td))) (snd (o_bs (td_o td)))"
proof -
  obtain t1 r1 where m: "fixup_modes w (td, 0) = (t1, r1)" by fastforce
  obtain t2 r2 where b: "fixup_block_sizes w (t1, r1) = (t2, r2)" by fastforce
  have l: "(td', snd (fixup_options w td)) = fixup_buffers w (fixup_verify w (fixup_rates w (fixup_depths t2, r2)))"
    by (simp add: td'_def fixup_options_def m b)
  note s1 = fixup_modes_plain[OF assms(1), of w 0, unfolded m fst_conv]
  note s2 = fixup_block_sizes_plain[of t1 w r1, unfolded b fst_conv, unfolded s1, OF assms(2,3)]
    fixup_block_sizes_rwmin[of w "(t1, r1)", unfolded b fst_conv] fixup_block_sizes_keeps[of w t1 r1, unfolded b fst_conv]
  have nr: "o_nr_files (td_o (fixup_depths t2)) = o_nr_files (td_o t2)"
    using assms(4) s1 s2 by (auto simp: fixup_depths_def Let_def not_less)
  show "o_norandommap (td_o td') = o_norandommap (td_o td)" "td_random td' = td_random td" "o_nr_files (td_o td') = o_nr_files (td_o td)"
    "td_files td' = td_files td" "o_rwmin (td_o td') = min (fst (o_bs (td_o td))) (snd (o_bs (td_o td)))"
    using fixup_later_stages[OF l] s1 s2 nr by (simp_all add: fixup_depths_keeps td_random_def)
qed

lemma job_o: "o_norandommap (td_o (fst (fixup_options 0 job_td))) = False" "td_random (fst (fixup_options 0 job_td))" "o_nr_files (td_o (fst (fixup_options 0 job_td))) = 1"
  "td_files (fst (fixup_options 0 job_td)) = [zero_file\<lparr>f_real_file_size := 4096\<rparr>]" "o_rwmin (td_o (fst (fixup_options 0 job_td))) = 4096"
  using fixup_plain[of job_td 0] by (simp_all add: job_td_def zero_options_def td_random_def TD_DDIR_RAND_def)


end
