(* ===== verification/Spec2Isabelle.thy ===== *)
theory Spec2Isabelle
  imports Fifo Mutex Io_Setup
begin

text \<open>
  A verification development for fio, the flexible I/O tester. A fio process runs jobs; a job
  generates I/O units (offset, length, direction), fills their buffers, hands them to an
  engine, accounts for their completion, and in verify mode reads the data back and checks it.

  \<^item> \<open>Fio_Prelude\<close>: machine integers, memory as byte lists with bounds checked access (an access
    outside an object is \<open>None\<close>), little endian encoding, and the shared lemmas.
  \<^item> \<open>Bits_Lib\<close>: \<open>ffs\<close>, \<open>ffz\<close>, \<open>fls\<close>, byte order (\<open>lib/ffz.h\<close>, \<open>lib/fls.h\<close>, \<open>lib/bswap.h\<close>).
  \<^item> \<open>Fifo\<close>: the byte ring (\<open>fifo.c\<close>) and the blktrace reader on top of it (\<open>blktrace.c\<close>). The ring
    refines a bounded queue of bytes; the reader hands out the trace in order.
  \<^item> \<open>Crc\<close>: the checksums of \<open>crc/\<close>. The table driven routines are polynomial division, and a
    burst no wider than the checksum is always detected.
  \<^item> \<open>Digest\<close>: md5, sha1, sha256 and sha512 as incremental hashes.
  \<^item> \<open>Rand_Hash\<close>: the random number generator, the buffer fillers and the hash functions
    (\<open>lib/rand.c\<close>, \<open>lib/rand.h\<close>, \<open>hash.h\<close>).
  \<^item> \<open>Verify\<close>: headers, patterns and checksums of the verify mode (\<open>verify.c\<close>).
  \<^item> \<open>Smalloc\<close>, \<open>Smalloc_Heap\<close>: the allocator of shared memory (\<open>smalloc.c\<close>) and the invariant of its
    heap under every sequence of operations.
  \<^item> \<open>Clock\<close>: the clock, elapsed time and sleeping (\<open>gettime.c\<close>, \<open>time.c\<close>).
  \<^item> \<open>Mutex\<close>: semaphores and reader-writer locks (\<open>mutex.c\<close>) under every interleaving of threads.

  Loops are total functions with a termination proof, or partial functions in the option type
  where the C loop may run forever; no fuel is used. Calls into the operating system and the
  processor's crc instruction are parameters.
\<close>

end
